(* ===== verification/Deneva_Base.thy ===== *)
theory Deneva_Base
  imports "HOL-Library.Word" "HOL-Library.Multiset" "HOL-Library.Monad_Syntax"
begin

text \<open>
  The shared vocabulary of the development: the integer widths and enumerations of
  \<^verbatim>\<open>system/global.h\<close> and \<^verbatim>\<open>config.h\<close>, the treatment of \<^verbatim>\<open>assert\<close>, the part of a
  \<^verbatim>\<open>TxnManager\<close> that the row managers read and write, and generic lemmas on lists, on
  words and on arrays of buckets.

  The build does not define \<^verbatim>\<open>NDEBUG\<close>, so a failing \<^verbatim>\<open>assert\<close> ends the process. A
  function that may fail an assertion returns an option, and \<open>None\<close> is the failed process.
  Statistics (\<^verbatim>\<open>INC_STATS\<close>, \<^verbatim>\<open>txn_stats\<close>) and debug output are not part of the state.
\<close>

section \<open>Integers and enumerations\<close>

type_synonym u64 = "64 word"
type_synonym u32 = "32 word"
type_synonym u8 = "8 word"
type_synonym row_bytes = "u8 list"
type_synonym ts_t = u64
type_synonym txnid_t = u64
type_synonym txn_ptr = nat

abbreviation UINT64_MAX :: u64 where
  "UINT64_MAX \<equiv> - 1"

datatype RC = RCOK | Commit | Abort | WAIT | WAIT_REM | ERROR | FINISH | NONE

datatype access_t = RD | WR | XP | SCAN

datatype lock_t = LOCK_EX | LOCK_SH | LOCK_NONE

datatype TsType = R_REQ | W_REQ | P_REQ | XP_REQ

datatype cc_alg = NO_WAIT | WAIT_DIE | DL_DETECT | TIMESTAMP | MVCC | HSTORE | HSTORE_SPEC
  | OCC | VLL | CALVIN | MAAT | WDL

datatype workload = YCSB | TPCC | PPS | TEST

section \<open>Assertions\<close>

definition ASSERT :: "bool \<Rightarrow> unit option" where
  "ASSERT b = (if b then Some () else None)"

lemma ASSERT_simps [simp]:
  "ASSERT True = Some ()"
  "ASSERT False = None"
  by (simp_all add: ASSERT_def)

lemma ASSERT_eq_Some [simp]: "ASSERT b = Some u \<longleftrightarrow> b"
  by (simp add: ASSERT_def)

lemma ASSERT_eq_None [simp]: "ASSERT b = None \<longleftrightarrow> \<not> b"
  by (simp add: ASSERT_def)

lemma bind_ASSERT_eq_Some [simp]: "ASSERT b \<bind> f = Some y \<longleftrightarrow> b \<and> f () = Some y"
  by (cases b) simp_all

section \<open>The transaction manager\<close>

text \<open>
  The fields of \<^verbatim>\<open>TxnManager\<close> and of its \<^verbatim>\<open>Transaction\<close> that the locking row manager uses.
  A pointer \<^verbatim>\<open>TxnManager *\<close> is a \<open>txn_ptr\<close> and the store of all of them is a function
  from pointers to records.
\<close>

record txn_man =
  txn_id :: txnid_t
  batch_id :: u64
  timestamp :: ts_t
  lock_ready :: int
  lock_ready_cnt :: u32
  twopl_wait_start :: u64
  recon :: bool

type_synonym txn_store = "txn_ptr \<Rightarrow> txn_man"

text \<open>\<^verbatim>\<open>ATOM_CAS\<close> on the \<^verbatim>\<open>lock_ready\<close> field: the swap happens when the old value matches.\<close>

definition cas_lock_ready :: "int \<Rightarrow> int \<Rightarrow> txn_man \<Rightarrow> bool \<times> txn_man" where
  "cas_lock_ready old new m =
     (if lock_ready m = old then (True, m\<lparr>lock_ready := new\<rparr>) else (False, m))"

definition incr_lr :: "txn_man \<Rightarrow> u32 \<times> txn_man" where
  "incr_lr m = (let c = lock_ready_cnt m + 1 in (c, m\<lparr>lock_ready_cnt := c\<rparr>))"

definition decr_lr :: "txn_man \<Rightarrow> u32 \<times> txn_man" where
  "decr_lr m = (let c = lock_ready_cnt m - 1 in (c, m\<lparr>lock_ready_cnt := c\<rparr>))"

lemma txn_man_ops_frame [simp]:
  "timestamp (snd (cas_lock_ready a b m)) = timestamp m"
  "timestamp (snd (incr_lr m)) = timestamp m"
  "timestamp (snd (decr_lr m)) = timestamp m"
  "txn_id (snd (cas_lock_ready a b m)) = txn_id m"
  "txn_id (snd (incr_lr m)) = txn_id m"
  "txn_id (snd (decr_lr m)) = txn_id m"
  "batch_id (snd (cas_lock_ready a b m)) = batch_id m"
  "batch_id (snd (incr_lr m)) = batch_id m"
  "batch_id (snd (decr_lr m)) = batch_id m"
  "recon (snd (cas_lock_ready a b m)) = recon m"
  "recon (snd (incr_lr m)) = recon m"
  "recon (snd (decr_lr m)) = recon m"
  by (simp_all add: cas_lock_ready_def incr_lr_def decr_lr_def Let_def)

section \<open>Words\<close>

lemma of_nat_word_eq_0:
  assumes "n < 2 ^ LENGTH('a::len)"
  shows "(of_nat n :: 'a word) = 0 \<longleftrightarrow> n = 0"
proof -
  have "unat (of_nat n :: 'a word) = n"
    using assms by (simp add: unat_of_nat take_bit_nat_eq_self)
  then show ?thesis by auto
qed

lemma le_UINT64_MAX [simp]: "(x :: u64) \<le> UINT64_MAX"
  by simp

lemma less_UINT64_MAX: "(x :: u64) < UINT64_MAX \<longleftrightarrow> x \<noteq> UINT64_MAX"
  by (metis le_UINT64_MAX order.not_eq_order_implies_strict less_irrefl)

lemma word_pred_less: "(0 :: u64) < x \<Longrightarrow> x - 1 < x"
  by (simp add: word_less_nat_alt unat_gt_0 unat_sub word_le_nat_alt unat_minus_one)

lemma word_le_pred: "(x :: u64) < y \<Longrightarrow> x \<le> y - 1"
  by (simp add: word_less_nat_alt word_le_nat_alt unat_sub_if')

lemma unat_UINT64_MAX: "unat UINT64_MAX = 18446744073709551615"
  by (simp add: unsigned_minus_1_eq_mask mask_eq_exp_minus_1)

lemma unat_lt_2_64: "unat (x :: u64) < 18446744073709551616"
  by (rule less_le_trans [OF unsigned_less]) simp

lemma word_succ_greater: "(x :: u64) < UINT64_MAX \<Longrightarrow> x < x + 1"
  by (auto simp: word_less_nat_alt word_le_nat_alt unat_plus_if' unat_UINT64_MAX)

lemma word_succ_le: "(x :: u64) < y \<Longrightarrow> x + 1 \<le> y"
  using unat_lt_2_64 [of y] by (auto simp: word_less_nat_alt word_le_nat_alt unat_plus_if')

lemma word_succ_less: "(x :: u64) < y - 1 \<Longrightarrow> z < y \<Longrightarrow> x + 1 < y"
  using unat_lt_2_64 [of y] by (auto simp: word_less_nat_alt word_le_nat_alt unat_plus_if' unat_sub_if')

lemma word_minus_two: "(l :: u64) < UINT64_MAX - 1 \<Longrightarrow> l + 2 < x \<Longrightarrow> l < x - 2 \<and> x - 2 < x"
  by (auto simp: word_less_nat_alt word_le_nat_alt unat_plus_if' unat_sub_if' unat_UINT64_MAX split: if_splits)

lemma word_minus_one: "(l :: u64) < UINT64_MAX - 1 \<Longrightarrow> l + 1 < x \<Longrightarrow> l < x - 1 \<and> x - 1 < x"
  by (auto simp: word_less_nat_alt word_le_nat_alt unat_plus_if' unat_sub_if' unat_UINT64_MAX split: if_splits)

lemma ucast_of_nat_u32 [simp]: "ucast (of_nat n :: u64) = (of_nat n :: u32)"
  by transfer (simp add: take_bit_of_nat)

section \<open>Arrays of buckets\<close>

text \<open>
  Several tables of the program (lock owners, the MaaT time table, the transaction table,
  the hash index) are arrays of chains indexed by a hash. The contents of such an array is
  the concatenation of its chains.
\<close>

lemma mset_concat_update:
  "i < length bs \<Longrightarrow>
   mset (concat (bs[i := c])) + mset (bs ! i) = mset (concat bs) + mset c"
proof (induction bs arbitrary: i)
  case Nil
  then show ?case by simp
next
  case (Cons b bs)
  then show ?case by (cases i) (auto simp: ac_simps)
qed

lemma mset_concat_push:
  assumes "i < length bs"
  shows "mset (concat (bs[i := x # bs ! i])) = add_mset x (mset (concat bs))"
proof -
  have "mset (concat (bs[i := x # bs ! i])) + mset (bs ! i)
      = add_mset x (mset (concat bs)) + mset (bs ! i)"
    using mset_concat_update [OF assms, of "x # bs ! i"] by simp
  then show ?thesis by (rule add_right_imp_eq)
qed

lemma set_concat_nthI: "i < length bs \<Longrightarrow> x \<in> set (bs ! i) \<Longrightarrow> x \<in> set (concat bs)"
  by auto

end
