(* ===== verification/List_Macros.thy ===== *)
theory List_Macros
  imports Deneva_Base
begin

text \<open>
  The intrusive list macros of \<^verbatim>\<open>system/helper.h\<close> at the level of pointers. A node is an
  address, \<^verbatim>\<open>NULL\<close> is \<open>None\<close>, and the \<^verbatim>\<open>next\<close> and \<^verbatim>\<open>prev\<close> fields of all nodes form the
  heap \<open>links\<close>. A macro takes the heap and the list variables it names (\<^verbatim>\<open>lhead\<close>, \<^verbatim>\<open>ltail\<close>)
  and returns their new values. The representation predicate \<open>dlist\<close> relates head, tail and
  heap to the list of nodes, and every macro is shown to implement the corresponding
  list operation; the other theories use HOL lists on the strength of these lemmas.
\<close>

section \<open>The macros\<close>

type_synonym node = nat

record links =
  nxt :: "node \<Rightarrow> node option"
  prv :: "node \<Rightarrow> node option"

definition set_nxt :: "node \<Rightarrow> node option \<Rightarrow> links \<Rightarrow> links" where
  "set_nxt a q h = h\<lparr>nxt := (nxt h)(a := q)\<rparr>"

definition set_prv :: "node \<Rightarrow> node option \<Rightarrow> links \<Rightarrow> links" where
  "set_prv a q h = h\<lparr>prv := (prv h)(a := q)\<rparr>"

lemma links_upd_simps [simp]:
  "nxt (set_nxt a q h) = (nxt h)(a := q)"
  "prv (set_nxt a q h) = prv h"
  "nxt (set_prv a q h) = nxt h"
  "prv (set_prv a q h) = (prv h)(a := q)"
  by (simp_all add: set_nxt_def set_prv_def)

definition STACK_POP :: "node option \<Rightarrow> links \<Rightarrow> node option \<times> node option" where
  "STACK_POP stack h = (case stack of None \<Rightarrow> (None, None) | Some s \<Rightarrow> (Some s, nxt h s))"

definition STACK_PUSH :: "node option \<Rightarrow> node \<Rightarrow> links \<Rightarrow> node option \<times> links" where
  "STACK_PUSH stack entry h = (Some entry, set_nxt entry stack h)"

definition LIST_GET_HEAD ::
  "node option \<Rightarrow> node option \<Rightarrow> links \<Rightarrow> node option \<times> node option \<times> node option \<times> links" where
  "LIST_GET_HEAD lhead ltail h =
     (let en = lhead;
          lhead = (case lhead of Some a \<Rightarrow> nxt h a | None \<Rightarrow> None);
          (ltail, h) = (case lhead of Some b \<Rightarrow> (ltail, set_prv b None h) | None \<Rightarrow> (None, h));
          h = (case en of Some a \<Rightarrow> set_nxt a None h | None \<Rightarrow> h)
      in (en, lhead, ltail, h))"

definition LIST_PUT_TAIL ::
  "node option \<Rightarrow> node option \<Rightarrow> node \<Rightarrow> links \<Rightarrow> node option \<times> node option \<times> links" where
  "LIST_PUT_TAIL lhead ltail en h =
     (let h = set_prv en None (set_nxt en None h)
      in case ltail of
           Some t \<Rightarrow> (lhead, Some en, set_nxt t (Some en) (set_prv en (Some t) h))
         | None \<Rightarrow> (Some en, Some en, h))"

definition LIST_INSERT_BEFORE ::
  "node \<Rightarrow> node \<Rightarrow> node option \<Rightarrow> links \<Rightarrow> node option \<times> links" where
  "LIST_INSERT_BEFORE entry newentry lhead h =
     (let h = set_nxt newentry (Some entry) h;
          h = set_prv newentry (prv h entry) h;
          h = (case prv h entry of Some p \<Rightarrow> set_nxt p (Some newentry) h | None \<Rightarrow> h);
          h = set_prv entry (Some newentry) h
      in (if lhead = Some entry then Some newentry else lhead, h))"

definition LIST_REMOVE :: "node \<Rightarrow> links \<Rightarrow> links" where
  "LIST_REMOVE entry h =
     (let h = (case nxt h entry of Some n \<Rightarrow> set_prv n (prv h entry) h | None \<Rightarrow> h)
      in case prv h entry of Some p \<Rightarrow> set_nxt p (nxt h entry) h | None \<Rightarrow> h)"

definition LIST_REMOVE_HT ::
  "node \<Rightarrow> node option \<Rightarrow> node option \<Rightarrow> links \<Rightarrow> (node option \<times> node option \<times> links) option" where
  "LIST_REMOVE_HT entry head tail h = do {
     (tail, h) \<leftarrow> (case nxt h entry of
        Some n \<Rightarrow> Some (tail, set_prv n (prv h entry) h)
      | None \<Rightarrow> do { ASSERT (Some entry = tail); Some (prv h entry, h) });
     (head, h) \<leftarrow> (case prv h entry of
        Some p \<Rightarrow> Some (head, set_nxt p (nxt h entry) h)
      | None \<Rightarrow> do { ASSERT (Some entry = head); Some (nxt h entry, h) });
     Some (head, tail, h) }"

section \<open>The represented list\<close>

definition first :: "'a list \<Rightarrow> 'a option \<Rightarrow> 'a option" where
  "first xs q = (case xs of [] \<Rightarrow> q | x # _ \<Rightarrow> Some x)"

definition final :: "'a list \<Rightarrow> 'a option \<Rightarrow> 'a option" where
  "final xs p = (if xs = [] then p else Some (last xs))"

lemma first_final_simps [simp]:
  "first [] q = q" "first (x # xs) q = Some x"
  "first (xs @ ys) q = first xs (first ys q)"
  "final [] p = p" "final (x # xs) p = final xs (Some x)"
  "final (xs @ ys) p = final ys (final xs p)"
  by (simp_all add: first_def final_def split: list.split)

lemma final_in_set: "final xs None = Some t \<Longrightarrow> t \<in> set xs"
  by (auto simp: final_def split: if_splits)

lemma first_in_set: "first xs q = Some e \<Longrightarrow> e \<in> set xs \<or> q = Some e"
  by (auto simp: first_def split: list.splits)

lemma final_None [simp]: "final xs None = None \<longleftrightarrow> xs = []"
  by (simp add: final_def)

lemma first_None [simp]: "first xs None = None \<longleftrightarrow> xs = []"
  by (simp add: first_def split: list.split)

text \<open>
  \<open>dseg h p xs q\<close>: the nodes \<open>xs\<close> are chained in both directions, the first node's
  predecessor is \<open>p\<close> and the last node's successor is \<open>q\<close>.
\<close>

fun dseg :: "links \<Rightarrow> node option \<Rightarrow> node list \<Rightarrow> node option \<Rightarrow> bool" where
  "dseg h p [] q = True"
| "dseg h p (x # xs) q = (prv h x = p \<and> nxt h x = first xs q \<and> dseg h (Some x) xs q)"

lemma dseg_append:
  "dseg h p (xs @ ys) q \<longleftrightarrow> dseg h p xs (first ys q) \<and> dseg h (final xs p) ys q"
  by (induction xs arbitrary: p) auto

lemma dseg_frame:
  "(\<And>x. x \<in> set xs \<Longrightarrow> nxt h' x = nxt h x) \<Longrightarrow> (\<And>x. x \<in> set xs \<Longrightarrow> prv h' x = prv h x) \<Longrightarrow>
   dseg h' p xs q = dseg h p xs q"
  by (induction xs arbitrary: p) auto

lemma dseg_set_nxt_other [simp]: "a \<notin> set xs \<Longrightarrow> dseg (set_nxt a r h) p xs q = dseg h p xs q"
  by (rule dseg_frame) auto

lemma dseg_set_prv_other [simp]: "a \<notin> set xs \<Longrightarrow> dseg (set_prv a r h) p xs q = dseg h p xs q"
  by (rule dseg_frame) auto

definition dlist :: "links \<Rightarrow> node option \<Rightarrow> node option \<Rightarrow> node list \<Rightarrow> bool" where
  "dlist h lhead ltail xs \<longleftrightarrow>
     distinct xs \<and> lhead = first xs None \<and> ltail = final xs None \<and> dseg h None xs None"

lemma dlist_empty: "dlist h None None []"
  by (simp add: dlist_def)

lemma LIST_GET_HEAD_dlist:
  assumes "dlist h lhead ltail (x # xs)"
  obtains lhead' ltail' h' where
    "LIST_GET_HEAD lhead ltail h = (Some x, lhead', ltail', h')" "dlist h' lhead' ltail' xs"
  using assms by (cases xs) (auto simp: LIST_GET_HEAD_def dlist_def Let_def)

lemma LIST_PUT_TAIL_dlist:
  assumes "dlist h lhead ltail xs" and "en \<notin> set xs"
  obtains lhead' ltail' h' where
    "LIST_PUT_TAIL lhead ltail en h = (lhead', ltail', h')" "dlist h' lhead' ltail' (xs @ [en])"
proof (cases xs rule: rev_cases)
  case Nil
  with assms show thesis by (intro that) (auto simp: LIST_PUT_TAIL_def dlist_def)
next
  case (snoc ys t)
  with assms show thesis by (intro that) (auto simp: LIST_PUT_TAIL_def dlist_def dseg_append)
qed

lemma LIST_INSERT_BEFORE_dlist:
  assumes "dlist h lhead ltail (xs @ e # ys)" and "n \<notin> set (xs @ e # ys)"
  obtains lhead' h' where
    "LIST_INSERT_BEFORE e n lhead h = (lhead', h')" "dlist h' lhead' ltail (xs @ n # e # ys)"
proof (cases xs rule: rev_cases)
  case Nil
  with assms show thesis by (intro that) (auto simp: LIST_INSERT_BEFORE_def dlist_def Let_def)
next
  case (snoc zs p)
  with assms show thesis
    by (intro that)
      (auto simp: LIST_INSERT_BEFORE_def dlist_def dseg_append Let_def dest: first_in_set)
qed

lemma LIST_REMOVE_HT_dlist:
  assumes "dlist h lhead ltail (xs @ e # ys)"
  obtains lhead' ltail' h' where
    "LIST_REMOVE_HT e lhead ltail h = Some (lhead', ltail', h')" "dlist h' lhead' ltail' (xs @ ys)"
proof (cases xs rule: rev_cases)
  case Nil
  with assms show thesis by (cases ys) (auto simp: LIST_REMOVE_HT_def dlist_def intro: that)
next
  case (snoc zs p)
  with assms show thesis
    by (cases ys) (auto simp: LIST_REMOVE_HT_def dlist_def dseg_append intro: that)
qed

section \<open>Ordered insertion\<close>

text \<open>
  The waiters of a lock and the MVCC histories are kept ordered by the same loop: walk from the
  head while the new entry belongs further on, then \<^verbatim>\<open>LIST_INSERT_BEFORE\<close> the entry where
  the walk stopped, or \<^verbatim>\<open>LIST_PUT_TAIL\<close> at the end. On a cyclic heap the walk would not
  return, so it is a partial function.
\<close>

partial_function (option) walk ::
  "(node \<Rightarrow> bool) \<Rightarrow> links \<Rightarrow> node option \<Rightarrow> node option option" where
  "walk beyond h en =
     (case en of
        None \<Rightarrow> Some None
      | Some a \<Rightarrow> if beyond a then walk beyond h (nxt h a) else Some (Some a))"

definition insert_ordered ::
  "(node \<Rightarrow> bool) \<Rightarrow> node \<Rightarrow> node option \<Rightarrow> node option \<Rightarrow> links
   \<Rightarrow> (node option \<times> node option \<times> links) option" where
  "insert_ordered beyond entry lhead ltail h = do {
     en \<leftarrow> walk beyond h lhead;
     Some (case en of
        Some e \<Rightarrow> (let (lhead, h) = LIST_INSERT_BEFORE e entry lhead h in (lhead, ltail, h))
      | None \<Rightarrow> LIST_PUT_TAIL lhead ltail entry h) }"

lemma walk_dseg:
  "dseg h p xs None \<Longrightarrow> walk beyond h (first xs None) = Some (first (dropWhile beyond xs) None)"
proof (induction xs arbitrary: p)
  case Nil
  show ?case by (simp add: walk.simps)
next
  case (Cons x xs)
  then have "dseg h (Some x) xs None" and "nxt h x = first xs None" by auto
  with Cons.IH show ?case by (subst walk.simps) auto
qed

lemma insert_ordered_dlist:
  assumes "dlist h lhead ltail xs" and "entry \<notin> set xs"
  obtains lhead' ltail' h' where
    "insert_ordered beyond entry lhead ltail h = Some (lhead', ltail', h')"
    "dlist h' lhead' ltail' (takeWhile beyond xs @ entry # dropWhile beyond xs)"
proof -
  have walk: "walk beyond h lhead = Some (first (dropWhile beyond xs) None)"
    using assms(1) walk_dseg [of h None xs beyond] by (simp add: dlist_def)
  show thesis
  proof (cases "dropWhile beyond xs")
    case Nil
    then have all: "takeWhile beyond xs = xs"
      by (metis append_Nil2 takeWhile_dropWhile_id)
    obtain lhead' ltail' h' where
      "LIST_PUT_TAIL lhead ltail entry h = (lhead', ltail', h')"
      "dlist h' lhead' ltail' (xs @ [entry])"
      using assms by (rule LIST_PUT_TAIL_dlist)
    with Nil walk show thesis
      by (intro that [of lhead' ltail' h'], unfold all Nil) (simp_all add: insert_ordered_def)
  next
    case (Cons e ys)
    then have xs: "xs = takeWhile beyond xs @ e # ys"
      by (metis takeWhile_dropWhile_id)
    obtain lhead' h' where
      "LIST_INSERT_BEFORE e entry lhead h = (lhead', h')"
      "dlist h' lhead' ltail (takeWhile beyond xs @ entry # e # ys)"
      using assms xs by (metis LIST_INSERT_BEFORE_dlist)
    with Cons walk show thesis
      by (intro that [of lhead' ltail h']) (simp_all add: insert_ordered_def)
  qed
qed

section \<open>The list interface\<close>

text \<open>
  What the users of the macros rely on: a state represents a list, appending, taking the head
  and unlinking act on the represented list.
\<close>

fun take_heads :: "('s \<Rightarrow> 'a option \<times> 's) \<Rightarrow> nat \<Rightarrow> 's \<Rightarrow> 'a option list" where
  "take_heads get 0 s = []"
| "take_heads get (Suc n) s = fst (get s) # take_heads get n (snd (get s))"

locale list_interface =
  fixes repr :: "'s \<Rightarrow> 'a list \<Rightarrow> bool"
    and put_tail :: "'a \<Rightarrow> 's \<Rightarrow> 's"
    and get_head :: "'s \<Rightarrow> 'a option \<times> 's"
    and unlink :: "'a \<Rightarrow> 's \<Rightarrow> 's option"
  assumes repr_put: "repr s xs \<Longrightarrow> x \<notin> set xs \<Longrightarrow> repr (put_tail x s) (xs @ [x])"
    and repr_get: "repr s (x # xs) \<Longrightarrow> fst (get_head s) = Some x \<and> repr (snd (get_head s)) xs"
    and repr_unlink: "repr s (xs @ x # ys) \<Longrightarrow> \<exists>s'. unlink x s = Some s' \<and> repr s' (xs @ ys)"
begin

lemma repr_put_all: "repr s ys \<Longrightarrow> distinct (ys @ xs) \<Longrightarrow> repr (fold put_tail xs s) (ys @ xs)"
proof (induction xs arbitrary: s ys)
  case Nil
  then show ?case by simp
next
  case (Cons x xs)
  then show ?case using Cons.IH [of "put_tail x s" "ys @ [x]"] by (auto intro: repr_put)
qed

lemma take_heads_repr: "repr s xs \<Longrightarrow> take_heads get_head (length xs) s = map Some xs"
  by (induction xs arbitrary: s) (auto dest: repr_get)

lemma fifo:
  "repr s [] \<Longrightarrow> distinct xs \<Longrightarrow>
   take_heads get_head (length xs) (fold put_tail xs s) = map Some xs"
  using repr_put_all [of s "[]" xs] take_heads_repr by simp

lemma unlink_remove1:
  "repr s xs \<Longrightarrow> x \<in> set xs \<Longrightarrow> \<exists>s'. unlink x s = Some s' \<and> repr s' (remove1 x xs)"
proof -
  assume "repr s xs" "x \<in> set xs"
  then obtain ys zs where "xs = ys @ x # zs" "x \<notin> set ys"
    by (auto dest: split_list_first)
  with \<open>repr s xs\<close> repr_unlink [of s ys x zs] show ?thesis
    by (simp add: remove1_append)
qed

end

record dl =
  dl_head :: "node option"
  dl_tail :: "node option"
  dl_links :: links

definition dl_repr :: "dl \<Rightarrow> node list \<Rightarrow> bool" where
  "dl_repr s xs = dlist (dl_links s) (dl_head s) (dl_tail s) xs"

definition dl_put_tail :: "node \<Rightarrow> dl \<Rightarrow> dl" where
  "dl_put_tail x s =
     (case LIST_PUT_TAIL (dl_head s) (dl_tail s) x (dl_links s) of
        (p, q, h) \<Rightarrow> \<lparr>dl_head = p, dl_tail = q, dl_links = h\<rparr>)"

definition dl_get_head :: "dl \<Rightarrow> node option \<times> dl" where
  "dl_get_head s =
     (case LIST_GET_HEAD (dl_head s) (dl_tail s) (dl_links s) of
        (en, p, q, h) \<Rightarrow> (en, \<lparr>dl_head = p, dl_tail = q, dl_links = h\<rparr>))"

definition dl_unlink :: "node \<Rightarrow> dl \<Rightarrow> dl option" where
  "dl_unlink x s =
     map_option (\<lambda>(p, q, h). \<lparr>dl_head = p, dl_tail = q, dl_links = h\<rparr>)
       (LIST_REMOVE_HT x (dl_head s) (dl_tail s) (dl_links s))"

interpretation macros: list_interface dl_repr dl_put_tail dl_get_head dl_unlink
proof
  fix s :: dl and xs x
  assume "dl_repr s xs" and fresh: "x \<notin> set xs"
  then have "dlist (dl_links s) (dl_head s) (dl_tail s) xs" by (simp add: dl_repr_def)
  from this fresh show "dl_repr (dl_put_tail x s) (xs @ [x])"
    by (rule LIST_PUT_TAIL_dlist) (simp add: dl_repr_def dl_put_tail_def)
next
  fix s :: dl and xs x
  assume "dl_repr s (x # xs)"
  then have "dlist (dl_links s) (dl_head s) (dl_tail s) (x # xs)" by (simp add: dl_repr_def)
  then show "fst (dl_get_head s) = Some x \<and> dl_repr (snd (dl_get_head s)) xs"
    by (rule LIST_GET_HEAD_dlist) (simp add: dl_repr_def dl_get_head_def)
next
  fix s :: dl and xs x ys
  assume "dl_repr s (xs @ x # ys)"
  then have "dlist (dl_links s) (dl_head s) (dl_tail s) (xs @ x # ys)" by (simp add: dl_repr_def)
  then show "\<exists>s'. dl_unlink x s = Some s' \<and> dl_repr s' (xs @ ys)"
    by (rule LIST_REMOVE_HT_dlist) (simp add: dl_repr_def dl_unlink_def)
qed

end
