(* ===== verification/Row_Lock.thy ===== *)
theory Row_Lock
  imports List_Macros
begin

text \<open>
  The per-row lock manager of \<^verbatim>\<open>concurrency_control/row_lock.cpp\<close>, used for NO_WAIT,
  WAIT_DIE and CALVIN. \<^verbatim>\<open>lock_get\<close> and \<^verbatim>\<open>lock_release\<close> run under the row's latch and are
  single steps here. \<open>owners\<close> is the array of owner chains, \<open>waiters\<close> the doubly linked
  waiter list from head to tail (the list macros are justified in \<open>List_Macros\<close>). The calls
  of \<^verbatim>\<open>txn_table.restart_txn\<close> that a release makes are returned as a list of
  (transaction id, batch id). The fields \<^verbatim>\<open>start_ts\<close> and \<^verbatim>\<open>own_starttime\<close>, which are only
  printed or added to statistics, are left out. The macro \<^verbatim>\<open>TWOPL_LITE\<close> is defined
  nowhere, so its branch is not compiled.
\<close>

section \<open>State\<close>

record lock_entry =
  le_type :: lock_t
  le_txn :: txn_ptr

record row_lock =
  lock_type :: lock_t
  owner_cnt :: u32
  waiter_cnt :: u32
  owners :: "lock_entry list list"
  owners_size :: u64
  waiters :: "lock_entry list"
  max_owner_ts :: u64

definition row_lock_init :: row_lock where
  "row_lock_init =
     \<lparr>lock_type = LOCK_NONE, owner_cnt = 0, waiter_cnt = 0, owners = [[]], owners_size = 1,
      waiters = [], max_owner_ts = 0\<rparr>"

fun conflict_lock :: "lock_t \<Rightarrow> lock_t \<Rightarrow> bool" where
  "conflict_lock l1 l2 =
     (if l1 = LOCK_NONE \<or> l2 = LOCK_NONE then False
      else if l1 = LOCK_EX \<or> l2 = LOCK_EX then True
      else False)"

declare conflict_lock.simps [simp del]

lemma conflict_lock_iff:
  "conflict_lock l1 l2 \<longleftrightarrow> l1 \<noteq> LOCK_NONE \<and> l2 \<noteq> LOCK_NONE \<and> (l1 = LOCK_EX \<or> l2 = LOCK_EX)"
  by (simp add: conflict_lock.simps)

definition owner_hash :: "row_lock \<Rightarrow> txnid_t \<Rightarrow> nat" where
  "owner_hash r i = unat (i mod owners_size r)"

definition push_owner :: "txn_store \<Rightarrow> lock_entry \<Rightarrow> row_lock \<Rightarrow> row_lock" where
  "push_owner txns e r =
     (let i = owner_hash r (txn_id (txns (le_txn e)))
      in r\<lparr>owners := (owners r)[i := e # owners r ! i]\<rparr>)"

definition bump_max_owner_ts :: "ts_t \<Rightarrow> row_lock \<Rightarrow> row_lock" where
  "bump_max_owner_ts ts r = (if ts > max_owner_ts r then r\<lparr>max_owner_ts := ts\<rparr> else r)"

section \<open>Acquiring a lock\<close>

text \<open>Lines 69 to 81: whether the request conflicts with the owners or, for the waiting
  algorithms, must queue behind the waiters.\<close>

definition get_conflict :: "cc_alg \<Rightarrow> lock_t \<Rightarrow> ts_t \<Rightarrow> row_lock \<Rightarrow> txn_store \<Rightarrow> bool" where
  "get_conflict alg ty ts r txns =
     (let conflict = conflict_lock (lock_type r) ty;
          conflict = (if alg = WAIT_DIE \<and> \<not> conflict
                      then (case waiters r of [] \<Rightarrow> False
                            | w # _ \<Rightarrow> ts < timestamp (txns (le_txn w)))
                      else conflict)
      in if alg = CALVIN \<and> \<not> conflict then waiters r \<noteq> [] else conflict)"

text \<open>Lines 101 to 118: the scan of the owners that decides whether the request may wait.\<close>

fun can_wait :: "txn_man \<Rightarrow> txn_store \<Rightarrow> lock_entry list \<Rightarrow> bool option" where
  "can_wait m txns [] = Some True"
| "can_wait m txns (en # es) = do {
     ASSERT (txn_id m \<noteq> txn_id (txns (le_txn en)));
     ASSERT (timestamp m \<noteq> timestamp (txns (le_txn en)));
     if timestamp m > timestamp (txns (le_txn en)) then Some False else can_wait m txns es }"

text \<open>Lines 133 to 141: the ordered insertion into the waiter list.\<close>

definition insert_waiter :: "txn_store \<Rightarrow> ts_t \<Rightarrow> lock_entry \<Rightarrow> lock_entry list \<Rightarrow> lock_entry list" where
  "insert_waiter txns ts e ws =
     (let beyond = (\<lambda>en. ts < timestamp (txns (le_txn en)))
      in takeWhile beyond ws @ e # dropWhile beyond ws)"

definition start_waiting :: "txn_man \<Rightarrow> txn_man" where
  "start_waiting m = snd (incr_lr (snd (cas_lock_ready 1 0 m)))"

definition lock_get ::
  "cc_alg \<Rightarrow> u64 \<Rightarrow> lock_t \<Rightarrow> txn_ptr \<Rightarrow> row_lock \<Rightarrow> txn_store \<Rightarrow> (RC \<times> row_lock \<times> txn_store) option" where
  "lock_get alg now ty t r txns = do {
     ASSERT (alg = NO_WAIT \<or> alg = WAIT_DIE \<or> alg = CALVIN);
     let m = txns t;
     let entry = \<lparr>le_type = ty, le_txn = t\<rparr>;
     (rc, r, txns) \<leftarrow>
       (if get_conflict alg ty (timestamp m) r txns then
          if alg = NO_WAIT then Some (Abort, r, txns)
          else if alg = WAIT_DIE then do {
            canwait \<leftarrow> can_wait m txns (concat (owners r));
            Some (if canwait
                  then (WAIT,
                        r\<lparr>waiters := insert_waiter txns (timestamp m) entry (waiters r),
                          waiter_cnt := waiter_cnt r + 1\<rparr>,
                        txns(t := start_waiting m))
                  else (Abort, r, txns)) }
          else Some (WAIT,
                     r\<lparr>waiters := waiters r @ [entry], waiter_cnt := waiter_cnt r + 1\<rparr>,
                     txns(t := start_waiting m))
        else do {
          let r' = (if alg \<noteq> NO_WAIT then push_owner txns entry r else r);
          ASSERT (owner_cnt r' > 0 \<longrightarrow> ty = LOCK_SH);
          let r' = bump_max_owner_ts (timestamp m) r';
          Some (RCOK, r'\<lparr>owner_cnt := owner_cnt r' + 1, lock_type := ty\<rparr>, txns) });
     Some (rc, r,
           if rc = WAIT \<and> twopl_wait_start (txns t) = 0
           then txns(t := (txns t)\<lparr>twopl_wait_start := now\<rparr>) else txns) }"

section \<open>Releasing a lock\<close>

fun unlink_owner :: "txn_ptr \<Rightarrow> lock_entry list \<Rightarrow> lock_entry list option" where
  "unlink_owner t [] = None"
| "unlink_owner t (e # es) =
     (if le_txn e = t then Some es else map_option (\<lambda>es'. e # es') (unlink_owner t es))"

text \<open>Lines 240 to 304. A transaction that is not among the owners runs into
  \<^verbatim>\<open>assert(false)\<close>, which is the \<open>None\<close> of \<open>unlink_owner\<close>.\<close>

definition release_owner :: "cc_alg \<Rightarrow> txn_ptr \<Rightarrow> row_lock \<Rightarrow> txn_store \<Rightarrow> row_lock option" where
  "release_owner alg t r txns = do {
     r \<leftarrow> (if alg = NO_WAIT then do {
             ASSERT (owner_cnt r > 0);
             Some (r\<lparr>owner_cnt := owner_cnt r - 1\<rparr>) }
           else do {
             let i = owner_hash r (txn_id (txns t));
             es \<leftarrow> unlink_owner t (owners r ! i);
             Some (r\<lparr>owners := (owners r)[i := es], owner_cnt := owner_cnt r - 1\<rparr>) });
     Some (if owner_cnt r = 0 then r\<lparr>lock_type := LOCK_NONE\<rparr> else r) }"

text \<open>Lines 334 to 349: the bookkeeping of a promoted waiter's transaction; the result says
  whether it is restarted.\<close>

definition lock_granted :: "txn_man \<Rightarrow> bool \<times> txn_man" where
  "lock_granted m =
     (let (left, m) = decr_lr (m\<lparr>twopl_wait_start := 0\<rparr>)
      in if left = 0 then cas_lock_ready 0 1 m else (False, m))"

text \<open>Lines 331 to 338 and 353: the promoted waiter joins the owners.\<close>

definition admit_waiter :: "cc_alg \<Rightarrow> lock_entry \<Rightarrow> txn_store \<Rightarrow> row_lock \<Rightarrow> row_lock" where
  "admit_waiter alg e txns r =
     (let r = (if alg \<noteq> NO_WAIT then push_owner txns e r else r);
          r = r\<lparr>owner_cnt := owner_cnt r + 1, waiter_cnt := waiter_cnt r - 1\<rparr>;
          r = bump_max_owner_ts (timestamp (txns (le_txn e))) r
      in r\<lparr>lock_type := le_type e\<rparr>)"

text \<open>Lines 315 to 357: promote waiters from the head while they do not conflict.\<close>

fun promote ::
  "cc_alg \<Rightarrow> lock_entry list \<Rightarrow> row_lock \<Rightarrow> txn_store
   \<Rightarrow> (row_lock \<times> txn_store \<times> (txnid_t \<times> u64) list) option" where
  "promote alg [] r txns = Some (r\<lparr>waiters := []\<rparr>, txns, [])"
| "promote alg (e # ws) r txns =
     (if conflict_lock (lock_type r) (le_type e) then Some (r\<lparr>waiters := e # ws\<rparr>, txns, [])
      else do {
        let m = txns (le_txn e);
        ASSERT (lock_ready m = 0);
        let (restart, m') = lock_granted m;
        (r, txns, evs) \<leftarrow> promote alg ws (admit_waiter alg e txns r) (txns(le_txn e := m'));
        Some (r, txns, (if restart then [(txn_id m, batch_id m)] else []) @ evs) })"

definition lock_release ::
  "cc_alg \<Rightarrow> txn_ptr \<Rightarrow> row_lock \<Rightarrow> txn_store
   \<Rightarrow> (RC \<times> row_lock \<times> txn_store \<times> (txnid_t \<times> u64) list) option" where
  "lock_release alg t r txns =
     (if alg = CALVIN \<and> recon (txns t) then Some (RCOK, r, txns, [])
      else do {
        r \<leftarrow> release_owner alg t r txns;
        ASSERT (owner_cnt r = 0 \<longrightarrow> lock_type r = LOCK_NONE);
        (r, txns, evs) \<leftarrow> promote alg (waiters r) r txns;
        Some (RCOK, r, txns, evs) })"

section \<open>The invariant of a row lock\<close>

definition same_ids :: "txn_store \<Rightarrow> txn_store \<Rightarrow> bool" where
  "same_ids f g \<longleftrightarrow> (\<forall>t. txn_id (f t) = txn_id (g t) \<and> timestamp (f t) = timestamp (g t))"

lemma same_ids_refl [simp]: "same_ids f f"
  by (simp add: same_ids_def)

lemma same_ids_trans: "same_ids f g \<Longrightarrow> same_ids g h \<Longrightarrow> same_ids f h"
  by (simp add: same_ids_def)

lemma same_ids_upd [simp]:
  "same_ids f g \<Longrightarrow> txn_id m = txn_id (g t) \<Longrightarrow> timestamp m = timestamp (g t) \<Longrightarrow> same_ids (f(t := m)) g"
  by (simp add: same_ids_def)

lemma start_waiting_frame [simp]:
  "txn_id (start_waiting m) = txn_id m" "timestamp (start_waiting m) = timestamp m"
  "twopl_wait_start (start_waiting m) = twopl_wait_start m"
  by (simp_all add: start_waiting_def cas_lock_ready_def incr_lr_def Let_def)

lemma lock_granted_frame [simp]:
  "lock_granted m = (b, m') \<Longrightarrow> txn_id m' = txn_id m \<and> timestamp m' = timestamp m"
  by (auto simp: lock_granted_def cas_lock_ready_def decr_lr_def Let_def split: if_splits)

lemma lock_get_same_ids: "lock_get alg now ty t r txns = Some (rc, r', txns') \<Longrightarrow> same_ids txns' txns"
  by (auto simp: lock_get_def bind_eq_Some_conv Let_def split: if_splits)

lemma promote_same_ids: "promote alg ws r txns = Some (r', txns', evs) \<Longrightarrow> same_ids txns' txns"
proof (induction alg ws r txns arbitrary: r' txns' evs rule: promote.induct)
  case (1 alg r txns)
  then show ?case by simp
next
  case (2 alg e ws r txns)
  show ?case
  proof (cases "conflict_lock (lock_type r) (le_type e)")
    case True
    with "2.prems" show ?thesis by simp
  next
    case False
    obtain b m' where g: "lock_granted (txns (le_txn e)) = (b, m')" by (cases "lock_granted (txns (le_txn e))")
    from False "2.prems" g have "same_ids txns' (txns(le_txn e := m'))"
      by (auto simp: Let_def bind_eq_Some_conv simp del: fun_upd_apply intro: "2.IH")
    moreover have "same_ids (txns(le_txn e := m')) txns" using lock_granted_frame [OF g] by simp
    ultimately show ?thesis by (rule same_ids_trans)
  qed
qed

lemma lock_release_same_ids:
  "lock_release alg t r txns = Some (rc, r', txns', evs) \<Longrightarrow> same_ids txns' txns"
  by (auto simp: lock_release_def bind_eq_Some_conv split: if_splits dest: promote_same_ids)

section \<open>The invariant of a row's lock\<close>

definition own :: "row_lock \<Rightarrow> lock_entry list" where
  "own r = concat (owners r)"

definition owners_placed :: "txn_store \<Rightarrow> row_lock \<Rightarrow> bool" where
  "owners_placed txns r \<longleftrightarrow>
     owners_size r \<noteq> 0 \<and> length (owners r) = unat (owners_size r) \<and>
     (\<forall>i < length (owners r). \<forall>e \<in> set (owners r ! i). owner_hash r (txn_id (txns (le_txn e))) = i)"

definition locks_compat :: "row_lock \<Rightarrow> bool" where
  "locks_compat r =
     (case lock_type r of
        LOCK_NONE \<Rightarrow> own r = []
      | LOCK_SH \<Rightarrow> own r \<noteq> [] \<and> (\<forall>e \<in> set (own r). le_type e = LOCK_SH)
      | LOCK_EX \<Rightarrow> length (own r) = 1 \<and> (\<forall>e \<in> set (own r). le_type e = LOCK_EX))"

definition wait_die_order :: "txn_store \<Rightarrow> row_lock \<Rightarrow> bool" where
  "wait_die_order txns r \<longleftrightarrow>
     sorted_wrt (\<lambda>a b. timestamp (txns (le_txn b)) < timestamp (txns (le_txn a))) (waiters r) \<and>
     (\<forall>w \<in> set (waiters r). \<forall>e \<in> set (own r). timestamp (txns (le_txn w)) < timestamp (txns (le_txn e)))"

definition row_core :: "cc_alg \<Rightarrow> txn_store \<Rightarrow> row_lock \<Rightarrow> bool" where
  "row_core alg txns r \<longleftrightarrow>
     owners_placed txns r \<and> locks_compat r \<and>
     owner_cnt r = of_nat (length (own r)) \<and> waiter_cnt r = of_nat (length (waiters r)) \<and>
     length (own r) + length (waiters r) < 2 ^ 32 \<and>
     (\<forall>w \<in> set (waiters r). le_type w \<noteq> LOCK_NONE) \<and>
     (alg = WAIT_DIE \<longrightarrow> wait_die_order txns r)"

definition head_blocked :: "row_lock \<Rightarrow> bool" where
  "head_blocked r \<longleftrightarrow> (waiters r \<noteq> [] \<longrightarrow> conflict_lock (lock_type r) (le_type (hd (waiters r))))"

definition row_inv :: "cc_alg \<Rightarrow> txn_store \<Rightarrow> row_lock \<Rightarrow> bool" where
  "row_inv alg txns r \<longleftrightarrow> row_core alg txns r \<and> head_blocked r"

lemma row_core_same_ids: "same_ids txns' txns \<Longrightarrow> row_core alg txns' r = row_core alg txns r"
  by (simp add: row_core_def owners_placed_def wait_die_order_def same_ids_def)

lemma row_inv_same_ids: "same_ids txns' txns \<Longrightarrow> row_inv alg txns' r = row_inv alg txns r"
  by (simp add: row_inv_def row_core_same_ids)

lemma row_inv_init: "row_inv alg txns row_lock_init"
  by (simp add: row_inv_def row_core_def row_lock_init_def owners_placed_def locks_compat_def own_def
      head_blocked_def wait_die_order_def)

lemma owner_hash_less: "owners_placed txns r \<Longrightarrow> owner_hash r i < length (owners r)"
  by (simp add: owners_placed_def owner_hash_def unat_mod unat_gt_0)

lemma mset_own_push:
  assumes "owners_placed txns r"
  shows "mset (own (push_owner txns e r)) = add_mset e (mset (own r))"
  using mset_concat_push [OF owner_hash_less [OF assms]] by (simp add: own_def push_owner_def Let_def)

lemma set_own_push: "owners_placed txns r \<Longrightarrow> set (own (push_owner txns e r)) = insert e (set (own r))"
  by (metis mset_own_push set_mset_add_mset_insert set_mset_mset)

lemma length_own_push: "owners_placed txns r \<Longrightarrow> length (own (push_owner txns e r)) = Suc (length (own r))"
  by (metis mset_own_push size_add_mset size_mset)

lemma owner_hash_upd [simp]:
  "owner_hash (r\<lparr>owners := bs\<rparr>) = owner_hash r"
  "owner_hash (r\<lparr>owner_cnt := n\<rparr>) = owner_hash r"
  "owner_hash (r\<lparr>waiter_cnt := n\<rparr>) = owner_hash r"
  "owner_hash (r\<lparr>waiters := ws\<rparr>) = owner_hash r"
  "owner_hash (r\<lparr>lock_type := l\<rparr>) = owner_hash r"
  "owner_hash (r\<lparr>max_owner_ts := x\<rparr>) = owner_hash r"
  by (auto simp: owner_hash_def)

lemma owners_placed_bucket:
  assumes "owners_placed txns r" and "set es \<subseteq> insert e (set (owners r ! i))"
    and "i = owner_hash r (txn_id (txns (le_txn e)))"
  shows "owners_placed txns (r\<lparr>owners := (owners r)[i := es]\<rparr>)"
  unfolding owners_placed_def
proof (intro conjI allI impI ballI)
  fix j x
  assume j: "j < length (owners (r\<lparr>owners := (owners r)[i := es]\<rparr>))"
    and x: "x \<in> set (owners (r\<lparr>owners := (owners r)[i := es]\<rparr>) ! j)"
  show "owner_hash (r\<lparr>owners := (owners r)[i := es]\<rparr>) (txn_id (txns (le_txn x))) = j"
    using assms j x by (cases "j = i") (auto simp: owners_placed_def)
qed (use assms in \<open>simp_all add: owners_placed_def\<close>)

lemma owners_placed_push: "owners_placed txns r \<Longrightarrow> owners_placed txns (push_owner txns e r)"
  by (auto simp: push_owner_def Let_def intro: owners_placed_bucket [where e = e])

section \<open>Releasing preserves the invariant\<close>

lemma row_core_upd [simp]:
  "owners_placed txns (r\<lparr>lock_type := l\<rparr>) = owners_placed txns r"
  "owners_placed txns (r\<lparr>owner_cnt := n\<rparr>) = owners_placed txns r"
  "owners_placed txns (r\<lparr>waiter_cnt := n\<rparr>) = owners_placed txns r"
  "owners_placed txns (r\<lparr>waiters := ws\<rparr>) = owners_placed txns r"
  "owners_placed txns (r\<lparr>max_owner_ts := x\<rparr>) = owners_placed txns r"
  "own (r\<lparr>lock_type := l\<rparr>) = own r" "own (r\<lparr>owner_cnt := n\<rparr>) = own r"
  "own (r\<lparr>waiter_cnt := n\<rparr>) = own r" "own (r\<lparr>waiters := ws\<rparr>) = own r"
  "own (r\<lparr>max_owner_ts := x\<rparr>) = own r"
  by (simp_all add: owners_placed_def own_def)

lemma push_owner_frame [simp]:
  "lock_type (push_owner txns e r) = lock_type r" "owner_cnt (push_owner txns e r) = owner_cnt r"
  "waiter_cnt (push_owner txns e r) = waiter_cnt r" "waiters (push_owner txns e r) = waiters r"
  by (simp_all add: push_owner_def Let_def)

lemma locks_compat_upd [simp]:
  "locks_compat (r\<lparr>waiters := ws\<rparr>) = locks_compat r" "locks_compat (r\<lparr>owner_cnt := n\<rparr>) = locks_compat r"
  "locks_compat (r\<lparr>waiter_cnt := n\<rparr>) = locks_compat r" "locks_compat (r\<lparr>max_owner_ts := x\<rparr>) = locks_compat r"
  by (cases "lock_type r"; simp add: locks_compat_def)+

lemma admit_waiter_simps:
  assumes "owners_placed txns r" and "alg \<noteq> NO_WAIT"
  shows "owners_placed txns (admit_waiter alg e txns r)"
    "mset (own (admit_waiter alg e txns r)) = add_mset e (mset (own r))"
    "set (own (admit_waiter alg e txns r)) = insert e (set (own r))"
    "length (own (admit_waiter alg e txns r)) = Suc (length (own r))"
    "lock_type (admit_waiter alg e txns r) = le_type e"
    "owner_cnt (admit_waiter alg e txns r) = owner_cnt r + 1"
    "waiter_cnt (admit_waiter alg e txns r) = waiter_cnt r - 1"
  using assms
  by (auto simp: admit_waiter_def Let_def bump_max_owner_ts_def mset_own_push set_own_push
      length_own_push owners_placed_push)

lemma compat_join:
  assumes "locks_compat r" and "\<not> conflict_lock (lock_type r) l" and "l \<noteq> LOCK_NONE"
    and "lock_type r' = l" and "mset (own r') = add_mset e (mset (own r))" and "le_type e = l"
  shows "locks_compat r'"
proof -
  have "set (own r') = insert e (set (own r))" and "length (own r') = Suc (length (own r))"
    using assms(5) by (metis set_mset_add_mset_insert set_mset_mset, metis size_add_mset size_mset)
  with assms show ?thesis
    by (cases l; cases "lock_type r") (auto simp: locks_compat_def conflict_lock_iff)
qed


lemma admit_waiter_core:
  assumes core: "row_core alg txns (r\<lparr>waiters := e # ws\<rparr>)" and alg: "alg \<noteq> NO_WAIT"
    and free: "\<not> conflict_lock (lock_type r) (le_type e)"
  shows "row_core alg txns ((admit_waiter alg e txns r)\<lparr>waiters := ws\<rparr>)"
proof -
  have placed: "owners_placed txns r" and compat: "locks_compat r" and e: "le_type e \<noteq> LOCK_NONE"
    using core by (auto simp: row_core_def)
  note adm = admit_waiter_simps [OF placed alg]
  have "locks_compat (admit_waiter alg e txns r)"
    using compat free e by (rule compat_join) (simp_all add: adm)
  with core show ?thesis
    by (auto simp: row_core_def adm wait_die_order_def admit_waiter_simps [OF placed])
qed

lemma promote_core:
  assumes "promote alg ws r txns = Some (r', txns', evs)" and "alg \<noteq> NO_WAIT"
    and "row_core alg txns (r\<lparr>waiters := ws\<rparr>)"
  shows "row_core alg txns r' \<and> head_blocked r'"
  using assms
proof (induction alg ws r txns arbitrary: r' txns' evs rule: promote.induct)
  case (1 alg r txns)
  then show ?case by (auto simp: head_blocked_def)
next
  case (2 alg e ws r txns)
  show ?case
  proof (cases "conflict_lock (lock_type r) (le_type e)")
    case True
    with "2.prems" show ?thesis by (auto simp: head_blocked_def)
  next
    case False
    obtain b m' where g: "lock_granted (txns (le_txn e)) = (b, m')"
      by (cases "lock_granted (txns (le_txn e))")
    let ?txns = "txns(le_txn e := m')"
    have same: "same_ids ?txns txns" using lock_granted_frame [OF g] by simp
    have "row_core alg ?txns ((admit_waiter alg e txns r)\<lparr>waiters := ws\<rparr>)"
      using admit_waiter_core [OF "2.prems"(3) "2.prems"(2) False] row_core_same_ids [OF same] by blast
    moreover obtain txns'' evs' where
      "promote alg ws (admit_waiter alg e txns r) ?txns = Some (r', txns'', evs')"
      using "2.prems"(1) False g
      by (auto simp: Let_def bind_eq_Some_conv simp del: fun_upd_apply split: if_splits)
    ultimately have "row_core alg ?txns r' \<and> head_blocked r'"
      using "2.IH" [OF False refl _ g [symmetric]] "2.prems"(1,2) False
      by (auto simp: Let_def simp del: fun_upd_apply)
    then show ?thesis using row_core_same_ids [OF same] by blast
  qed
qed

lemma unlink_owner_Some:
  "unlink_owner t es = Some es' \<Longrightarrow> \<exists>e. le_txn e = t \<and> mset es = add_mset e (mset es')"
proof (induction es arbitrary: es')
  case Nil
  then show ?case by simp
next
  case (Cons a es)
  then show ?case by (cases "le_txn a = t") (fastforce simp: add_mset_commute)+
qed

lemma unlink_owner_exists: "e \<in> set es \<Longrightarrow> \<exists>es'. unlink_owner (le_txn e) es = Some es'"
  by (induction es) auto


lemma of_nat_length_0 [simp]:
  "length xs < 2 ^ 32 \<Longrightarrow> (of_nat (length xs) :: u32) = 0 \<longleftrightarrow> xs = []"
  using of_nat_word_eq_0 [where 'a = 32, of "length xs"] by simp

lemma release_owner_core:
  assumes core: "row_core alg txns r" and alg: "alg \<noteq> NO_WAIT"
    and rel: "release_owner alg t r txns = Some r'"
  obtains e where "le_txn e = t" "mset (own r) = add_mset e (mset (own r'))"
    "row_core alg txns r'" "waiters r' = waiters r"
    "lock_type r' = (if own r' = [] then LOCK_NONE else lock_type r)"
proof -
  let ?i = "owner_hash r (txn_id (txns t))"
  have placed: "owners_placed txns r" using core by (simp add: row_core_def)
  obtain es where un: "unlink_owner t (owners r ! ?i) = Some es"
    and r': "r' = (let r1 = r\<lparr>owners := (owners r)[?i := es], owner_cnt := owner_cnt r - 1\<rparr>
                   in if owner_cnt r1 = 0 then r1\<lparr>lock_type := LOCK_NONE\<rparr> else r1)"
    using rel alg by (auto simp: release_owner_def Let_def bind_eq_Some_conv)
  from unlink_owner_Some [OF un] obtain e where e: "le_txn e = t"
    and ms: "mset (owners r ! ?i) = add_mset e (mset es)" by blast
  have own': "own r' = concat ((owners r)[?i := es])"
    by (simp add: r' Let_def own_def)
  have mset: "mset (own r) = add_mset e (mset (own r'))"
    using mset_concat_update [OF owner_hash_less [OF placed], of "txn_id (txns t)" es]
    by (simp add: own' own_def [of r] ms)
  then have len: "length (own r) = Suc (length (own r'))" and sub: "set (own r') \<subseteq> set (own r)"
    by (metis size_add_mset size_mset, metis set_mset_add_mset_insert set_mset_mset subset_insertI)
  have bound: "length (own r') < 2 ^ 32" using core len by (simp add: row_core_def)
  have cnt: "owner_cnt r - 1 = of_nat (length (own r'))"
    using core len by (simp add: row_core_def)
  have zero: "owner_cnt r - 1 = 0 \<longleftrightarrow> own r' = []"
    unfolding cnt using bound by (rule of_nat_length_0)
  have lt: "lock_type r' = (if own r' = [] then LOCK_NONE else lock_type r)"
    using zero by (simp add: r' Let_def)
  have "locks_compat r'"
    using core len sub by (cases "lock_type r") (auto simp: row_core_def locks_compat_def lt)
  moreover have "set es \<subseteq> insert e (set (owners r ! ?i))"
    by (metis ms set_mset_add_mset_insert set_mset_mset subset_insertI insert_absorb2)
  with placed e have "owners_placed txns (r\<lparr>owners := (owners r)[?i := es]\<rparr>)"
    by (intro owners_placed_bucket) auto
  then have "owners_placed txns r'" by (simp add: r' Let_def)
  moreover have frame: "waiters r' = waiters r" "waiter_cnt r' = waiter_cnt r"
    "owner_cnt r' = owner_cnt r - 1"
    by (simp_all add: r' Let_def)
  ultimately have "row_core alg txns r'"
    using core len sub by (auto simp: row_core_def wait_die_order_def frame)
  with e mset lt frame(1) that show thesis by blast
qed

lemma lock_release_inv:
  assumes "row_inv alg txns r" and "alg \<noteq> NO_WAIT"
    and "lock_release alg t r txns = Some (rc, r', txns', evs)"
  shows "row_inv alg txns' r'"
proof (cases "alg = CALVIN \<and> recon (txns t)")
  case True
  with assms show ?thesis by (simp add: lock_release_def)
next
  case False
  with assms(3) obtain r1 where
    rel: "release_owner alg t r txns = Some r1" and
    pro: "promote alg (waiters r1) r1 txns = Some (r', txns', evs)"
    by (auto simp: lock_release_def bind_eq_Some_conv)
  have "row_core alg txns r1"
    using assms(1,2) rel by (metis release_owner_core row_inv_def)
  then have "row_core alg txns r' \<and> head_blocked r'"
    using promote_core [OF pro assms(2)] by simp
  then show ?thesis
    using row_core_same_ids [OF promote_same_ids [OF pro]] by (simp add: row_inv_def)
qed

section \<open>Acquiring preserves the invariant\<close>

lemma can_wait_True:
  "can_wait m txns es = Some True \<Longrightarrow> e \<in> set es \<Longrightarrow> timestamp m < timestamp (txns (le_txn e))"
  by (induction m txns es rule: can_wait.induct) (auto split: if_splits)

lemma insert_waiter_sorted:
  assumes "sorted_wrt (\<lambda>a b. timestamp (txns (le_txn b)) < timestamp (txns (le_txn a))) ws"
    and "\<forall>w \<in> set ws. timestamp (txns (le_txn w)) \<noteq> timestamp (txns (le_txn e))"
  shows "sorted_wrt (\<lambda>a b. timestamp (txns (le_txn b)) < timestamp (txns (le_txn a)))
           (insert_waiter txns (timestamp (txns (le_txn e))) e ws)"
  using assms
proof (induction ws)
  case Nil
  then show ?case by (simp add: insert_waiter_def)
next
  case (Cons w ws)
  show ?case
  proof (cases "timestamp (txns (le_txn e)) < timestamp (txns (le_txn w))")
    case True
    with Cons show ?thesis
      by (auto simp: insert_waiter_def Let_def dest: set_takeWhileD set_dropWhileD)
  next
    case False
    have "timestamp (txns (le_txn w)) \<noteq> timestamp (txns (le_txn e))" using Cons.prems(2) by simp
    with False have w: "timestamp (txns (le_txn w)) < timestamp (txns (le_txn e))"
      by (metis linorder_neqE)
    have "timestamp (txns (le_txn x)) < timestamp (txns (le_txn e))" if "x \<in> set ws" for x
      using that Cons.prems by (auto intro: less_trans [OF _ w])
    with False w Cons.prems show ?thesis by (simp add: insert_waiter_def)
  qed
qed

lemma mset_insert_waiter: "mset (insert_waiter txns ts e ws) = add_mset e (mset ws)"
proof -
  let ?P = "\<lambda>en. ts < timestamp (txns (le_txn en))"
  have "mset ws = mset (takeWhile ?P ws) + mset (dropWhile ?P ws)"
    by (metis mset_append takeWhile_dropWhile_id)
  then show ?thesis by (simp add: insert_waiter_def Let_def)
qed

lemma set_insert_waiter: "set (insert_waiter txns ts e ws) = insert e (set ws)"
  by (metis mset_insert_waiter set_mset_add_mset_insert set_mset_mset)

lemma length_insert_waiter: "length (insert_waiter txns ts e ws) = Suc (length ws)"
  by (metis mset_insert_waiter size_add_mset size_mset)

lemma insert_waiter_hd:
  "hd (insert_waiter txns ts e ws) = (case ws of [] \<Rightarrow> e | w # _ \<Rightarrow>
     if ts < timestamp (txns (le_txn w)) then w else e)"
  by (simp add: insert_waiter_def Let_def split: list.split)

lemma get_grant_core:
  assumes inv: "row_inv alg txns r" and alg: "alg \<noteq> NO_WAIT" and ty: "le_type e \<noteq> LOCK_NONE"
    and cap: "Suc (length (own r) + length (waiters r)) < 2 ^ 32"
    and fresh: "\<forall>w \<in> set (waiters r). timestamp (txns (le_txn w)) \<noteq> timestamp (txns (le_txn e))"
    and free: "\<not> get_conflict alg (le_type e) (timestamp (txns (le_txn e))) r txns"
    and r': "r' = (bump_max_owner_ts ts (push_owner txns e r))
                    \<lparr>owner_cnt := owner_cnt (push_owner txns e r) + 1, lock_type := le_type e\<rparr>"
  shows "row_inv alg txns r'" "mset (own r') = add_mset e (mset (own r))" "waiters r' = waiters r"
proof -
  have placed: "owners_placed txns r" using inv by (simp add: row_inv_def row_core_def)
  have nc: "\<not> conflict_lock (lock_type r) (le_type e)"
    using free by (auto simp: get_conflict_def Let_def split: if_splits)
  have own': "own r' = own (push_owner txns e r)" and w': "waiters r' = waiters r"
    and f: "waiter_cnt r' = waiter_cnt r" "owner_cnt r' = owner_cnt r + 1" "lock_type r' = le_type e"
    by (simp_all add: r' own_def bump_max_owner_ts_def push_owner_frame)
  show ms: "mset (own r') = add_mset e (mset (own r))"
    by (simp add: own' mset_own_push [OF placed])
  then have len: "length (own r') = Suc (length (own r))" and st: "set (own r') = insert e (set (own r))"
    by (metis size_add_mset size_mset, metis set_mset_add_mset_insert set_mset_mset)
  have "owners_placed txns r'"
    using owners_placed_push [OF placed, of e] by (simp add: r' bump_max_owner_ts_def)
  moreover have "locks_compat r'"
    using inv nc ty by (intro compat_join [of r "le_type e" r']) (simp_all add: f ms row_inv_def row_core_def)
  moreover have "wait_die_order txns r'" if wd: "alg = WAIT_DIE"
  proof (cases "waiters r")
    case (Cons w ws)
    have order: "wait_die_order txns r"
      using inv wd by (simp add: row_inv_def row_core_def)
    have w: "timestamp (txns (le_txn w)) < timestamp (txns (le_txn e))"
      using free fresh nc wd Cons by (auto simp: get_conflict_def not_less_iff_gr_or_eq)
    have "timestamp (txns (le_txn x)) < timestamp (txns (le_txn e))" if "x \<in> set ws" for x
      using that order by (auto simp: wait_die_order_def Cons intro: less_trans [OF _ w])
    with w order show ?thesis by (auto simp: wait_die_order_def w' st Cons)
  qed (simp add: wait_die_order_def w')
  moreover have "head_blocked r'"
    using inv nc ty by (auto simp: head_blocked_def row_inv_def w' f conflict_lock_iff) 
  ultimately show "row_inv alg txns r'"
    using inv cap by (simp add: row_inv_def row_core_def len w' f)
  show "waiters r' = waiters r" by (rule w')
qed

lemma get_wait_core:
  assumes inv: "row_inv alg txns r" and ty: "le_type e \<noteq> LOCK_NONE"
    and cap: "Suc (length (own r) + length (waiters r)) < 2 ^ 32"
    and conf: "get_conflict alg (le_type e) (timestamp (txns (le_txn e))) r txns"
    and r': "r' = r\<lparr>waiters := ws, waiter_cnt := waiter_cnt r + 1\<rparr>"
    and ws: "alg = WAIT_DIE \<and> ws = insert_waiter txns (timestamp (txns (le_txn e))) e (waiters r)
               \<and> can_wait (txns (le_txn e)) txns (own r) = Some True
               \<and> (\<forall>w \<in> set (waiters r). timestamp (txns (le_txn w)) \<noteq> timestamp (txns (le_txn e)))
             \<or> alg = CALVIN \<and> ws = waiters r @ [e]"
  shows "row_inv alg txns r'" "own r' = own r" "mset (waiters r') = add_mset e (mset (waiters r))"
proof -
  have own': "own r' = own r" by (simp add: r' own_def)
  show ms: "mset (waiters r') = add_mset e (mset (waiters r))"
    using ws by (auto simp: r' mset_insert_waiter)
  then have len: "length (waiters r') = Suc (length (waiters r))"
    and st: "set (waiters r') = insert e (set (waiters r))"
    by (metis size_add_mset size_mset, metis set_mset_add_mset_insert set_mset_mset)
  have "wait_die_order txns r'" if "alg = WAIT_DIE"
    using that ws inv by (auto simp: wait_die_order_def row_inv_def row_core_def own' st r'
        set_insert_waiter intro!: insert_waiter_sorted dest: can_wait_True)
  moreover have "head_blocked r'"
  proof (cases "waiters r")
    case Nil
    with conf ws show ?thesis
      by (auto simp: head_blocked_def r' get_conflict_def insert_waiter_def split: if_splits)
  next
    case (Cons w ws')
    with conf ws inv show ?thesis
      by (auto simp: head_blocked_def r' get_conflict_def insert_waiter_hd row_inv_def
          split: if_splits)
  qed
  moreover have "owners_placed txns r'" "locks_compat r'" "lock_type r' = lock_type r"
    "owner_cnt r' = owner_cnt r" "waiter_cnt r' = waiter_cnt r + 1"
    using inv by (simp_all add: r' row_inv_def row_core_def)
  ultimately show "row_inv alg txns r'"
    using inv ty cap by (simp add: row_inv_def row_core_def own' len st)
  show "own r' = own r" by (rule own')
qed

text \<open>The branches of a request under the two waiting algorithms.\<close>

definition mark_wait :: "u64 \<Rightarrow> txn_man \<Rightarrow> txn_man" where
  "mark_wait now m = (let m = start_waiting m
                      in if twopl_wait_start m = 0 then m\<lparr>twopl_wait_start := now\<rparr> else m)"

lemma mark_wait_frame [simp]:
  "lock_ready (mark_wait now m) = lock_ready (start_waiting m)"
  "lock_ready_cnt (mark_wait now m) = lock_ready_cnt (start_waiting m)"
  by (simp_all add: mark_wait_def Let_def)

lemma lock_get_free:
  "alg = WAIT_DIE \<or> alg = CALVIN \<Longrightarrow> \<not> get_conflict alg ty (timestamp (txns t)) r txns \<Longrightarrow>
   lock_get alg now ty t r txns =
     (if owner_cnt r > 0 \<and> ty \<noteq> LOCK_SH then None
      else Some (RCOK, (bump_max_owner_ts (timestamp (txns t)) (push_owner txns \<lparr>le_type = ty, le_txn = t\<rparr> r))
              \<lparr>owner_cnt := owner_cnt r + 1, lock_type := ty\<rparr>, txns))"
  by (auto simp: lock_get_def Let_def bump_max_owner_ts_def)

lemma lock_get_WAIT_DIE:
  assumes "get_conflict WAIT_DIE ty (timestamp (txns t)) r txns"
  shows "lock_get WAIT_DIE now ty t r txns =
     (case can_wait (txns t) txns (own r) of None \<Rightarrow> None | Some False \<Rightarrow> Some (Abort, r, txns)
      | Some True \<Rightarrow> Some (WAIT,
          r\<lparr>waiters := insert_waiter txns (timestamp (txns t)) \<lparr>le_type = ty, le_txn = t\<rparr> (waiters r),
            waiter_cnt := waiter_cnt r + 1\<rparr>, txns(t := mark_wait now (txns t))))"
  using assms by (simp add: lock_get_def own_def mark_wait_def Let_def split: option.split bool.split)

lemma lock_get_CALVIN:
  assumes "get_conflict CALVIN ty (timestamp (txns t)) r txns"
  shows "lock_get CALVIN now ty t r txns =
     Some (WAIT, r\<lparr>waiters := waiters r @ [\<lparr>le_type = ty, le_txn = t\<rparr>],
            waiter_cnt := waiter_cnt r + 1\<rparr>, txns(t := mark_wait now (txns t)))"
  using assms by (simp add: lock_get_def mark_wait_def Let_def)

lemma lock_get_alg:
  "lock_get alg now ty t r txns = Some res \<Longrightarrow> alg \<noteq> NO_WAIT \<Longrightarrow> alg = WAIT_DIE \<or> alg = CALVIN"
  by (simp add: lock_get_def bind_ASSERT_eq_Some)

text \<open>What a request does to the owners and the waiters, on each of its three outcomes.\<close>

lemma lock_get_cases:
  assumes inv: "row_inv alg txns r" and alg: "alg \<noteq> NO_WAIT" and ty: "ty \<noteq> LOCK_NONE"
    and cap: "Suc (length (own r) + length (waiters r)) < 2 ^ 32"
    and fresh: "\<forall>w \<in> set (waiters r). timestamp (txns (le_txn w)) \<noteq> timestamp (txns t)"
    and get: "lock_get alg now ty t r txns = Some (rc, r', txns')"
  obtains (granted) "rc = RCOK" "row_inv alg txns r'" "waiters r' = waiters r" "txns' = txns"
      "mset (own r') = add_mset \<lparr>le_type = ty, le_txn = t\<rparr> (mset (own r))"
      "\<not> get_conflict alg ty (timestamp (txns t)) r txns"
  | (queued) "rc = WAIT" "row_inv alg txns r'" "own r' = own r"
      "mset (waiters r') = add_mset \<lparr>le_type = ty, le_txn = t\<rparr> (mset (waiters r))"
      "txns' = txns(t := mark_wait now (txns t))"
      "get_conflict alg ty (timestamp (txns t)) r txns"
  | (refused) "rc = Abort" "r' = r" "txns' = txns" "alg = WAIT_DIE"
      "can_wait (txns t) txns (own r) = Some False"
proof -
  let ?e = "\<lparr>le_type = ty, le_txn = t\<rparr>"
  note ALG = lock_get_alg [OF get alg]
  show thesis
  proof (cases "get_conflict alg ty (timestamp (txns t)) r txns")
    case False
    with get have rc: "rc = RCOK" "txns' = txns"
      and r': "r' = (bump_max_owner_ts (timestamp (txns t)) (push_owner txns ?e r))
              \<lparr>owner_cnt := owner_cnt (push_owner txns ?e r) + 1, lock_type := ty\<rparr>"
      by (auto simp: lock_get_free [OF ALG] split: if_splits)
    have prems: "le_type ?e \<noteq> LOCK_NONE"
      "\<forall>w \<in> set (waiters r). timestamp (txns (le_txn w)) \<noteq> timestamp (txns (le_txn ?e))"
      "\<not> get_conflict alg (le_type ?e) (timestamp (txns (le_txn ?e))) r txns"
      using ty fresh False by simp_all
    note core = get_grant_core [OF inv alg prems(1) cap prems(2,3), unfolded lock_entry.simps, OF r']
    show ?thesis by (rule granted) (fact rc core False)+
  next
    case conf: True
    define ws where "ws = (if alg = WAIT_DIE then insert_waiter txns (timestamp (txns t)) ?e (waiters r)
                           else waiters r @ [?e])"
    have wait: thesis if "rc = WAIT" and r': "r' = r\<lparr>waiters := ws, waiter_cnt := waiter_cnt r + 1\<rparr>"
      and "txns' = txns(t := mark_wait now (txns t))"
      and cw: "alg = WAIT_DIE \<longrightarrow> can_wait (txns t) txns (own r) = Some True"
    proof -
      have "alg = WAIT_DIE \<and> ws = insert_waiter txns (timestamp (txns (le_txn ?e))) ?e (waiters r)
               \<and> can_wait (txns (le_txn ?e)) txns (own r) = Some True
               \<and> (\<forall>w \<in> set (waiters r). timestamp (txns (le_txn w)) \<noteq> timestamp (txns (le_txn ?e)))
             \<or> alg = CALVIN \<and> ws = waiters r @ [?e]"
        using ALG cw fresh by (elim disjE) (simp_all add: ws_def)
      note core = get_wait_core [OF inv _ cap _ r' this, unfolded lock_entry.simps, OF ty conf]
      show thesis by (rule queued) (fact that(1,3) core conf)+
    qed
    from ALG show ?thesis
    proof
      assume wd: "alg = WAIT_DIE"
      with get conf obtain b where b: "can_wait (txns t) txns (own r) = Some b"
        by (cases "can_wait (txns t) txns (own r)") (simp_all add: lock_get_WAIT_DIE)
      note eq = get [unfolded wd lock_get_WAIT_DIE [OF conf [unfolded wd]] b]
      show ?thesis
      proof (cases b)
        case True
        with eq wd have "rc = WAIT" "txns' = txns(t := mark_wait now (txns t))"
          "r' = r\<lparr>waiters := ws, waiter_cnt := waiter_cnt r + 1\<rparr>" by (auto simp: ws_def)
        moreover from True b have "can_wait (txns t) txns (own r) = Some True" by simp
        ultimately show ?thesis using wait by blast
      next
        case False
        with eq have "rc = Abort" "r' = r" "txns' = txns" by auto
        moreover from False b have "can_wait (txns t) txns (own r) = Some False" by simp
        ultimately show ?thesis using wd refused by blast
      qed
    next
      assume ca: "alg = CALVIN"
      note eq = get [unfolded ca lock_get_CALVIN [OF conf [unfolded ca]]]
      with ca have "rc = WAIT" "txns' = txns(t := mark_wait now (txns t))"
        "r' = r\<lparr>waiters := ws, waiter_cnt := waiter_cnt r + 1\<rparr>" by (auto simp: ws_def)
      with ca wait show ?thesis by blast
    qed
  qed
qed

lemma lock_get_inv:
  assumes "row_inv alg txns r" "alg \<noteq> NO_WAIT" "ty \<noteq> LOCK_NONE"
    and "Suc (length (own r) + length (waiters r)) < 2 ^ 32"
    and "\<forall>w \<in> set (waiters r). timestamp (txns (le_txn w)) \<noteq> timestamp (txns t)"
    and "lock_get alg now ty t r txns = Some (rc, r', txns')"
  shows "row_inv alg txns' r'"
proof -
  have "row_inv alg txns r'" using assms(1) by (cases rule: lock_get_cases [OF assms]) auto
  then show ?thesis using row_inv_same_ids lock_get_same_ids [OF assms(6)] by blast
qed

section \<open>The assertions hold\<close>

lemma can_wait_total:
  "\<forall>e \<in> set es. txn_id m \<noteq> txn_id (txns (le_txn e)) \<and> timestamp m \<noteq> timestamp (txns (le_txn e))
   \<Longrightarrow> can_wait m txns es \<noteq> None"
  by (induction m txns es rule: can_wait.induct) auto

lemma lock_get_total:
  assumes inv: "row_inv alg txns r" and alg: "alg = WAIT_DIE \<or> alg = CALVIN"
    and ty: "ty \<noteq> LOCK_NONE"
    and fresh: "\<forall>e \<in> set (own r). txn_id (txns (le_txn e)) \<noteq> txn_id (txns t) \<and>
                  timestamp (txns (le_txn e)) \<noteq> timestamp (txns t)"
  shows "lock_get alg now ty t r txns \<noteq> None"
proof (cases "get_conflict alg ty (timestamp (txns t)) r txns")
  case True
  have "can_wait (txns t) txns (own r) \<noteq> None" using fresh by (intro can_wait_total) metis
  with True alg show ?thesis
    by (auto simp: lock_get_WAIT_DIE lock_get_CALVIN split: option.splits bool.splits)
next
  case False
  have nc: "\<not> conflict_lock (lock_type r) ty"
    using False by (auto simp: get_conflict_def Let_def split: if_splits)
  have "ty = LOCK_SH" if pos: "owner_cnt r > 0"
  proof -
    have "own r \<noteq> []" using inv pos by (auto simp: row_inv_def row_core_def)
    then have "lock_type r \<noteq> LOCK_NONE" using inv by (auto simp: row_inv_def row_core_def locks_compat_def)
    with nc ty show ?thesis by (cases ty) (auto simp: conflict_lock_iff)
  qed
  then show ?thesis by (auto simp: lock_get_free [OF alg False])
qed

lemma promote_total:
  "\<forall>w \<in> set ws. lock_ready (txns (le_txn w)) = 0 \<Longrightarrow> distinct (map le_txn ws) \<Longrightarrow>
   promote alg ws r txns \<noteq> None"
proof (induction ws arbitrary: r txns)
  case (Cons w ws)
  obtain b m' where g: "lock_granted (txns (le_txn w)) = (b, m')" by (cases "lock_granted (txns (le_txn w))")
  have "promote alg ws (admit_waiter alg w txns r) (txns(le_txn w := m')) \<noteq> None"
    using Cons.prems by (intro Cons.IH) (auto simp: image_iff)
  then show ?case using Cons.prems g by (auto split: option.splits simp: Let_def)
qed simp

lemma release_owner_total:
  assumes "owners_placed txns r" and "e \<in> set (own r)" and "alg \<noteq> NO_WAIT"
  shows "release_owner alg (le_txn e) r txns \<noteq> None"
proof -
  from assms(2) obtain es where "es \<in> set (owners r)" "e \<in> set es" by (auto simp: own_def)
  then obtain i where i: "i < length (owners r)" "e \<in> set (owners r ! i)"
    by (auto simp: in_set_conv_nth [of es])
  with assms(1) have "owner_hash r (txn_id (txns (le_txn e))) = i" by (auto simp: owners_placed_def)
  with i unlink_owner_exists [OF i(2)] assms(3) show ?thesis by (auto simp: release_owner_def)
qed

lemma lock_release_total:
  assumes inv: "row_inv alg txns r" and alg: "alg \<noteq> NO_WAIT" and e: "e \<in> set (own r)"
    and ready: "\<forall>w \<in> set (waiters r). lock_ready (txns (le_txn w)) = 0"
    and dist: "distinct (map le_txn (waiters r))"
  shows "lock_release alg (le_txn e) r txns \<noteq> None"
proof -
  have core: "row_core alg txns r" using inv by (simp add: row_inv_def)
  then have "release_owner alg (le_txn e) r txns \<noteq> None"
    using e alg by (intro release_owner_total) (simp_all add: row_core_def)
  then obtain r1 where rel: "release_owner alg (le_txn e) r txns = Some r1" by blast
  from release_owner_core [OF core alg rel] obtain "row_core alg txns r1" "waiters r1 = waiters r"
    "lock_type r1 = (if own r1 = [] then LOCK_NONE else lock_type r)" by metis
  moreover have "promote alg (waiters r) r1 txns \<noteq> None" using ready dist by (rule promote_total)
  moreover have "own r1 = []" if "owner_cnt r1 = 0"
    using calculation(1) that of_nat_length_0 [of "own r1"] by (auto simp: row_core_def)
  ultimately show ?thesis by (auto simp: lock_release_def rel)
qed

section \<open>What a release hands over\<close>

definition restarts :: "txn_store \<Rightarrow> lock_entry list \<Rightarrow> (txnid_t \<times> u64) list" where
  "restarts txns es =
     map (\<lambda>e. (txn_id (txns (le_txn e)), batch_id (txns (le_txn e))))
       (filter (\<lambda>e. fst (lock_granted (txns (le_txn e)))) es)"

definition grant_all :: "lock_entry list \<Rightarrow> txn_store \<Rightarrow> txn_store" where
  "grant_all es txns = (\<lambda>t. if t \<in> le_txn ` set es then snd (lock_granted (txns t)) else txns t)"

lemma promote_split:
  "promote alg ws r txns = Some (r', txns', evs) \<Longrightarrow> alg \<noteq> NO_WAIT \<Longrightarrow> owners_placed txns r \<Longrightarrow>
   distinct (map le_txn ws) \<Longrightarrow>
   \<exists>ns. ws = ns @ waiters r' \<and> mset (own r') = mset (own r) + mset ns \<and>
     txns' = grant_all ns txns \<and> evs = restarts txns ns"
proof (induction alg ws r txns arbitrary: evs rule: promote.induct)
  case (1 alg r txns)
  then show ?case by (auto simp: own_def grant_all_def restarts_def)
next
  case (2 alg e ws r txns)
  show ?case
  proof (cases "conflict_lock (lock_type r) (le_type e)")
    case True
    with "2.prems" show ?thesis by (intro exI [of _ "[]"]) (auto simp: own_def grant_all_def restarts_def)
  next
    case False
    obtain b m' where g: "lock_granted (txns (le_txn e)) = (b, m')" by (cases "lock_granted (txns (le_txn e))")
    let ?txns = "txns(le_txn e := m')"
    from False "2.prems"(1) g obtain evs1 where
      pro: "promote alg ws (admit_waiter alg e txns r) ?txns = Some (r', txns', evs1)" and
      evs: "evs = (if b then [(txn_id (txns (le_txn e)), batch_id (txns (le_txn e)))] else []) @ evs1"
      and ready: "ASSERT (lock_ready (txns (le_txn e)) = 0) = Some ()"
      by (auto simp: Let_def bind_eq_Some_conv)
    have same: "same_ids ?txns txns" using lock_granted_frame [OF g] by simp
    have "owners_placed txns (admit_waiter alg e txns r)"
      using "2.prems"(2,3) by (simp add: admit_waiter_simps)
    then have placed: "owners_placed ?txns (admit_waiter alg e txns r)"
      using same by (simp add: owners_placed_def same_ids_def)
    have "distinct (map le_txn ws)" using "2.prems"(4) by simp
    from "2.IH" [OF False refl ready refl g [symmetric] pro "2.prems"(2) placed this]
    obtain ns where ns: "ws = ns @ waiters r'" "mset (own r') = mset (own (admit_waiter alg e txns r)) + mset ns"
      "txns' = grant_all ns ?txns" "evs1 = restarts ?txns ns" by blast
    have "le_txn e \<notin> le_txn ` set ws" using "2.prems"(4) by simp
    then have fresh: "\<forall>x \<in> set ns. le_txn x \<noteq> le_txn e" unfolding ns(1) by (metis UnCI image_eqI set_append)
    have "grant_all (e # ns) txns = grant_all ns ?txns"
      using fresh g by (auto simp: grant_all_def fun_eq_iff)
    moreover have "restarts ?txns ns = restarts txns ns"
      unfolding restarts_def using fresh by (intro map_cong filter_cong) auto
    ultimately show ?thesis
      using ns "2.prems"(2,3) g evs
      by (intro exI [of _ "e # ns"]) (simp add: admit_waiter_simps restarts_def)
  qed
qed

lemma lock_release_split:
  assumes inv: "row_inv alg txns r" and alg: "alg \<noteq> NO_WAIT"
    and dist: "distinct (map le_txn (waiters r))" and noskip: "\<not> (alg = CALVIN \<and> recon (txns t))"
    and rel: "lock_release alg t r txns = Some (rc, r', txns', evs)"
  obtains e ns where "le_txn e = t" "e \<in> set (own r)" "waiters r = ns @ waiters r'"
    "add_mset e (mset (own r')) = mset (own r) + mset ns"
    "txns' = grant_all ns txns" "evs = restarts txns ns" "rc = RCOK" "row_inv alg txns r'"
proof -
  from rel noskip obtain r1 where rel: "release_owner alg t r txns = Some r1" and
    pro: "promote alg (waiters r1) r1 txns = Some (r', txns', evs)" and rc: "rc = RCOK"
    by (auto simp: lock_release_def bind_eq_Some_conv split: if_splits)
  have core: "row_core alg txns r" using inv by (simp add: row_inv_def)
  from release_owner_core [OF core alg rel] obtain e where e: "le_txn e = t"
    "mset (own r) = add_mset e (mset (own r1))" "row_core alg txns r1" "waiters r1 = waiters r" by metis
  have "owners_placed txns r1" using e(3) by (simp add: row_core_def)
  from promote_split [OF pro alg this] dist e(4) obtain ns where
    ns: "waiters r = ns @ waiters r'" "mset (own r') = mset (own r1) + mset ns"
    "txns' = grant_all ns txns" "evs = restarts txns ns" by auto
  have "row_inv alg txns' r'" using lock_release_inv [OF inv alg assms(5)] .
  then have "row_inv alg txns r'" using row_inv_same_ids lock_release_same_ids [OF assms(5)] by blast
  moreover have "e \<in> set (own r)" using e(2) by (metis set_mset_mset insertI1 set_mset_add_mset_insert)
  ultimately show thesis using that e ns rc by auto
qed

end
