(* ===== verification/Lock_System.thy ===== *)
theory Lock_System
  imports Row_Lock
begin

text \<open>
  Many transactions locking many rows through the lock manager of \<open>Row_Lock\<close>. A step is one
  call of \<^verbatim>\<open>lock_get\<close> or \<^verbatim>\<open>lock_release\<close> on one row, as \<^verbatim>\<open>row_t::get_row\<close>,
  \<^verbatim>\<open>row_t::get_lock\<close> and \<^verbatim>\<open>row_t::return_row\<close> make it under the row's latch. A transaction
  asks for a row it neither owns nor waits for (the code asserts this for WAIT_DIE, and
  \<^verbatim>\<open>calvin_locked_rows\<close> ensures it for CALVIN), under WAIT_DIE a waiting transaction makes no further request, and a transaction releases once it
  waits nowhere. Under CALVIN the requests come from \<^verbatim>\<open>acquire_locks\<close> of the benchmarks, which
  holds one more count of \<^verbatim>\<open>lock_ready_cnt\<close> from its first to its last line; its beginning and
  its end are steps of their own, so that releases of other threads can fall in between. The
  theory shows that every reachable state keeps the row invariants and the \<^verbatim>\<open>lock_ready\<close>
  counters exact, that no assertion of the lock manager fails, that WAIT_DIE never deadlocks,
  which transactions a release restarts and which ones \<^verbatim>\<open>acquire_locks\<close> reports as ready.
\<close>

section \<open>Transactions locking many rows\<close>

record lk_sys =
  lk_rows :: "row_lock list"
  lk_txns :: txn_store
  lk_acq :: "txn_ptr \<rightharpoonup> RC"

text \<open>\<^verbatim>\<open>lk_acq\<close> holds the transactions inside \<^verbatim>\<open>acquire_locks\<close>, with the local \<^verbatim>\<open>rc\<close> of the call. Its
  first lines take the extra count, a request that does not return RCOK sets \<^verbatim>\<open>rc\<close>, and its last
  lines drop the count and claim \<^verbatim>\<open>lock_ready\<close> when no lock is outstanding.\<close>

definition acquire_begin :: "txn_man \<Rightarrow> txn_man" where
  "acquire_begin m = snd (incr_lr m)"

definition acquire_rc :: "RC \<Rightarrow> RC \<Rightarrow> RC" where
  "acquire_rc rc rc2 = (if rc2 \<noteq> RCOK then rc2 else rc)"

definition acquire_end :: "RC \<Rightarrow> txn_man \<Rightarrow> RC \<times> txn_man" where
  "acquire_end rc m =
     (let (left, m) = decr_lr m
      in if left = 0 then (let (won, m) = cas_lock_ready 0 1 m in (if won then RCOK else rc, m)) else (rc, m))"

definition owns :: "lk_sys \<Rightarrow> txn_ptr \<Rightarrow> nat \<Rightarrow> bool" where
  "owns s t i \<longleftrightarrow> i < length (lk_rows s) \<and> t \<in> le_txn ` set (own (lk_rows s ! i))"

definition waits :: "lk_sys \<Rightarrow> txn_ptr \<Rightarrow> nat \<Rightarrow> bool" where
  "waits s t i \<longleftrightarrow> i < length (lk_rows s) \<and> t \<in> le_txn ` set (waiters (lk_rows s ! i))"

definition wait_count :: "row_lock list \<Rightarrow> txn_ptr \<Rightarrow> nat" where
  "wait_count rows t = sum_list (map (\<lambda>r. count (mset (map le_txn (waiters r))) t) rows)"

definition may_request :: "cc_alg \<Rightarrow> lk_sys \<Rightarrow> txn_ptr \<Rightarrow> nat \<Rightarrow> bool" where
  "may_request alg s t i \<longleftrightarrow> i < length (lk_rows s) \<and> \<not> owns s t i \<and> \<not> waits s t i \<and>
     (alg = WAIT_DIE \<longrightarrow> (\<forall>j < length (lk_rows s). \<not> waits s t j)) \<and>
     (alg = CALVIN \<longrightarrow> lk_acq s t \<noteq> None)"

definition may_release :: "cc_alg \<Rightarrow> lk_sys \<Rightarrow> txn_ptr \<Rightarrow> nat \<Rightarrow> bool" where
  "may_release alg s t i \<longleftrightarrow> owns s t i \<and> \<not> (alg = CALVIN \<and> recon (lk_txns s t)) \<and> lk_acq s t = None \<and>
     (\<forall>j < length (lk_rows s). \<not> waits s t j)"

definition may_acquire :: "cc_alg \<Rightarrow> lk_sys \<Rightarrow> txn_ptr \<Rightarrow> bool" where
  "may_acquire alg s t \<longleftrightarrow> alg = CALVIN \<and> lk_acq s t = None \<and> lock_ready (lk_txns s t) = 0 \<and>
     (\<forall>j < length (lk_rows s). \<not> owns s t j \<and> \<not> waits s t j)"

inductive lk_step :: "cc_alg \<Rightarrow> txn_ptr set \<Rightarrow> lk_sys \<Rightarrow> lk_sys \<Rightarrow> bool" for alg T where
  get: "lk_step alg T s \<lparr>lk_rows = (lk_rows s)[i := r'], lk_txns = txns',
        lk_acq = (lk_acq s)(t := map_option (\<lambda>rc0. acquire_rc rc0 rc) (lk_acq s t))\<rparr>"
    if "t \<in> T" "ty \<noteq> LOCK_NONE" "may_request alg s t i"
      "lock_get alg now ty t (lk_rows s ! i) (lk_txns s) = Some (rc, r', txns')"
| release: "lk_step alg T s (s\<lparr>lk_rows := (lk_rows s)[i := r'], lk_txns := txns'\<rparr>)"
    if "t \<in> T" "may_release alg s t i"
      "lock_release alg t (lk_rows s ! i) (lk_txns s) = Some (rc, r', txns', evs)"
| acquire: "lk_step alg T s (s\<lparr>lk_txns := (lk_txns s)(t := acquire_begin (lk_txns s t)), lk_acq := (lk_acq s)(t \<mapsto> RCOK)\<rparr>)"
    if "t \<in> T" "may_acquire alg s t"
| acquired: "lk_step alg T s (s\<lparr>lk_txns := (lk_txns s)(t := snd (acquire_end rc (lk_txns s t))), lk_acq := (lk_acq s)(t := None)\<rparr>)"
    if "t \<in> T" "lk_acq s t = Some rc"

definition lk_start :: "txn_ptr set \<Rightarrow> lk_sys \<Rightarrow> bool" where
  "lk_start T s \<longleftrightarrow> finite T \<and> card T < 2 ^ 32 \<and> length (lk_rows s) < 2 ^ 32 \<and>
     inj_on (\<lambda>t. txn_id (lk_txns s t)) T \<and> inj_on (\<lambda>t. timestamp (lk_txns s t)) T \<and>
     (\<forall>t \<in> T. lock_ready (lk_txns s t) = 0 \<and> lock_ready_cnt (lk_txns s t) = 0) \<and>
     (\<forall>r \<in> set (lk_rows s). r = row_lock_init) \<and> lk_acq s = Map.empty"

definition row_ok :: "cc_alg \<Rightarrow> txn_ptr set \<Rightarrow> txn_store \<Rightarrow> row_lock \<Rightarrow> bool" where
  "row_ok alg T txns r \<longleftrightarrow> row_inv alg txns r \<and> distinct (map le_txn (own r @ waiters r)) \<and>
     le_txn ` set (own r @ waiters r) \<subseteq> T"

definition extra :: "RC option \<Rightarrow> nat" where
  "extra a = (if a = None then 0 else 1)"

definition txn_ok :: "row_lock list \<Rightarrow> RC option \<Rightarrow> txn_man \<Rightarrow> txn_ptr \<Rightarrow> bool" where
  "txn_ok rows a m t \<longleftrightarrow> lock_ready m \<in> {0, 1} \<and> lock_ready_cnt m = of_nat (wait_count rows t + extra a) \<and>
     (wait_count rows t + extra a > 0 \<longrightarrow> lock_ready m = 0) \<and> a \<in> {None, Some RCOK, Some WAIT} \<and>
     (a = Some RCOK \<longrightarrow> wait_count rows t = 0)"

definition lk_inv :: "cc_alg \<Rightarrow> txn_ptr set \<Rightarrow> lk_sys \<Rightarrow> bool" where
  "lk_inv alg T s \<longleftrightarrow> finite T \<and> card T < 2 ^ 32 \<and> length (lk_rows s) < 2 ^ 32 \<and>
     inj_on (\<lambda>t. txn_id (lk_txns s t)) T \<and> inj_on (\<lambda>t. timestamp (lk_txns s t)) T \<and>
     (\<forall>r \<in> set (lk_rows s). row_ok alg T (lk_txns s) r) \<and>
     (\<forall>t \<in> T. txn_ok (lk_rows s) (lk_acq s t) (lk_txns s t) t) \<and> (alg \<noteq> CALVIN \<longrightarrow> lk_acq s = Map.empty)"

lemma lk_inv_start: "lk_start T s \<Longrightarrow> lk_inv alg T s"
proof -
  assume *: "lk_start T s"
  then have init: "\<forall>r \<in> set (lk_rows s). r = row_lock_init" by (simp add: lk_start_def)
  have "wait_count (lk_rows s) t = 0" for t
    using init by (auto simp: wait_count_def sum_list_eq_0_iff row_lock_init_def)
  moreover have "row_ok alg T (lk_txns s) row_lock_init"
    using row_inv_init by (simp add: row_ok_def row_lock_init_def own_def)
  ultimately show ?thesis using * init by (auto simp: lk_inv_def lk_start_def txn_ok_def extra_def)
qed

lemma wait_count_update:
  "i < length rows \<Longrightarrow> wait_count (rows[i := r]) t + count (mset (map le_txn (waiters (rows ! i)))) t =
     wait_count rows t + count (mset (map le_txn (waiters r))) t"
  by (induction rows arbitrary: i) (auto simp: wait_count_def less_Suc_eq_0_disj)

lemma wait_count_pos: "waits s t i \<Longrightarrow> wait_count (lk_rows s) t > 0"
  by (force simp: wait_count_def waits_def sum_list_eq_0_iff count_eq_zero_iff
      intro: gr0I dest: nth_mem)

lemma wait_count_zero:
  "\<forall>j < length (lk_rows s). \<not> waits s t j \<Longrightarrow> wait_count (lk_rows s) t = 0"
  by (force simp: wait_count_def waits_def sum_list_eq_0_iff count_eq_zero_iff in_set_conv_nth)

lemma wait_count_le:
  "(\<forall>r \<in> set rows. distinct (map le_txn (waiters r))) \<Longrightarrow> wait_count rows t \<le> length rows"
proof (induction rows)
  case (Cons r rows)
  have "count (mset (map le_txn (waiters r))) t \<le> 1"
    using Cons.prems by (simp add: distinct_count_atmost_1 del: mset_map)
  then show ?case using Cons by (simp add: wait_count_def)
qed (simp add: wait_count_def)

lemma row_ok_length:
  assumes "row_ok alg T txns r" "finite T" "t \<in> T" "t \<notin> le_txn ` set (own r @ waiters r)"
  shows "Suc (length (own r) + length (waiters r)) \<le> card T"
proof -
  let ?ts = "map le_txn (own r @ waiters r)"
  have "Suc (length ?ts) = card (insert t (set ?ts))"
    using assms(1,4) distinct_card [of ?ts] by (simp add: row_ok_def image_Un)
  also have "\<dots> \<le> card T" using assms by (intro card_mono) (auto simp: row_ok_def)
  finally show ?thesis by simp
qed

lemma row_ok_same_ids: "same_ids txns' txns \<Longrightarrow> row_ok alg T txns' r = row_ok alg T txns r"
  by (simp add: row_ok_def row_inv_same_ids)

lemma start_waiting_ok:
  "txn_ok rows a m t \<Longrightarrow> wait_count rows' t = Suc (wait_count rows t) \<Longrightarrow>
   txn_ok rows' (map_option (\<lambda>rc0. acquire_rc rc0 WAIT) a) (mark_wait now m) t"
  by (auto simp: txn_ok_def start_waiting_def cas_lock_ready_def incr_lr_def Let_def extra_def acquire_rc_def)

lemma lock_granted_ok:
  assumes "txn_ok rows a m t" and "wait_count rows t = Suc (wait_count rows' t)"
    and "Suc (wait_count rows' t) < 2 ^ 32"
  shows "txn_ok rows' a (snd (lock_granted m)) t"
    and "fst (lock_granted m) \<longleftrightarrow> wait_count rows' t = 0 \<and> a = None"
  using assms of_nat_word_eq_0 [where 'a = 32, of "wait_count rows' t + extra a"]
  by (auto simp: txn_ok_def lock_granted_def cas_lock_ready_def decr_lr_def Let_def extra_def split: if_splits)

lemma mset_eq_row_ok:
  "mset (own r') = mset os \<Longrightarrow> mset (waiters r') = mset ws \<Longrightarrow> row_inv alg txns r' \<Longrightarrow>
   distinct (map le_txn (os @ ws)) \<Longrightarrow> le_txn ` set (os @ ws) \<subseteq> T \<Longrightarrow> row_ok alg T txns r'"
  unfolding row_ok_def
  by (metis mset_append mset_eq_imp_distinct_iff mset_eq_setD mset_map)

lemma lk_inv_row: "lk_inv alg T s \<Longrightarrow> i < length (lk_rows s) \<Longrightarrow> row_ok alg T (lk_txns s) (lk_rows s ! i)"
  by (simp add: lk_inv_def)

lemma lk_inv_fresh:
  assumes "lk_inv alg T s" "i < length (lk_rows s)" "t \<in> T"
    and e: "e \<in> set (own (lk_rows s ! i) @ waiters (lk_rows s ! i))" and "le_txn e \<noteq> t"
  shows "txn_id (lk_txns s (le_txn e)) \<noteq> txn_id (lk_txns s t)"
    and "timestamp (lk_txns s (le_txn e)) \<noteq> timestamp (lk_txns s t)"
proof -
  have "le_txn e \<in> T" using lk_inv_row [OF assms(1,2)] e by (auto simp: row_ok_def)
  with assms show "txn_id (lk_txns s (le_txn e)) \<noteq> txn_id (lk_txns s t)"
    "timestamp (lk_txns s (le_txn e)) \<noteq> timestamp (lk_txns s t)"
    by (auto simp: lk_inv_def dest: inj_onD)
qed

lemma lk_inv_update:
  assumes inv: "lk_inv alg T s" and i: "i < length (lk_rows s)" and same: "same_ids txns' (lk_txns s)"
    and r': "row_ok alg T (lk_txns s) r'"
    and ok: "\<And>t. t \<in> T \<Longrightarrow> txn_ok (lk_rows s) (lk_acq s t) (lk_txns s t) t \<Longrightarrow> txn_ok ((lk_rows s)[i := r']) (acq' t) (txns' t) t"
    and acq: "\<And>t. acq' t = None \<longleftrightarrow> lk_acq s t = None"
  shows "lk_inv alg T \<lparr>lk_rows = (lk_rows s)[i := r'], lk_txns = txns', lk_acq = acq'\<rparr>"
  using assms row_ok_same_ids [OF same]
  by (auto simp: lk_inv_def same_ids_def fun_eq_iff dest!: subsetD [OF set_update_subset_insert])

lemma lk_get_inv:
  assumes inv: "lk_inv alg T s" and alg: "alg \<noteq> NO_WAIT" and t: "t \<in> T" and ty: "ty \<noteq> LOCK_NONE"
    and may: "may_request alg s t i"
    and get: "lock_get alg now ty t (lk_rows s ! i) (lk_txns s) = Some (rc, r', txns')"
  shows "lk_inv alg T \<lparr>lk_rows = (lk_rows s)[i := r'], lk_txns = txns',
    lk_acq = (lk_acq s)(t := map_option (\<lambda>rc0. acquire_rc rc0 rc) (lk_acq s t))\<rparr>"
proof -
  let ?r = "lk_rows s ! i" and ?e = "\<lparr>le_type = ty, le_txn = t\<rparr>"
  have i: "i < length (lk_rows s)" using may by (simp add: may_request_def)
  have ok: "row_ok alg T (lk_txns s) ?r" using inv i by (rule lk_inv_row)
  then have rinv: "row_inv alg (lk_txns s) ?r" by (simp add: row_ok_def)
  have new: "t \<notin> le_txn ` set (own ?r @ waiters ?r)"
    using may by (auto simp: may_request_def owns_def waits_def)
  have cap: "Suc (length (own ?r) + length (waiters ?r)) < 2 ^ 32"
    using row_ok_length [OF ok _ t new] inv by (simp add: lk_inv_def)
  have fresh: "\<forall>w \<in> set (waiters ?r). timestamp (lk_txns s (le_txn w)) \<noteq> timestamp (lk_txns s t)"
    using lk_inv_fresh(2) [OF inv i t] new by force
  show ?thesis
  proof (cases rule: lock_get_cases [OF rinv alg ty cap fresh get, case_names granted queued refused])
    case granted
    have "row_ok alg T (lk_txns s) r'"
      using granted ok t new by (intro mset_eq_row_ok [of r' "?e # own ?r" "waiters ?r"]) (auto simp: row_ok_def)
    moreover have "wait_count ((lk_rows s)[i := r']) u = wait_count (lk_rows s) u" for u
      using wait_count_update [OF i, of r' u] granted by simp
    moreover have "map_option (\<lambda>rc0. acquire_rc rc0 rc) a = a" for a
      using granted by (cases a) (simp_all add: acquire_rc_def)
    ultimately show ?thesis using granted inv i by (intro lk_inv_update) (auto simp: txn_ok_def)
  next
    case queued
    have row: "row_ok alg T (lk_txns s) r'"
      using queued ok t new by (intro mset_eq_row_ok [of r' "own ?r" "?e # waiters ?r"]) (auto simp: row_ok_def)
    have wc: "wait_count ((lk_rows s)[i := r']) u = wait_count (lk_rows s) u + (if u = t then 1 else 0)" for u
      using wait_count_update [OF i, of r' u] queued by (simp split: if_splits)
    show ?thesis
    proof (rule lk_inv_update [OF inv i lock_get_same_ids [OF get] row])
      fix u
      assume u: "txn_ok (lk_rows s) (lk_acq s u) (lk_txns s u) u"
      show "txn_ok ((lk_rows s)[i := r']) (((lk_acq s)(t := map_option (\<lambda>rc0. acquire_rc rc0 rc) (lk_acq s t))) u) (txns' u) u"
      proof (cases "u = t")
        case True
        with start_waiting_ok [OF u] wc [of u] queued show ?thesis by simp
      next
        case False
        with u wc [of u] queued show ?thesis by (simp add: txn_ok_def)
      qed
    qed simp
  next
    case refused
    then have "lk_acq s = Map.empty" using inv by (simp add: lk_inv_def)
    then show ?thesis using refused inv i by (simp add: lk_inv_def)
  qed
qed

lemma lk_release_effect:
  assumes inv: "lk_inv alg T s" and alg: "alg \<noteq> NO_WAIT" and may: "may_release alg s t i"
    and rel: "lock_release alg t (lk_rows s ! i) (lk_txns s) = Some (rc, r', txns', evs)"
  obtains ns where "waiters (lk_rows s ! i) = ns @ waiters r'" "txns' = grant_all ns (lk_txns s)"
    "evs = restarts (lk_txns s) ns" "row_ok alg T (lk_txns s) r'" "set ns \<subseteq> set (own r')"
    "\<And>u. wait_count ((lk_rows s)[i := r']) u + (if u \<in> le_txn ` set ns then 1 else 0)
       = wait_count (lk_rows s) u"
proof -
  let ?r = "lk_rows s ! i"
  have i: "i < length (lk_rows s)" and recon: "\<not> (alg = CALVIN \<and> recon (lk_txns s t))"
    using may by (simp_all add: may_release_def owns_def)
  have ok: "row_ok alg T (lk_txns s) ?r" using inv i by (rule lk_inv_row)
  then have rinv: "row_inv alg (lk_txns s) ?r" and dist: "distinct (map le_txn (waiters ?r))"
    by (simp_all add: row_ok_def)
  from lock_release_split [OF rinv alg dist recon rel] obtain e ns where
    e: "le_txn e = t" "e \<in> set (own ?r)" and split: "waiters ?r = ns @ waiters r'" "add_mset e (mset (own r')) = mset (own ?r) + mset ns"
      "txns' = grant_all ns (lk_txns s)" "evs = restarts (lk_txns s) ns" "row_inv alg (lk_txns s) r'" by metis
  have all: "mset (own ?r @ waiters ?r) = add_mset e (mset (own r' @ waiters r'))"
    using split(1,2) by simp
  then have eq: "mset (map le_txn (own ?r @ waiters ?r)) = mset (map le_txn (e # own r' @ waiters r'))"
    by (simp only: mset_map mset.simps)
  have "distinct (map le_txn (own r' @ waiters r'))"
    using ok mset_eq_imp_distinct_iff [OF eq] by (simp add: row_ok_def)
  moreover have "le_txn ` set (own r' @ waiters r') \<subseteq> T"
  proof -
    have "set (map le_txn (own r' @ waiters r')) \<subseteq> set (map le_txn (own ?r @ waiters ?r))"
      unfolding mset_eq_setD [OF eq] by auto
    with ok show ?thesis unfolding row_ok_def set_map by (metis subset_trans)
  qed
  ultimately have row: "row_ok alg T (lk_txns s) r'" using split(5) by (simp add: row_ok_def)
  have cnt: "count (mset (map le_txn ns)) u = (if u \<in> le_txn ` set ns then 1 else 0)" for u
  proof -
    have "distinct (map le_txn ns)" using dist split(1) by simp
    then show ?thesis unfolding distinct_count_atmost_1 by simp
  qed
  have wc: "wait_count ((lk_rows s)[i := r']) u + (if u \<in> le_txn ` set ns then 1 else 0)
      = wait_count (lk_rows s) u" for u
    using wait_count_update [OF i, of r' u] cnt [of u] split(1) by simp
  have "le_txn e \<notin> le_txn ` set ns"
  proof -
    have "le_txn e \<in> le_txn ` set (own ?r)" using e(2) by (rule imageI)
    moreover have "le_txn ` set (own ?r) \<inter> le_txn ` set (waiters ?r) = {}" using ok by (simp add: row_ok_def)
    ultimately show ?thesis unfolding split(1) by auto
  qed
  moreover have "insert e (set (own r')) = set (own ?r) \<union> set ns"
    by (metis split(2) set_mset_add_mset_insert set_mset_mset set_mset_union)
  ultimately have "set ns \<subseteq> set (own r')" by (metis UnI2 image_eqI insertE subsetI)
  with split row wc that show thesis by blast
qed

lemma lk_release_inv:
  assumes inv: "lk_inv alg T s" and alg: "alg \<noteq> NO_WAIT" and may: "may_release alg s t i"
    and rel: "lock_release alg t (lk_rows s ! i) (lk_txns s) = Some (rc, r', txns', evs)"
  shows "lk_inv alg T \<lparr>lk_rows = (lk_rows s)[i := r'], lk_txns = txns', lk_acq = lk_acq s\<rparr>"
proof -
  have i: "i < length (lk_rows s)" using may by (simp add: may_release_def owns_def)
  from lk_release_effect [OF assms] obtain ns where eff: "txns' = grant_all ns (lk_txns s)"
    and row: "row_ok alg T (lk_txns s) r'"
    and wc: "\<And>u. wait_count ((lk_rows s)[i := r']) u + (if u \<in> le_txn ` set ns then 1 else 0)
       = wait_count (lk_rows s) u" by blast
  show ?thesis
  proof (rule lk_inv_update [OF inv i lock_release_same_ids [OF rel] row])
    fix u
    assume u: "txn_ok (lk_rows s) (lk_acq s u) (lk_txns s u) u"
    have le: "wait_count (lk_rows s) u < 2 ^ 32"
      using wait_count_le [of "lk_rows s" u] inv by (auto simp: lk_inv_def row_ok_def)
    show "txn_ok ((lk_rows s)[i := r']) (lk_acq s u) (txns' u) u"
    proof (cases "u \<in> le_txn ` set ns")
      case True
      with wc [of u] le lock_granted_ok(1) [OF u, of "(lk_rows s)[i := r']"] show ?thesis
        by (simp add: eff grant_all_def)
    next
      case False
      with u wc [of u] show ?thesis by (simp add: eff grant_all_def txn_ok_def)
    qed
  qed simp
qed

lemma acquire_end_ok:
  assumes "txn_ok rows (Some rc) m t" and "wait_count rows t < 2 ^ 32"
  shows "txn_ok rows None (snd (acquire_end rc m)) t"
    and "fst (acquire_end rc m) = (if wait_count rows t = 0 then RCOK else WAIT)"
    and "lock_ready (snd (acquire_end rc m)) = (if wait_count rows t = 0 then 1 else 0)"
  using assms of_nat_word_eq_0 [where 'a = 32, of "wait_count rows t"]
  by (auto simp: txn_ok_def acquire_end_def cas_lock_ready_def decr_lr_def Let_def extra_def split: if_splits)

lemma lk_inv_txn:
  assumes inv: "lk_inv alg T s" and t: "t \<in> T" and m: "txn_id m = txn_id (lk_txns s t)" "timestamp m = timestamp (lk_txns s t)"
    and ok: "txn_ok (lk_rows s) a m t" and a: "alg = CALVIN"
  shows "lk_inv alg T (s\<lparr>lk_txns := (lk_txns s)(t := m), lk_acq := (lk_acq s)(t := a)\<rparr>)"
proof -
  have same: "same_ids ((lk_txns s)(t := m)) (lk_txns s)" using m by (simp add: same_ids_def)
  then show ?thesis using inv row_ok_same_ids [OF same] ok a by (auto simp: lk_inv_def same_ids_def)
qed

lemma lk_wait_count_le: "lk_inv alg T s \<Longrightarrow> wait_count (lk_rows s) t < 2 ^ 32"
  using wait_count_le [of "lk_rows s" t] by (auto simp: lk_inv_def row_ok_def)

lemma lk_acquire_inv:
  assumes inv: "lk_inv alg T s" and t: "t \<in> T" and may: "may_acquire alg s t"
  shows "lk_inv alg T (s\<lparr>lk_txns := (lk_txns s)(t := acquire_begin (lk_txns s t)), lk_acq := (lk_acq s)(t \<mapsto> RCOK)\<rparr>)"
proof -
  have wc: "wait_count (lk_rows s) t = 0" using may by (intro wait_count_zero) (simp add: may_acquire_def)
  have "txn_ok (lk_rows s) (lk_acq s t) (lk_txns s t) t" using inv t by (simp add: lk_inv_def)
  then have "txn_ok (lk_rows s) (Some RCOK) (acquire_begin (lk_txns s t)) t"
    using may wc by (auto simp: txn_ok_def extra_def acquire_begin_def incr_lr_def Let_def may_acquire_def)
  then show ?thesis
    using lk_inv_txn [OF inv t] may by (simp add: may_acquire_def acquire_begin_def incr_lr_def Let_def)
qed

lemma lk_acquired_inv:
  assumes inv: "lk_inv alg T s" and t: "t \<in> T" and acq: "lk_acq s t = Some rc"
  shows "lk_inv alg T (s\<lparr>lk_txns := (lk_txns s)(t := snd (acquire_end rc (lk_txns s t))), lk_acq := (lk_acq s)(t := None)\<rparr>)"
proof -
  have "txn_ok (lk_rows s) (Some rc) (lk_txns s t) t" using inv t acq by (metis lk_inv_def)
  from acquire_end_ok(1) [OF this lk_wait_count_le [OF inv]]
  show ?thesis using inv acq by (intro lk_inv_txn [OF inv t])
    (auto simp: lk_inv_def acquire_end_def decr_lr_def cas_lock_ready_def Let_def split: if_splits)
qed

lemma lk_step_inv:
  assumes "lk_step alg T s s'" "lk_inv alg T s" "alg \<noteq> NO_WAIT"
  shows "lk_inv alg T s'"
  using assms(1)
proof cases
  case get
  then show ?thesis using lk_get_inv assms(2,3) by blast
next
  case (release t i rc r' txns' evs)
  then have "s' = \<lparr>lk_rows = (lk_rows s)[i := r'], lk_txns = txns', lk_acq = lk_acq s\<rparr>" by simp
  then show ?thesis using lk_release_inv [OF assms(2,3) release(3,4)] by simp
next
  case acquire
  then show ?thesis using lk_acquire_inv assms(2) by blast
next
  case acquired
  then show ?thesis using lk_acquired_inv assms(2) by blast
qed

lemma lk_reach_inv:
  assumes "(lk_step alg T)\<^sup>*\<^sup>* s0 s" "lk_start T s0" "alg \<noteq> NO_WAIT"
  shows "lk_inv alg T s"
  using assms(1) by (induction) (simp add: lk_inv_start assms(2), metis lk_step_inv assms(3))

lemma lk_get_total:
  assumes inv: "lk_inv alg T s" and alg: "alg = WAIT_DIE \<or> alg = CALVIN" and t: "t \<in> T"
    and ty: "ty \<noteq> LOCK_NONE" and may: "may_request alg s t i"
  shows "lock_get alg now ty t (lk_rows s ! i) (lk_txns s) \<noteq> None"
proof -
  have i: "i < length (lk_rows s)" and new: "t \<notin> le_txn ` set (own (lk_rows s ! i))"
    using may by (auto simp: may_request_def owns_def)
  have "row_inv alg (lk_txns s) (lk_rows s ! i)" using lk_inv_row [OF inv i] by (simp add: row_ok_def)
  then show ?thesis
    using alg ty new lk_inv_fresh [OF inv i t] by (intro lock_get_total) force+
qed

lemma lk_waiters_not_ready:
  assumes inv: "lk_inv alg T s" and i: "i < length (lk_rows s)" and w: "w \<in> set (waiters (lk_rows s ! i))"
  shows "lock_ready (lk_txns s (le_txn w)) = 0"
proof -
  have "waits s (le_txn w) i" using i w by (simp add: waits_def)
  moreover have "le_txn w \<in> T" using lk_inv_row [OF inv i] w by (auto simp: row_ok_def)
  ultimately show ?thesis using inv wait_count_pos by (auto simp: lk_inv_def txn_ok_def)
qed

lemma lk_release_total:
  assumes inv: "lk_inv alg T s" and alg: "alg \<noteq> NO_WAIT" and may: "owns s t i"
  shows "lock_release alg t (lk_rows s ! i) (lk_txns s) \<noteq> None"
proof -
  obtain e where i: "i < length (lk_rows s)" and e: "e \<in> set (own (lk_rows s ! i))" "le_txn e = t"
    using may by (auto simp: owns_def)
  have "row_inv alg (lk_txns s) (lk_rows s ! i)" "distinct (map le_txn (waiters (lk_rows s ! i)))"
    using lk_inv_row [OF inv i] by (simp_all add: row_ok_def)
  with lock_release_total [OF _ alg e(1)] lk_waiters_not_ready [OF inv i] e(2) show ?thesis by blast
qed

section \<open>WAIT_DIE cannot deadlock\<close>

definition waits_for :: "lk_sys \<Rightarrow> (txn_ptr \<times> txn_ptr) set" where
  "waits_for s = {(t, u). \<exists>i < length (lk_rows s).
     (t \<in> le_txn ` set (waiters (lk_rows s ! i)) \<and> u \<in> le_txn ` set (own (lk_rows s ! i))) \<or>
     (\<exists>a b. a < b \<and> b < length (waiters (lk_rows s ! i)) \<and> le_txn (waiters (lk_rows s ! i) ! a) = u \<and>
        le_txn (waiters (lk_rows s ! i) ! b) = t)}"

lemma waits_for_older:
  assumes inv: "lk_inv WAIT_DIE T s" and wf: "(t, u) \<in> waits_for s"
  shows "timestamp (lk_txns s t) < timestamp (lk_txns s u)"
proof -
  from wf obtain i where i: "i < length (lk_rows s)" and
    wf: "(t \<in> le_txn ` set (waiters (lk_rows s ! i)) \<and> u \<in> le_txn ` set (own (lk_rows s ! i))) \<or>
     (\<exists>a b. a < b \<and> b < length (waiters (lk_rows s ! i)) \<and> le_txn (waiters (lk_rows s ! i) ! a) = u \<and>
        le_txn (waiters (lk_rows s ! i) ! b) = t)"
    by (auto simp: waits_for_def)
  have "wait_die_order (lk_txns s) (lk_rows s ! i)"
    using lk_inv_row [OF inv i] by (simp add: row_ok_def row_inv_def row_core_def)
  with wf show ?thesis by (auto simp: wait_die_order_def sorted_wrt_iff_nth_less)
qed

lemma increasing_acyclic:
  assumes "\<And>x y. (x, y) \<in> R \<Longrightarrow> f x < (f y :: 'b :: order)"
  shows "acyclic R"
proof -
  have "f x < f y" if "(x, y) \<in> R\<^sup>+" for x y
    using that by (induction) (auto dest: assms intro: less_trans)
  then have "f x < f x" if "(x, x) \<in> R\<^sup>+" for x using that by blast
  then show ?thesis by (auto simp: acyclic_def)
qed

lemma waiting_row_has_owner:
  assumes inv: "lk_inv alg T s" and "waits s t i"
  obtains u where "owns s u i"
proof -
  from assms(2) have i: "i < length (lk_rows s)" and ne: "waiters (lk_rows s ! i) \<noteq> []"
    by (auto simp: waits_def)
  have "row_inv alg (lk_txns s) (lk_rows s ! i)" using lk_inv_row [OF inv i] by (simp add: row_ok_def)
  then have "own (lk_rows s ! i) \<noteq> []"
    using ne by (auto simp: row_inv_def row_core_def head_blocked_def conflict_lock_iff locks_compat_def
        split: lock_t.splits)
  with i that show thesis by (metis owns_def image_eqI list.set_sel(1))
qed

lemma WAIT_DIE_progress:
  assumes inv: "lk_inv WAIT_DIE T s" and w: "waits s t i"
  obtains u j where "u \<in> T" "may_release WAIT_DIE s u j"
proof -
  let ?W = "{t. \<exists>i. waits s t i}"
  have owner_T: "u \<in> T" if "owns s u j" for u j
    using that lk_inv_row [OF inv] by (fastforce simp: owns_def row_ok_def)
  have "?W \<subseteq> T" using lk_inv_row [OF inv] by (fastforce simp: waits_def row_ok_def)
  then have fin: "finite ?W" using inv finite_subset by (auto simp: lk_inv_def)
  let ?f = "\<lambda>t. timestamp (lk_txns s t)"
  have "Max (?f ` ?W) \<in> ?f ` ?W" using fin w by (intro Max_in) auto
  then obtain v where v: "v \<in> ?W" "Max (?f ` ?W) = ?f v" by blast
  have max: "?f x \<le> ?f v" if "x \<in> ?W" for x
    unfolding v(2) [symmetric] using fin that by (intro Max_ge) auto
  from v(1) obtain j where j: "waits s v j" by blast
  from waiting_row_has_owner [OF inv j] obtain u where u: "owns s u j" .
  then have "(v, u) \<in> waits_for s" using j by (auto simp: waits_for_def owns_def waits_def)
  from waits_for_older [OF inv this] have "u \<notin> ?W" using max [of u] by (meson leD)
  with u have "may_release WAIT_DIE s u j" using inv by (auto simp: may_release_def lk_inv_def)
  with that owner_T [OF u] show thesis by blast
qed

section \<open>A concrete run\<close>

definition demo_store :: txn_store where
  "demo_store t = \<lparr>txn_id = of_nat t, batch_id = 0, timestamp = of_nat t, lock_ready = 0,
     lock_ready_cnt = 0, twopl_wait_start = 0, recon = False\<rparr>"

definition demo_start :: lk_sys where
  "demo_start = \<lparr>lk_rows = [row_lock_init], lk_txns = demo_store, lk_acq = Map.empty\<rparr>"

definition do_get :: "cc_alg \<Rightarrow> u64 \<Rightarrow> lock_t \<Rightarrow> txn_ptr \<Rightarrow> nat \<Rightarrow> lk_sys \<Rightarrow> lk_sys" where
  "do_get alg now ty t i s =
     (case lock_get alg now ty t (lk_rows s ! i) (lk_txns s) of None \<Rightarrow> s
      | Some (rc, r', txns') \<Rightarrow> \<lparr>lk_rows = (lk_rows s)[i := r'], lk_txns = txns',
          lk_acq = (lk_acq s)(t := map_option (\<lambda>rc0. acquire_rc rc0 rc) (lk_acq s t))\<rparr>)"

lemma do_get_step:
  "t \<in> T \<Longrightarrow> ty \<noteq> LOCK_NONE \<Longrightarrow> may_request alg s t i \<Longrightarrow>
   lock_get alg now ty t (lk_rows s ! i) (lk_txns s) \<noteq> None \<Longrightarrow> lk_step alg T s (do_get alg now ty t i s)"
  by (auto simp: do_get_def intro: lk_step.get)

definition demo_entry :: "u32 \<Rightarrow> lock_entry list \<Rightarrow> row_lock" where
  "demo_entry n ws = \<lparr>lock_type = LOCK_EX, owner_cnt = 1, waiter_cnt = n,
     owners = [[\<lparr>le_type = LOCK_EX, le_txn = 2\<rparr>]], owners_size = 1, waiters = ws, max_owner_ts = 2\<rparr>"

definition demo_waiting :: lk_sys where
  "demo_waiting = \<lparr>lk_rows = [demo_entry 1 [\<lparr>le_type = LOCK_SH, le_txn = 1\<rparr>]],
     lk_txns = demo_store(1 := (demo_store 1)\<lparr>lock_ready_cnt := 1, twopl_wait_start := 6\<rparr>), lk_acq = Map.empty\<rparr>"

definition demo_acquiring :: lk_sys where
  "demo_acquiring = \<lparr>lk_rows = [demo_entry 1 [\<lparr>le_type = LOCK_SH, le_txn = 1\<rparr>]],
     lk_txns = demo_store(2 := (demo_store 2)\<lparr>lock_ready := 1\<rparr>, 1 := (demo_store 1)\<lparr>lock_ready_cnt := 2, twopl_wait_start := 6\<rparr>),
     lk_acq = [1 \<mapsto> WAIT]\<rparr>"

lemmas demo_defs = demo_start_def do_get_def row_lock_init_def demo_entry_def
  lock_get_def get_conflict_def conflict_lock_iff push_owner_def owner_hash_def bump_max_owner_ts_def
  insert_waiter_def start_waiting_def cas_lock_ready_def incr_lr_def decr_lr_def demo_store_def
  may_request_def may_acquire_def owns_def waits_def own_def

lemma demo_lk_start: "lk_start {1, 2} demo_start"
  by (simp add: lk_start_def demo_start_def demo_store_def)

lemma demo_reach: "(lk_step WAIT_DIE {1, 2})\<^sup>*\<^sup>* demo_start demo_waiting"
proof -
  let ?s = "demo_start\<lparr>lk_rows := [demo_entry 0 []]\<rparr>"
  have "lk_step WAIT_DIE {1, 2} demo_start (do_get WAIT_DIE 5 LOCK_EX 2 0 demo_start)"
    by (intro do_get_step) (auto simp: demo_defs)
  also have "do_get WAIT_DIE 5 LOCK_EX 2 0 demo_start = ?s" by (auto simp: demo_defs)
  finally have "lk_step WAIT_DIE {1, 2} demo_start ?s" .
  moreover have "lk_step WAIT_DIE {1, 2} ?s (do_get WAIT_DIE 6 LOCK_SH 1 0 ?s)"
    by (intro do_get_step) (auto simp: demo_defs)
  moreover have "do_get WAIT_DIE 6 LOCK_SH 1 0 ?s = demo_waiting" by (auto simp: demo_defs demo_waiting_def)
  ultimately show ?thesis by (metis converse_rtranclp_into_rtranclp r_into_rtranclp)
qed

lemma demo_reach_calvin: "(lk_step CALVIN {1, 2})\<^sup>*\<^sup>* demo_start demo_acquiring"
proof -
  let ?m2 = "demo_store(2 := (demo_store 2)\<lparr>lock_ready_cnt := 1\<rparr>)" and ?n2 = "demo_store(2 := (demo_store 2)\<lparr>lock_ready := 1\<rparr>)"
  let ?s1 = "\<lparr>lk_rows = [row_lock_init], lk_txns = ?m2, lk_acq = [2 \<mapsto> RCOK]\<rparr>"
  let ?s2 = "\<lparr>lk_rows = [demo_entry 0 []], lk_txns = ?m2, lk_acq = [2 \<mapsto> RCOK]\<rparr>"
  let ?s3 = "\<lparr>lk_rows = [demo_entry 0 []], lk_txns = ?n2, lk_acq = Map.empty\<rparr>"
  let ?s4 = "\<lparr>lk_rows = [demo_entry 0 []], lk_txns = ?n2(1 := (demo_store 1)\<lparr>lock_ready_cnt := 1\<rparr>), lk_acq = [1 \<mapsto> RCOK]\<rparr>"
  have 1: "lk_step CALVIN {1, 2} demo_start ?s1"
    using lk_step.acquire [of 2 "{1, 2}" CALVIN demo_start] by (simp add: demo_defs acquire_begin_def)
  have "lk_step CALVIN {1, 2} ?s1 (do_get CALVIN 5 LOCK_EX 2 0 ?s1)"
    by (intro do_get_step) (auto simp: demo_defs)
  moreover have "do_get CALVIN 5 LOCK_EX 2 0 ?s1 = ?s2" by (auto simp: demo_defs acquire_rc_def)
  ultimately have 2: "lk_step CALVIN {1, 2} ?s1 ?s2" by metis
  have 3: "lk_step CALVIN {1, 2} ?s2 ?s3"
    using lk_step.acquired [of 2 "{1, 2}" ?s2 RCOK CALVIN] by (simp add: demo_defs acquire_end_def)
  have 4: "lk_step CALVIN {1, 2} ?s3 ?s4"
    using lk_step.acquire [of 1 "{1, 2}" CALVIN ?s3] by (simp add: demo_defs acquire_begin_def)
  have "lk_step CALVIN {1, 2} ?s4 (do_get CALVIN 6 LOCK_SH 1 0 ?s4)"
    by (intro do_get_step) (auto simp: demo_defs)
  moreover have "do_get CALVIN 6 LOCK_SH 1 0 ?s4 = demo_acquiring" by (auto simp: demo_defs acquire_rc_def demo_acquiring_def)
  ultimately have 5: "lk_step CALVIN {1, 2} ?s4 demo_acquiring" by metis
  show ?thesis using 1 2 3 4 5 by (meson converse_rtranclp_into_rtranclp rtranclp.rtrancl_refl)
qed

section \<open>What a release restarts\<close>




section \<open>The properties of the lock manager\<close>

text \<open>C2: No assertion of the lock manager can fail. In every state that requests and releases
  reach from unlocked rows, under WAIT_DIE and under CALVIN, a request of a transaction that may
  make it and a release of a lock its transaction owns both return.\<close>

theorem lock_manager_no_assert_fails:
  assumes "lk_start T s0" and "(lk_step alg T)\<^sup>*\<^sup>* s0 s" and "alg = WAIT_DIE \<or> alg = CALVIN"
    and "t \<in> T"
  shows "(\<forall>ty now i. ty \<noteq> LOCK_NONE \<and> may_request alg s t i \<longrightarrow>
            lock_get alg now ty t (lk_rows s ! i) (lk_txns s) \<noteq> None) \<and>
         (\<forall>i. may_release alg s t i \<longrightarrow>
            lock_release alg t (lk_rows s ! i) (lk_txns s) \<noteq> None)"
proof -
  have inv: "lk_inv alg T s" and alg: "alg \<noteq> NO_WAIT" using lk_reach_inv assms by auto
  then show ?thesis
    using lk_get_total [OF inv assms(3,4)] lk_release_total [OF inv alg] by (auto simp: may_release_def)
qed

theorem lock_manager_no_assert_fails_witness:
  "may_request WAIT_DIE demo_start 2 0 \<and> may_release WAIT_DIE demo_waiting 2 0 \<and>
   lock_get WAIT_DIE 5 LOCK_EX 2 (lk_rows demo_start ! 0) (lk_txns demo_start) \<noteq> None \<and>
   lock_release WAIT_DIE 2 (lk_rows demo_waiting ! 0) (lk_txns demo_waiting) \<noteq> None"
proof -
  have 1: "may_request WAIT_DIE demo_start 2 0"
    by (auto simp: may_request_def owns_def waits_def own_def demo_start_def row_lock_init_def)
  have 2: "may_release WAIT_DIE demo_waiting 2 0"
    by (auto simp: may_release_def owns_def waits_def own_def demo_waiting_def demo_entry_def)
  show ?thesis
    using 1 2 lock_manager_no_assert_fails [OF demo_lk_start rtranclp.rtrancl_refl,
        where alg = WAIT_DIE and t = 2]
      lock_manager_no_assert_fails [OF demo_lk_start demo_reach, where t = 2] by auto
qed

text \<open>C3: Locks exclude each other. In every reachable state two different owners of a row both
  hold it shared, and \<^verbatim>\<open>lock_type\<close> and \<^verbatim>\<open>owner_cnt\<close> describe the owners exactly.\<close>

theorem lock_manager_mutual_exclusion:
  assumes "lk_start T s0" and "(lk_step alg T)\<^sup>*\<^sup>* s0 s" and "alg \<noteq> NO_WAIT"
    and "i < length (lk_rows s)"
  shows "(\<forall>e \<in> set (own (lk_rows s ! i)). \<forall>f \<in> set (own (lk_rows s ! i)). e \<noteq> f \<longrightarrow>
            le_txn e \<noteq> le_txn f \<and> \<not> conflict_lock (le_type e) (le_type f)) \<and>
         (\<forall>e \<in> set (own (lk_rows s ! i)). le_type e = lock_type (lk_rows s ! i)) \<and>
         unat (owner_cnt (lk_rows s ! i)) = length (own (lk_rows s ! i))"
proof -
  have "row_ok alg T (lk_txns s) (lk_rows s ! i)"
    using lk_reach_inv [OF assms(2,1,3)] assms(4) by (rule lk_inv_row)
  then have ok: "locks_compat (lk_rows s ! i)" "distinct (map le_txn (own (lk_rows s ! i)))"
    "owner_cnt (lk_rows s ! i) = of_nat (length (own (lk_rows s ! i)))"
    "length (own (lk_rows s ! i)) < 2 ^ 32"
    by (simp_all add: row_ok_def row_inv_def row_core_def)
  have "e = f" if "length xs = 1" "e \<in> set xs" "f \<in> set xs" for e f :: lock_entry and xs
    using that by (cases xs) auto
  with ok(1) have "\<forall>e \<in> set (own (lk_rows s ! i)). \<forall>f \<in> set (own (lk_rows s ! i)). e \<noteq> f \<longrightarrow>
      \<not> conflict_lock (le_type e) (le_type f)"
    by (cases "lock_type (lk_rows s ! i)") (auto simp: locks_compat_def conflict_lock_iff)
  moreover have "\<forall>e \<in> set (own (lk_rows s ! i)). le_type e = lock_type (lk_rows s ! i)"
    using ok(1) by (cases "lock_type (lk_rows s ! i)") (auto simp: locks_compat_def)
  moreover have "inj_on le_txn (set (own (lk_rows s ! i)))" using ok(2) by (simp add: distinct_map)
  moreover have "unat (owner_cnt (lk_rows s ! i)) = length (own (lk_rows s ! i))"
    using ok(3,4) by (simp add: unsigned_of_nat take_bit_nat_eq_self)
  ultimately show ?thesis by (auto dest: inj_onD)
qed

theorem lock_manager_mutual_exclusion_witness:
  "length (own (lk_rows demo_acquiring ! 0)) = 1 \<and>
   unat (owner_cnt (lk_rows demo_acquiring ! 0)) = length (own (lk_rows demo_acquiring ! 0))"
  using lock_manager_mutual_exclusion [OF demo_lk_start demo_reach_calvin, where i = 0] by (simp add: demo_acquiring_def demo_entry_def own_def)

text \<open>C1: WAIT_DIE does not deadlock. In every reachable state the waits-for relation (a waiter
  waits for the row's owners and for the waiters ahead of it) has no cycle, and whenever a
  transaction waits, some owner waits for nothing and its release returns.\<close>

theorem WAIT_DIE_no_deadlock:
  assumes "lk_start T s0" and "(lk_step WAIT_DIE T)\<^sup>*\<^sup>* s0 s"
  shows "acyclic (waits_for s) \<and>
    (\<forall>t i. waits s t i \<longrightarrow> (\<exists>u j. u \<in> T \<and> may_release WAIT_DIE s u j \<and>
       lock_release WAIT_DIE u (lk_rows s ! j) (lk_txns s) \<noteq> None))"
proof -
  have inv: "lk_inv WAIT_DIE T s" using lk_reach_inv assms by blast
  have "acyclic (waits_for s)"
    by (rule increasing_acyclic [of _ "\<lambda>t. timestamp (lk_txns s t)"]) (rule waits_for_older [OF inv])
  moreover have "\<exists>u j. u \<in> T \<and> may_release WAIT_DIE s u j \<and>
       lock_release WAIT_DIE u (lk_rows s ! j) (lk_txns s) \<noteq> None" if "waits s t i" for t i
    using WAIT_DIE_progress [OF inv that] lk_release_total [OF inv] by (metis may_release_def cc_alg.distinct)
  ultimately show ?thesis by blast
qed

theorem WAIT_DIE_no_deadlock_witness:
  "(1, 2) \<in> waits_for demo_waiting \<and> acyclic (waits_for demo_waiting) \<and>
   (\<exists>u j. u \<in> {1, 2} \<and> may_release WAIT_DIE demo_waiting u j)"
proof -
  have "waits demo_waiting 1 0" by (simp add: waits_def demo_waiting_def demo_entry_def)
  moreover have "(1, 2) \<in> waits_for demo_waiting"
    by (simp add: waits_for_def demo_waiting_def demo_entry_def own_def)
  ultimately show ?thesis using WAIT_DIE_no_deadlock [OF demo_lk_start demo_reach] by blast
qed





end
