(* ===== verification/Bucket_Table.thy ===== *)
theory Bucket_Table
  imports List_Macros
begin

text \<open>
  Arrays of chains indexed by a hash, as the MaaT time table and the transaction table use
  them: finding, changing, appending and removing an entry of one chain, and the interface
  \<open>keyed_table\<close> that such a table offers to its clients. The locale states what a lookup
  returns after each operation; the lemmas proved in it are about loops over many keys.
\<close>

section \<open>One chain\<close>

fun modify_first :: "('e \<Rightarrow> bool) \<Rightarrow> ('e \<Rightarrow> 'e) \<Rightarrow> 'e list \<Rightarrow> 'e list" where
  "modify_first P f [] = []"
| "modify_first P f (e # es) = (if P e then f e # es else e # modify_first P f es)"

fun remove_first :: "('e \<Rightarrow> bool) \<Rightarrow> 'e list \<Rightarrow> 'e list" where
  "remove_first P [] = []"
| "remove_first P (e # es) = (if P e then es else e # remove_first P es)"

lemma find_modify_first:
  "(\<And>e. key (f e) = key e) \<Longrightarrow>
   List.find (\<lambda>e. key e = k') (modify_first (\<lambda>e. key e = k) f es) =
     (if k' = k then map_option f (List.find (\<lambda>e. key e = k) es)
      else List.find (\<lambda>e. key e = k') es)"
  by (induction es) auto

lemma find_append: "List.find P (xs @ ys) = (case List.find P xs of None \<Rightarrow> List.find P ys | Some x \<Rightarrow> Some x)"
  by (induction xs) auto

lemma find_None_key: "List.find (\<lambda>e. key e = k) es = None \<longleftrightarrow> k \<notin> key ` set es"
  by (auto simp: find_None_iff)

lemma find_remove_first:
  "distinct (map key es) \<Longrightarrow>
   List.find (\<lambda>e. key e = k') (remove_first (\<lambda>e. key e = k) es) =
     (if k' = k then None else List.find (\<lambda>e. key e = k') es)"
  by (induction es) (auto simp: find_None_key)

lemma map_modify_first: "(\<And>e. g (f e) = g e) \<Longrightarrow> map g (modify_first P f es) = map g es"
  by (induction es) auto

lemma set_remove_first: "set (remove_first P es) \<subseteq> set es"
  by (induction es) auto

lemma distinct_remove_first: "distinct (map g es) \<Longrightarrow> distinct (map g (remove_first P es))"
  by (induction es) (auto dest: subsetD [OF set_remove_first])

section \<open>An array of chains\<close>

definition chains_ok :: "('k \<Rightarrow> nat) \<Rightarrow> ('e \<Rightarrow> 'k) \<Rightarrow> 'e list list \<Rightarrow> bool" where
  "chains_ok h key bs \<longleftrightarrow> (\<forall>k. h k < length bs) \<and>
     (\<forall>i < length bs. (\<forall>e \<in> set (bs ! i). h (key e) = i) \<and> distinct (map key (bs ! i)))"

definition chain_find :: "('k \<Rightarrow> nat) \<Rightarrow> ('e \<Rightarrow> 'k) \<Rightarrow> 'e list list \<Rightarrow> 'k \<Rightarrow> 'e option" where
  "chain_find h key bs k = List.find (\<lambda>e. key e = k) (bs ! h k)"

lemma chains_ok_empty: "(\<And>k. h k < length bs) \<Longrightarrow> (\<forall>b \<in> set bs. b = []) \<Longrightarrow> chains_ok h key bs"
  by (auto simp: chains_ok_def all_set_conv_all_nth)

lemma chains_ok_update:
  assumes "chains_ok h key bs" "\<forall>e \<in> set ch. h (key e) = h k" "distinct (map key ch)"
  shows "chains_ok h key (bs[h k := ch])"
  using assms by (auto simp: chains_ok_def nth_list_update)

lemma chains_ok_bucket:
  assumes "chains_ok h key bs"
  shows "\<forall>e \<in> set (bs ! h k). h (key e) = h k" and "distinct (map key (bs ! h k))" and "h k < length bs"
  using assms by (simp_all add: chains_ok_def)

lemma chain_find_modify:
  assumes ok: "chains_ok h key bs" and f: "\<And>e. key (f e) = key e"
  shows "chains_ok h key (bs[h k := modify_first (\<lambda>e. key e = k) f (bs ! h k)])"
    and "chain_find h key (bs[h k := modify_first (\<lambda>e. key e = k) f (bs ! h k)]) k' =
           (if k' = k then map_option f (chain_find h key bs k) else chain_find h key bs k')"
proof -
  let ?ch = "modify_first (\<lambda>e. key e = k) f (bs ! h k)"
  note b = chains_ok_bucket [OF ok, of k]
  have keys: "map key ?ch = map key (bs ! h k)" using f by (rule map_modify_first)
  then have "key ` set ?ch = key ` set (bs ! h k)" by (metis list.set_map)
  with b(1) have "\<forall>e \<in> set ?ch. h (key e) = h k" by (metis imageE imageI)
  then show "chains_ok h key (bs[h k := ?ch])" using ok keys b(2) by (intro chains_ok_update) simp_all
  show "chain_find h key (bs[h k := ?ch]) k' =
      (if k' = k then map_option f (chain_find h key bs k) else chain_find h key bs k')"
    using b(3) find_modify_first [of key f, OF f] by (auto simp: chain_find_def nth_list_update)
qed

lemma chain_find_append:
  assumes ok: "chains_ok h key bs" and new: "chain_find h key bs (key e) = None"
  shows "chains_ok h key (bs[h (key e) := bs ! h (key e) @ [e]])"
    and "chain_find h key (bs[h (key e) := bs ! h (key e) @ [e]]) k' =
           (if k' = key e then Some e else chain_find h key bs k')"
proof -
  note b = chains_ok_bucket [OF ok, of "key e"]
  have "key e \<notin> key ` set (bs ! h (key e))" using new by (simp add: chain_find_def find_None_key)
  then show "chains_ok h key (bs[h (key e) := bs ! h (key e) @ [e]])"
    using b ok by (intro chains_ok_update) auto
  show "chain_find h key (bs[h (key e) := bs ! h (key e) @ [e]]) k' =
      (if k' = key e then Some e else chain_find h key bs k')"
    using b(3) new by (auto simp: chain_find_def nth_list_update find_append split: option.split)
qed

lemma chain_find_remove:
  assumes ok: "chains_ok h key bs"
  shows "chains_ok h key (bs[h k := remove_first (\<lambda>e. key e = k) (bs ! h k)])"
    and "chain_find h key (bs[h k := remove_first (\<lambda>e. key e = k) (bs ! h k)]) k' =
           (if k' = k then None else chain_find h key bs k')"
proof -
  note b = chains_ok_bucket [OF ok, of k]
  show "chains_ok h key (bs[h k := remove_first (\<lambda>e. key e = k) (bs ! h k)])"
    using b ok set_remove_first [of "\<lambda>e. key e = k" "bs ! h k"]
    by (intro chains_ok_update) (auto intro: distinct_remove_first)
  show "chain_find h key (bs[h k := remove_first (\<lambda>e. key e = k) (bs ! h k)]) k' =
      (if k' = k then None else chain_find h key bs k')"
    using b(2,3) by (auto simp: chain_find_def nth_list_update find_remove_first)
qed

section \<open>The interface of a keyed table\<close>

locale keyed_table =
  fixes ok :: "'s \<Rightarrow> bool" and key :: "'v \<Rightarrow> 'k" and lookup :: "'s \<Rightarrow> 'k \<Rightarrow> 'v option"
    and upd :: "('v \<Rightarrow> 'v) \<Rightarrow> 'k \<Rightarrow> 's \<Rightarrow> 's" and add :: "'v \<Rightarrow> 's \<Rightarrow> 's" and del :: "'k \<Rightarrow> 's \<Rightarrow> 's"
  assumes ok_upd: "ok s \<Longrightarrow> (\<And>v. key (f v) = key v) \<Longrightarrow> ok (upd f k s)"
    and lookup_upd: "ok s \<Longrightarrow> (\<And>v. key (f v) = key v) \<Longrightarrow>
      lookup (upd f k s) k' = (if k' = k then map_option f (lookup s k) else lookup s k')"
    and ok_add: "ok s \<Longrightarrow> lookup s (key v) = None \<Longrightarrow> ok (add v s)"
    and lookup_add: "ok s \<Longrightarrow> lookup s (key v) = None \<Longrightarrow>
      lookup (add v s) k' = (if k' = key v then Some v else lookup s k')"
    and ok_del: "ok s \<Longrightarrow> ok (del k s)"
    and lookup_del: "ok s \<Longrightarrow> lookup (del k s) k' = (if k' = k then None else lookup s k')"
begin

lemma ok_fold_upd: "(\<And>v. key (f v) = key v) \<Longrightarrow> ok s \<Longrightarrow> ok (fold (upd f) ks s)"
  by (induction ks arbitrary: s) (auto intro: ok_upd)

lemma lookup_fold_upd:
  assumes key: "\<And>v. key (f v) = key v"
  shows "ok s \<Longrightarrow> distinct ks \<Longrightarrow> lookup (fold (upd f) ks s) k =
    (if k \<in> set ks then map_option f (lookup s k) else lookup s k)"
  by (induction ks arbitrary: s) (auto simp: lookup_upd [OF _ key] ok_upd [OF _ key])

lemma lookup_del_add: "ok s \<Longrightarrow> lookup s (key v) = None \<Longrightarrow> lookup (del (key v) (add v s)) = lookup s"
  by (auto simp: fun_eq_iff lookup_del ok_add lookup_add)

end

section \<open>Sequences of operations\<close>

text \<open>Running a sequence of operations, each of which returns a result or fails, and the simulation of one
  such machine by another one.\<close>

fun run_ops :: "('o \<Rightarrow> 's \<Rightarrow> ('r \<times> 's) option) \<Rightarrow> 'o list \<Rightarrow> 's \<Rightarrow> ('r list \<times> 's) option" where
  "run_ops ex [] s = Some ([], s)"
| "run_ops ex (op # ops) s = do { (r, s) \<leftarrow> ex op s; (rs, s) \<leftarrow> run_ops ex ops s; Some (r # rs, s) }"

lemma run_ops_refine:
  assumes step: "\<And>op s. ok s \<Longrightarrow> pred_option (\<lambda>(r, s'). ok s') (ex op s) \<and> map_option (\<lambda>(r, s'). (r, view s')) (ex op s) = ex' op (view s)"
  shows "ok s \<Longrightarrow> map_option (\<lambda>(rs, s'). (rs, view s')) (run_ops ex ops s) = run_ops ex' ops (view s)"
proof (induction ops arbitrary: s)
  case (Cons op ops)
  note st = step [OF Cons.prems, of op]
  show ?case
  proof (cases "ex op s")
    case None
    then show ?thesis using st by simp
  next
    case (Some rs)
    obtain r s1 where rs: "rs = (r, s1)" by (cases rs)
    have ok: "ok s1" "ex' op (view s) = Some (r, view s1)" using st by (simp_all add: Some rs)
    then show ?thesis using Cons.IH [OF ok(1)]
      by (cases "run_ops ex ops s1") (auto simp: Some rs split: prod.splits dest: sym)
  qed
qed simp

lemma run_ops_simulates:
  assumes step: "\<And>op n s a r a'. R (Suc n) s a \<Longrightarrow> ex' op a = Some (r, a') \<Longrightarrow> \<exists>s'. ex op s = Some (r, s') \<and> R n s' a'"
  shows "R (length ops) s a \<Longrightarrow> run_ops ex' ops a = Some (rs, a') \<Longrightarrow> \<exists>s'. run_ops ex ops s = Some (rs, s') \<and> R 0 s' a'"
proof (induction ops arbitrary: s a rs)
  case (Cons op ops)
  obtain r a1 rs1 where a1: "ex' op a = Some (r, a1)" "run_ops ex' ops a1 = Some (rs1, a')" "rs = r # rs1"
    using Cons.prems(2) by (auto split: bind_splits)
  obtain s1 where s1: "ex op s = Some (r, s1)" "R (length ops) s1 a1" using step [OF _ a1(1), of "length ops" s] Cons.prems(1) by auto
  from Cons.IH [OF s1(2) a1(2)] show ?case using s1(1) a1(3) by auto
qed simp

end
