(* ===== verification/Maat.thy ===== *)
theory Maat
  imports Bucket_Table
begin

text \<open>
  MaaT: the time table, validation and the per-row soft locks of
  \<^verbatim>\<open>concurrency_control/maat.cpp\<close>, \<^verbatim>\<open>maat.h\<close>, \<^verbatim>\<open>row_maat.cpp\<close> and \<^verbatim>\<open>row_maat.h\<close>. Every
  transaction has an interval [lower, upper) of possible commit timestamps in the time table;
  \<^verbatim>\<open>validate\<close> shrinks the intervals of conflicting transactions until they agree with an order.
  Each time table operation runs under the mutex of its chain. \<^verbatim>\<open>validate\<close> makes a sequence of
  them under a global semaphore, which keeps two validations apart, and \<^verbatim>\<open>Row_maat::commit\<close> makes
  a sequence of them under the flag of its row, which does not keep it apart from a validation or
  from the commit of another row. The functions \<open>validate\<close> and \<open>maat_commit\<close> are the whole calls, on
  a table that no other thread changes while they run; the lemmas about them hold for such runs.
  \<open>forward_access\<close> is forward validation access by access, and shows what is lost when two commits
  do overlap. A \<^verbatim>\<open>std::set<uint64_t>\<close> is an ascending list without
  duplicates: \<^verbatim>\<open>insert\<close> is \<open>insort_insert\<close>, \<^verbatim>\<open>erase\<close> is \<open>remove1\<close>, iteration goes in list
  order.
\<close>

section \<open>The time table\<close>

datatype MAATState = MAAT_RUNNING | MAAT_VALIDATED | MAAT_COMMITTED | MAAT_ABORTED

record time_entry =
  te_lower :: u64
  te_upper :: u64
  te_key :: u64
  te_state :: MAATState

record time_table =
  table_size :: u64
  tt_table :: "time_entry list list"

definition time_entry_init :: "u64 \<Rightarrow> time_entry" where
  "time_entry_init key = \<lparr>te_lower = 0, te_upper = UINT64_MAX, te_key = key, te_state = MAAT_RUNNING\<rparr>"

definition time_table_init :: "32 word \<Rightarrow> time_table" where
  "time_table_init inflight_max =
     (let n = scast (inflight_max + 1) in \<lparr>table_size = n, tt_table = replicate (unat n) []\<rparr>)"

definition tt_hash :: "time_table \<Rightarrow> u64 \<Rightarrow> nat" where
  "tt_hash tt key = unat (key mod table_size tt)"

definition tt_find :: "time_table \<Rightarrow> u64 \<Rightarrow> time_entry option" where
  "tt_find tt key = List.find (\<lambda>e. te_key e = key) (tt_table tt ! tt_hash tt key)"

definition tt_add :: "time_entry \<Rightarrow> time_table \<Rightarrow> time_table" where
  "tt_add e tt = (let i = tt_hash tt (te_key e)
                  in tt\<lparr>tt_table := (tt_table tt)[i := tt_table tt ! i @ [e]]\<rparr>)"

definition tt_init :: "u64 \<Rightarrow> time_table \<Rightarrow> time_table" where
  "tt_init key tt = (case tt_find tt key of None \<Rightarrow> tt_add (time_entry_init key) tt | Some _ \<Rightarrow> tt)"

definition tt_release :: "u64 \<Rightarrow> time_table \<Rightarrow> time_table" where
  "tt_release key tt = (let i = tt_hash tt key
     in tt\<lparr>tt_table := (tt_table tt)[i := remove_first (\<lambda>e. te_key e = key) (tt_table tt ! i)]\<rparr>)"

definition get_lower :: "time_table \<Rightarrow> u64 \<Rightarrow> u64" where
  "get_lower tt key = (case tt_find tt key of None \<Rightarrow> 0 | Some e \<Rightarrow> te_lower e)"

definition get_upper :: "time_table \<Rightarrow> u64 \<Rightarrow> u64" where
  "get_upper tt key = (case tt_find tt key of None \<Rightarrow> UINT64_MAX | Some e \<Rightarrow> te_upper e)"

definition get_state :: "time_table \<Rightarrow> u64 \<Rightarrow> MAATState" where
  "get_state tt key = (case tt_find tt key of None \<Rightarrow> MAAT_ABORTED | Some e \<Rightarrow> te_state e)"

definition tt_upd :: "(time_entry \<Rightarrow> time_entry) \<Rightarrow> u64 \<Rightarrow> time_table \<Rightarrow> time_table" where
  "tt_upd f key tt = (let i = tt_hash tt key
     in tt\<lparr>tt_table := (tt_table tt)[i := modify_first (\<lambda>e. te_key e = key) f (tt_table tt ! i)]\<rparr>)"

definition set_lower :: "u64 \<Rightarrow> u64 \<Rightarrow> time_table \<Rightarrow> time_table" where
  "set_lower key value = tt_upd (\<lambda>e. e\<lparr>te_lower := value\<rparr>) key"

definition set_upper :: "u64 \<Rightarrow> u64 \<Rightarrow> time_table \<Rightarrow> time_table" where
  "set_upper key value = tt_upd (\<lambda>e. e\<lparr>te_upper := value\<rparr>) key"

definition set_state :: "u64 \<Rightarrow> MAATState \<Rightarrow> time_table \<Rightarrow> time_table" where
  "set_state key value = tt_upd (\<lambda>e. e\<lparr>te_state := value\<rparr>) key"

section \<open>Validation\<close>

record maat_txn =
  mt_id :: u64
  greatest_write_timestamp :: u64
  greatest_read_timestamp :: u64
  uncommitted_writes :: "u64 list"
  uncommitted_reads :: "u64 list"
  uncommitted_writes_y :: "u64 list"
  commit_timestamp :: u64

definition settled :: "MAATState \<Rightarrow> bool" where
  "settled st \<longleftrightarrow> st = MAAT_VALIDATED \<or> st = MAAT_COMMITTED"

text \<open>Lines 51 to 67: one uncommitted write.\<close>

definition see_write :: "time_table \<Rightarrow> u64 \<Rightarrow> u64 \<times> u64 list \<Rightarrow> u64 \<times> u64 list" where
  "see_write tt it = (\<lambda>(upper, after).
     let it_lower = get_lower tt it
     in if upper \<ge> it_lower
        then let st = get_state tt it
             in (if settled st then (if it_lower > 0 then it_lower - 1 else it_lower) else upper,
                 if st = MAAT_RUNNING then insort_insert it after else after)
        else (upper, after))"

text \<open>Lines 74 to 90: one uncommitted read.\<close>

definition see_read :: "time_table \<Rightarrow> u64 \<Rightarrow> u64 \<times> u64 list \<Rightarrow> u64 \<times> u64 list" where
  "see_read tt it = (\<lambda>(lower, before).
     let it_upper = get_upper tt it
     in if lower \<le> it_upper
        then let st = get_state tt it
             in (if settled st then (if it_upper < UINT64_MAX then it_upper + 1 else it_upper) else lower,
                 if st = MAAT_RUNNING then insort_insert it before else before)
        else (lower, before))"

text \<open>Lines 92 to 111: one uncommitted write of a row this transaction writes too.\<close>

definition see_write_y :: "time_table \<Rightarrow> u64 \<Rightarrow> u64 \<times> u64 list \<Rightarrow> u64 \<times> u64 list" where
  "see_write_y tt it = (\<lambda>(lower, after).
     let st = get_state tt it; it_upper = get_upper tt it
     in if st = MAAT_ABORTED then (lower, after)
        else (if settled st \<and> lower \<le> it_upper
              then (if it_upper < UINT64_MAX then it_upper + 1 else it_upper) else lower,
              if st = MAAT_RUNNING then insort_insert it after else after))"

text \<open>Lines 121 to 126.\<close>

definition raise_lower :: "time_table \<Rightarrow> u64 \<Rightarrow> u64 \<Rightarrow> u64 \<Rightarrow> u64" where
  "raise_lower tt upper it lower =
     (let it_upper = get_upper tt it
      in if it_upper > lower \<and> it_upper < upper - 1 then it_upper + 1 else lower)"

text \<open>Lines 127 to 136.\<close>

definition cap_upper :: "u64 \<Rightarrow> u64 \<Rightarrow> time_table \<Rightarrow> time_table" where
  "cap_upper lower it tt =
     (if get_upper tt it \<ge> lower
      then set_upper it (if lower > 0 then lower - 1 else lower) tt else tt)"

text \<open>Lines 137 to 146.\<close>

definition drop_upper :: "time_table \<Rightarrow> u64 \<Rightarrow> u64 \<Rightarrow> u64 \<Rightarrow> u64" where
  "drop_upper tt lower it upper =
     (let it_lower = get_lower tt it; it_upper = get_upper tt it;
          upper = (if it_upper \<noteq> UINT64_MAX \<and> it_upper > lower + 2 \<and> it_upper < upper
                   then it_upper - 2 else upper)
      in if it_lower < upper \<and> it_lower > lower + 1 then it_lower - 1 else upper)"

text \<open>Lines 148 to 157.\<close>

definition lift_lower :: "u64 \<Rightarrow> u64 \<Rightarrow> time_table \<Rightarrow> time_table" where
  "lift_lower upper it tt =
     (if get_lower tt it \<le> upper
      then set_lower it (if upper < UINT64_MAX then upper + 1 else upper) tt else tt)"

text \<open>Lines 40 to 111: the bounds and the running transactions that must be moved.\<close>

definition scan_conflicts :: "maat_txn \<Rightarrow> time_table \<Rightarrow> u64 \<times> u64 \<times> u64 list \<times> u64 list" where
  "scan_conflicts txn tt =
     (let lower = get_lower tt (mt_id txn); upper = get_upper tt (mt_id txn);
          lower = (if lower \<le> greatest_write_timestamp txn
                   then greatest_write_timestamp txn + 1 else lower);
          (upper, after) = fold (see_write tt) (uncommitted_writes txn) (upper, []);
          lower = (if lower \<le> greatest_read_timestamp txn
                   then greatest_read_timestamp txn + 1 else lower);
          (lower, before) = fold (see_read tt) (uncommitted_reads txn) (lower, []);
          (lower, after) = fold (see_write_y tt) (uncommitted_writes_y txn) (lower, after)
      in (lower, upper, before, after))"

definition validate :: "maat_txn \<Rightarrow> time_table \<Rightarrow> (RC \<times> time_table) option" where
  "validate txn tt =
     (let (lower, upper, before, after) = scan_conflicts txn tt; me = mt_id txn
      in if lower \<ge> upper
         then Some (Abort, set_upper me upper (set_lower me lower (set_state me MAAT_ABORTED tt)))
         else do {
           let tt = set_state me MAAT_VALIDATED tt;
           let lower = fold (raise_lower tt upper) before lower;
           let tt = fold (cap_upper lower) before tt;
           let upper = fold (drop_upper tt lower) after upper;
           let tt = fold (lift_lower upper) after tt;
           ASSERT (lower < upper);
           Some (RCOK, set_upper me upper (set_lower me lower tt)) })"

definition find_bound :: "maat_txn \<Rightarrow> time_table \<Rightarrow> RC \<times> maat_txn \<times> time_table" where
  "find_bound txn tt =
     (let lower = get_lower tt (mt_id txn); upper = get_upper tt (mt_id txn)
      in if lower \<ge> upper then (Abort, txn, set_state (mt_id txn) MAAT_VALIDATED tt)
         else (RCOK, txn\<lparr>commit_timestamp := lower\<rparr>, set_state (mt_id txn) MAAT_COMMITTED tt))"

section \<open>The time table is a map\<close>

definition tt_ok :: "time_table \<Rightarrow> bool" where
  "tt_ok tt \<longleftrightarrow> table_size tt \<noteq> 0 \<and> length (tt_table tt) = unat (table_size tt) \<and>
     chains_ok (tt_hash tt) te_key (tt_table tt)"

lemma tt_find_chain: "tt_find tt = chain_find (tt_hash tt) te_key (tt_table tt)"
  by (simp add: fun_eq_iff tt_find_def chain_find_def)

lemma tt_hash_table [simp]: "tt_hash (tt\<lparr>tt_table := x\<rparr>) = tt_hash tt"
  by (simp add: fun_eq_iff tt_hash_def)

interpretation time_map: keyed_table tt_ok te_key tt_find tt_upd tt_add tt_release
proof
  fix tt f k k' and e :: time_entry
  assume ok: "tt_ok tt"
  then have ch: "chains_ok (tt_hash tt) te_key (tt_table tt)" by (simp add: tt_ok_def)
  show "tt_ok (tt_release k tt)"
    using ok chain_find_remove(1) [OF ch] by (simp add: tt_ok_def tt_release_def Let_def)
  show "tt_find (tt_release k tt) k' = (if k' = k then None else tt_find tt k')"
    using chain_find_remove(2) [OF ch] by (simp add: tt_find_chain tt_release_def Let_def)
  show "tt_ok (tt_upd f k tt)" if "\<And>v. te_key (f v) = te_key v"
    using ok chain_find_modify(1) [OF ch, of f, OF that] by (simp add: tt_ok_def tt_upd_def Let_def)
  show "tt_find (tt_upd f k tt) k' = (if k' = k then map_option f (tt_find tt k) else tt_find tt k')"
    if "\<And>v. te_key (f v) = te_key v"
    using chain_find_modify(2) [OF ch, of f, OF that] by (simp add: tt_find_chain tt_upd_def Let_def)
  show "tt_ok (tt_add e tt)" if "tt_find tt (te_key e) = None"
    using ok chain_find_append(1) [OF ch] that by (simp add: tt_ok_def tt_add_def tt_find_chain Let_def)
  show "tt_find (tt_add e tt) k' = (if k' = te_key e then Some e else tt_find tt k')"
    if "tt_find tt (te_key e) = None"
    using chain_find_append(2) [OF ch] that by (simp add: tt_find_chain tt_add_def Let_def)
qed

lemma tt_ok_init:
  assumes "(scast (n + 1 :: 32 word) :: u64) \<noteq> 0"
  shows "tt_ok (time_table_init n)"
  using assms
  by (auto simp: tt_ok_def time_table_init_def Let_def tt_hash_def unat_mod unat_gt_0
      intro!: chains_ok_empty)

lemma tt_init_lookup:
  assumes "tt_ok tt"
  shows "tt_ok (tt_init k tt)"
    and "tt_find (tt_init k tt) k' =
      (if k' = k \<and> tt_find tt k = None then Some (time_entry_init k) else tt_find tt k')"
  using assms time_map.ok_add [of tt "time_entry_init k"] time_map.lookup_add [of tt "time_entry_init k"]
  by (auto simp: tt_init_def time_entry_init_def split: option.split)

lemma modify_first_cong:
  "(\<And>e. List.find P es = Some e \<Longrightarrow> f e = g e) \<Longrightarrow> modify_first P f es = modify_first P g es"
  by (induction es) (auto split: if_splits)

lemma modify_first_id: "(\<And>e. List.find P es = Some e \<Longrightarrow> f e = e) \<Longrightarrow> modify_first P f es = es"
  by (induction es) (auto split: if_splits)

lemma tt_upd_cong: "(\<And>e. tt_find tt k = Some e \<Longrightarrow> f e = g e) \<Longrightarrow> tt_upd f k tt = tt_upd g k tt"
  unfolding tt_upd_def Let_def tt_find_def by (simp cong: modify_first_cong)

lemma tt_upd_id: "(\<And>e. tt_find tt k = Some e \<Longrightarrow> f e = e) \<Longrightarrow> tt_upd f k tt = tt"
  unfolding tt_upd_def Let_def tt_find_def by (simp add: modify_first_id)

section \<open>What validation does to the table\<close>

definition cap_entry :: "u64 \<Rightarrow> time_entry \<Rightarrow> time_entry" where
  "cap_entry lower e = (if te_upper e \<ge> lower
     then e\<lparr>te_upper := if lower > 0 then lower - 1 else lower\<rparr> else e)"

definition lift_entry :: "u64 \<Rightarrow> time_entry \<Rightarrow> time_entry" where
  "lift_entry upper e = (if te_lower e \<le> upper
     then e\<lparr>te_lower := if upper < UINT64_MAX then upper + 1 else upper\<rparr> else e)"

lemma entry_keys [simp]: "te_key (cap_entry l e) = te_key e" "te_key (lift_entry u e) = te_key e"
  by (simp_all add: cap_entry_def lift_entry_def)

lemma entry_override [simp]:
  "(lift_entry u e)\<lparr>te_lower := a, te_upper := b\<rparr> = e\<lparr>te_lower := a, te_upper := b\<rparr>"
  "(cap_entry l e)\<lparr>te_lower := a, te_upper := b\<rparr> = e\<lparr>te_lower := a, te_upper := b\<rparr>"
  by (simp_all add: cap_entry_def lift_entry_def)

lemma cap_upper_upd: "cap_upper lower = tt_upd (cap_entry lower)"
proof (intro ext)
  fix it tt
  show "cap_upper lower it tt = tt_upd (cap_entry lower) it tt"
  proof (cases "get_upper tt it \<ge> lower")
    case True
    then have "cap_upper lower it tt = tt_upd (\<lambda>e. e\<lparr>te_upper := if lower > 0 then lower - 1 else lower\<rparr>) it tt"
      by (simp add: cap_upper_def set_upper_def)
    also have "\<dots> = tt_upd (cap_entry lower) it tt"
      using True by (intro tt_upd_cong) (simp add: get_upper_def cap_entry_def)
    finally show ?thesis .
  next
    case False
    then have "tt_upd (cap_entry lower) it tt = tt"
      by (intro tt_upd_id) (simp add: get_upper_def cap_entry_def)
    with False show ?thesis by (simp add: cap_upper_def)
  qed
qed

lemma lift_lower_upd: "lift_lower upper = tt_upd (lift_entry upper)"
proof (intro ext)
  fix it tt
  show "lift_lower upper it tt = tt_upd (lift_entry upper) it tt"
  proof (cases "get_lower tt it \<le> upper")
    case True
    then have "lift_lower upper it tt =
        tt_upd (\<lambda>e. e\<lparr>te_lower := if upper < UINT64_MAX then upper + 1 else upper\<rparr>) it tt"
      by (simp add: lift_lower_def set_lower_def)
    also have "\<dots> = tt_upd (lift_entry upper) it tt"
      using True by (intro tt_upd_cong) (simp add: get_lower_def lift_entry_def)
    finally show ?thesis .
  next
    case False
    then have "tt_upd (lift_entry upper) it tt = tt"
      by (intro tt_upd_id) (simp add: get_lower_def lift_entry_def)
    with False show ?thesis by (simp add: lift_lower_def)
  qed
qed

lemma distinct_fold:
  "(\<And>x s. distinct (snd s) \<Longrightarrow> distinct (snd (f x s))) \<Longrightarrow> distinct (snd s) \<Longrightarrow> distinct (snd (fold f xs s))"
  by (induction xs arbitrary: s) auto

lemma scan_distinct:
  "scan_conflicts txn tt = (l, u, before, after) \<Longrightarrow> distinct before \<and> distinct after"
proof -
  have W: "distinct (snd s) \<Longrightarrow> distinct (snd (see_write tt x s))" for x s
    by (cases s) (auto simp: see_write_def Let_def distinct_insort_insert)
  have R: "distinct (snd s) \<Longrightarrow> distinct (snd (see_read tt x s))" for x s
    by (cases s) (auto simp: see_read_def Let_def distinct_insort_insert)
  have Y: "distinct (snd s) \<Longrightarrow> distinct (snd (see_write_y tt x s))" for x s
    by (cases s) (auto simp: see_write_y_def Let_def distinct_insort_insert)
  assume "scan_conflicts txn tt = (l, u, before, after)"
  then show ?thesis
    using distinct_fold [of "see_write tt", OF W] distinct_fold [of "see_read tt", OF R]
      distinct_fold [of "see_write_y tt", OF Y]
    by (auto simp: scan_conflicts_def Let_def split: prod.splits) (metis snd_conv distinct.simps(1))+
qed

lemma set_ops_find:
  assumes "tt_ok tt"
  shows "tt_ok (set_lower k v tt)" "tt_ok (set_upper k v tt)" "tt_ok (set_state k st tt)"
    "tt_find (set_lower k v tt) x = (if x = k then map_option (\<lambda>e. e\<lparr>te_lower := v\<rparr>) (tt_find tt k) else tt_find tt x)"
    "tt_find (set_upper k v tt) x = (if x = k then map_option (\<lambda>e. e\<lparr>te_upper := v\<rparr>) (tt_find tt k) else tt_find tt x)"
    "tt_find (set_state k st tt) x = (if x = k then map_option (\<lambda>e. e\<lparr>te_state := st\<rparr>) (tt_find tt k) else tt_find tt x)"
  using assms
  by (simp_all add: set_lower_def set_upper_def set_state_def time_map.ok_upd time_map.lookup_upd)

lemma validate_RCOK:
  assumes ok: "tt_ok tt" and val: "validate txn tt = Some (RCOK, tt')"
  obtains l u before after l' u' where
    "scan_conflicts txn tt = (l, u, before, after)" "l < u"
    "l' = fold (raise_lower tt u) before l" "l' < u'" "tt_ok tt'"
    "u' = fold (drop_upper (fold (cap_upper l') before (set_state (mt_id txn) MAAT_VALIDATED tt)) l') after u"
    "\<And>x. tt_find tt' x = map_option (\<lambda>e.
       if x = mt_id txn then e\<lparr>te_state := MAAT_VALIDATED, te_lower := l', te_upper := u'\<rparr>
       else (if x \<in> set after then lift_entry u' else id) ((if x \<in> set before then cap_entry l' else id) e))
       (tt_find tt x)"
proof -
  obtain l u before after where scan: "scan_conflicts txn tt = (l, u, before, after)"
    by (metis prod_cases4)
  let ?me = "mt_id txn" and ?tt1 = "set_state (mt_id txn) MAAT_VALIDATED tt"
  define l' where "l' = fold (raise_lower ?tt1 u) before l"
  define tt2 where "tt2 = fold (cap_upper l') before ?tt1"
  define u' where "u' = fold (drop_upper tt2 l') after u"
  define tt3 where "tt3 = fold (lift_lower u') after tt2"
  have "raise_lower ?tt1 = raise_lower tt"
    using ok by (auto simp: fun_eq_iff raise_lower_def get_upper_def set_ops_find split: option.split)
  then have l': "l' = fold (raise_lower tt u) before l" by (simp add: l'_def)
  from val scan have lu: "l < u" "l' < u'" and tt': "tt' = set_upper ?me u' (set_lower ?me l' tt3)"
    by (auto simp: validate_def l'_def tt2_def u'_def tt3_def Let_def split: if_splits)
  have dist: "distinct before" "distinct after" using scan_distinct [OF scan] by auto
  have ok1: "tt_ok ?tt1" using ok by (simp add: set_ops_find)
  have ok2: "tt_ok tt2" unfolding tt2_def cap_upper_upd by (rule time_map.ok_fold_upd) (simp_all add: ok1)
  have ok3: "tt_ok tt3" unfolding tt3_def lift_lower_upd by (rule time_map.ok_fold_upd) (simp_all add: ok2)
  have f2: "tt_find tt2 x = (if x \<in> set before then map_option (cap_entry l') (tt_find ?tt1 x) else tt_find ?tt1 x)" for x
    unfolding tt2_def cap_upper_upd by (rule time_map.lookup_fold_upd) (simp_all add: ok1 dist)
  have f3: "tt_find tt3 x = (if x \<in> set after then map_option (lift_entry u') (tt_find tt2 x) else tt_find tt2 x)" for x
    unfolding tt3_def lift_lower_upd by (rule time_map.lookup_fold_upd) (simp_all add: ok2 dist)
  have "tt_find tt' x = map_option (\<lambda>e.
       if x = ?me then e\<lparr>te_state := MAAT_VALIDATED, te_lower := l', te_upper := u'\<rparr>
       else (if x \<in> set after then lift_entry u' else id) ((if x \<in> set before then cap_entry l' else id) e))
       (tt_find tt x)" for x
  proof (cases "x = ?me")
    case True
    with ok ok3 show ?thesis
      by (cases "tt_find tt ?me"; cases "?me \<in> set before"; cases "?me \<in> set after")
        (simp_all add: tt' set_ops_find f3 f2)
  next
    case False
    with ok ok3 show ?thesis
      by (cases "tt_find tt x"; cases "x \<in> set before"; cases "x \<in> set after")
        (simp_all add: tt' set_ops_find f3 f2)
  qed
  moreover have "tt_ok tt'" using ok3 by (simp add: tt' set_ops_find)
  ultimately show thesis using that scan lu l' u'_def tt2_def by blast
qed

section \<open>The bounds that validation computes\<close>

lemma scan_writes:
  "fold (see_write tt) ws (u, A) = (u', A') \<Longrightarrow>
   u' \<le> u \<and> set A \<subseteq> set A' \<and>
   (\<forall>x \<in> set ws. (settled (get_state tt x) \<longrightarrow> u' < get_lower tt x \<or> u' = 0) \<and>
      (get_state tt x = MAAT_RUNNING \<longrightarrow> x \<in> set A' \<or> u' < get_lower tt x))"
proof (induction ws arbitrary: u A)
  case (Cons w ws)
  obtain v B where v: "see_write tt w (u, A) = (v, B)" by (cases "see_write tt w (u, A)")
  have step: "v \<le> u" "set A \<subseteq> set B"
    "settled (get_state tt w) \<longrightarrow> v < get_lower tt w \<or> v = 0"
    "get_state tt w = MAAT_RUNNING \<longrightarrow> w \<in> set B \<or> v < get_lower tt w"
    using v word_pred_less [of "get_lower tt w"]
    by (auto simp: see_write_def Let_def set_insort_insert settled_def not_le word_gt_0
        intro: order.trans [OF less_imp_le] split: if_splits)
  have "fold (see_write tt) ws (v, B) = (u', A')" using Cons.prems v by simp
  from Cons.IH [OF this] step show ?case by (auto dest: le_less_trans)
qed simp

lemma scan_reads:
  "fold (see_read tt) rs (l, B) = (l', B') \<Longrightarrow>
   l \<le> l' \<and> set B \<subseteq> set B' \<and>
   (\<forall>x \<in> set rs. (settled (get_state tt x) \<longrightarrow> get_upper tt x < l' \<or> l' = UINT64_MAX) \<and>
      (get_state tt x = MAAT_RUNNING \<longrightarrow> x \<in> set B' \<or> get_upper tt x < l'))"
proof (induction rs arbitrary: l B)
  case (Cons w ws)
  obtain v C where v: "see_read tt w (l, B) = (v, C)" by (cases "see_read tt w (l, B)")
  have step: "l \<le> v" "set B \<subseteq> set C"
    "settled (get_state tt w) \<longrightarrow> get_upper tt w < v \<or> v = UINT64_MAX"
    "get_state tt w = MAAT_RUNNING \<longrightarrow> w \<in> set C \<or> get_upper tt w < v"
    using v word_succ_greater [of "get_upper tt w"]
    by (auto simp: see_read_def Let_def set_insort_insert settled_def not_le less_UINT64_MAX
        intro: order.trans [OF _ less_imp_le] split: if_splits)
  have "fold (see_read tt) ws (v, C) = (l', B')" using Cons.prems v by simp
  from Cons.IH [OF this] step show ?case
    by (auto dest: less_le_trans simp: word_order.extremum_unique less_UINT64_MAX)
qed simp

lemma scan_writes_y:
  "fold (see_write_y tt) ys (l, A) = (l', A') \<Longrightarrow>
   l \<le> l' \<and> set A \<subseteq> set A' \<and>
   (\<forall>x \<in> set ys. (settled (get_state tt x) \<longrightarrow> get_upper tt x < l' \<or> l' = UINT64_MAX) \<and>
      (get_state tt x = MAAT_RUNNING \<longrightarrow> x \<in> set A'))"
proof (induction ys arbitrary: l A)
  case (Cons w ws)
  obtain v C where v: "see_write_y tt w (l, A) = (v, C)" by (cases "see_write_y tt w (l, A)")
  have step: "l \<le> v" "set A \<subseteq> set C"
    "settled (get_state tt w) \<longrightarrow> get_upper tt w < v \<or> v = UINT64_MAX"
    "get_state tt w = MAAT_RUNNING \<longrightarrow> w \<in> set C"
    using v word_succ_greater [of "get_upper tt w"]
    by (auto simp: see_write_y_def Let_def set_insort_insert settled_def not_le less_UINT64_MAX
        intro: order.trans [OF _ less_imp_le] split: if_splits)
  have "fold (see_write_y tt) ws (v, C) = (l', A')" using Cons.prems v by simp
  from Cons.IH [OF this] step show ?case
    by (auto dest: less_le_trans simp: word_order.extremum_unique less_UINT64_MAX)
qed simp

lemma raise_lower_fold:
  "l < u \<Longrightarrow> l \<le> fold (raise_lower tt u) bs l \<and> fold (raise_lower tt u) bs l < u"
proof (induction bs arbitrary: l)
  case (Cons b bs)
  let ?l = "raise_lower tt u b l"
  have "l \<le> ?l \<and> ?l < u"
  proof (cases "l < get_upper tt b \<and> get_upper tt b < u - 1")
    case True
    then have "get_upper tt b < get_upper tt b + 1"
      by (intro word_succ_greater less_le_trans [OF conjunct2 le_UINT64_MAX])
    moreover have "get_upper tt b + 1 < u" using True Cons.prems by (blast intro: word_succ_less)
    ultimately show ?thesis using True by (auto simp: raise_lower_def)
  qed (use Cons.prems in \<open>auto simp: raise_lower_def Let_def\<close>)
  with Cons.IH [of ?l] show ?case by auto
qed simp

lemma drop_upper_fold:
  "l < u \<Longrightarrow> l < UINT64_MAX - 1 \<Longrightarrow>
   l < fold (drop_upper tt l) as u \<and> fold (drop_upper tt l) as u \<le> u"
proof (induction as arbitrary: u)
  case (Cons a as)
  let ?u = "drop_upper tt l a u"
  have "l < ?u \<and> ?u \<le> u"
  proof -
    define v where "v = (if get_upper tt a \<noteq> UINT64_MAX \<and> get_upper tt a > l + 2 \<and> get_upper tt a < u
      then get_upper tt a - 2 else u)"
    have v: "l < v \<and> v \<le> u"
      using Cons.prems word_minus_two [of l "get_upper tt a"] by (auto simp: v_def intro: less_imp_le less_trans)
    have "?u = (if get_lower tt a < v \<and> get_lower tt a > l + 1 then get_lower tt a - 1 else v)"
      by (simp add: drop_upper_def v_def Let_def)
    with v Cons.prems word_minus_one [of l "get_lower tt a"] show ?thesis by auto
  qed
  with Cons.IH [of ?u] Cons.prems show ?case by auto
qed simp

lemma bump_lower:
  "g \<noteq> UINT64_MAX \<Longrightarrow> (l :: u64) \<le> (if l \<le> g then g + 1 else l) \<and> g < (if l \<le> g then g + 1 else l)"
  using word_succ_greater [of g] by (auto simp: less_UINT64_MAX)

lemma scan_bounds:
  assumes scan: "scan_conflicts txn tt = (l, u, before, after)"
    and max: "greatest_write_timestamp txn \<noteq> UINT64_MAX" "greatest_read_timestamp txn \<noteq> UINT64_MAX"
  shows "get_lower tt (mt_id txn) \<le> l" "u \<le> get_upper tt (mt_id txn)"
    "greatest_write_timestamp txn < l" "greatest_read_timestamp txn < l"
    "x \<in> set (uncommitted_reads txn) \<Longrightarrow> settled (get_state tt x) \<Longrightarrow> get_upper tt x < l \<or> l = UINT64_MAX"
    "x \<in> set (uncommitted_reads txn) \<Longrightarrow> get_state tt x = MAAT_RUNNING \<Longrightarrow> x \<in> set before \<or> get_upper tt x < l"
    "x \<in> set (uncommitted_writes txn) \<Longrightarrow> settled (get_state tt x) \<Longrightarrow> u < get_lower tt x \<or> u = 0"
    "x \<in> set (uncommitted_writes txn) \<Longrightarrow> get_state tt x = MAAT_RUNNING \<Longrightarrow> x \<in> set after \<or> u < get_lower tt x"
    "x \<in> set (uncommitted_writes_y txn) \<Longrightarrow> settled (get_state tt x) \<Longrightarrow> get_upper tt x < l \<or> l = UINT64_MAX"
    "x \<in> set (uncommitted_writes_y txn) \<Longrightarrow> get_state tt x = MAAT_RUNNING \<Longrightarrow> x \<in> set after"
proof -
  define l1 where "l1 = (if get_lower tt (mt_id txn) \<le> greatest_write_timestamp txn
      then greatest_write_timestamp txn + 1 else get_lower tt (mt_id txn))"
  define l2 where "l2 = (if l1 \<le> greatest_read_timestamp txn then greatest_read_timestamp txn + 1 else l1)"
  obtain u1 A1 where W: "fold (see_write tt) (uncommitted_writes txn) (get_upper tt (mt_id txn), []) = (u1, A1)"
    by fastforce
  obtain l3 B1 where R: "fold (see_read tt) (uncommitted_reads txn) (l2, []) = (l3, B1)" by fastforce
  obtain l4 A2 where Y: "fold (see_write_y tt) (uncommitted_writes_y txn) (l3, A1) = (l4, A2)" by fastforce
  have "scan_conflicts txn tt = (l4, u1, B1, A2)"
    by (simp only: scan_conflicts_def Let_def l1_def [symmetric] l2_def [symmetric] W R Y prod.case)
  with scan have eq: "l = l4" "u = u1" "before = B1" "after = A2" by simp_all
  note b1 = bump_lower [OF max(1), of "get_lower tt (mt_id txn)", folded l1_def]
  note b2 = bump_lower [OF max(2), of l1, folded l2_def]
  note w = scan_writes [OF W] and r = scan_reads [OF R] and y = scan_writes_y [OF Y]
  have c: "l1 \<le> l2" "l2 \<le> l3" "l3 \<le> l4" using b2 r y by (blast dest: conjunct1)+
  then have le4: "l2 \<le> l4" "l1 \<le> l4" by (metis order.trans)+
  show "get_lower tt (mt_id txn) \<le> l" "u \<le> get_upper tt (mt_id txn)"
    "greatest_write_timestamp txn < l" "greatest_read_timestamp txn < l"
    unfolding eq using b1 b2 conjunct1 [OF w] le4 by (metis order.trans less_le_trans)+
  show "get_upper tt x < l \<or> l = UINT64_MAX" if "x \<in> set (uncommitted_reads txn)" "settled (get_state tt x)"
    unfolding eq using r y that by (metis less_le_trans word_order.extremum_unique)
  show "x \<in> set before \<or> get_upper tt x < l" if "x \<in> set (uncommitted_reads txn)" "get_state tt x = MAAT_RUNNING"
    unfolding eq using r y that by (metis less_le_trans)
  show "u < get_lower tt x \<or> u = 0" if "x \<in> set (uncommitted_writes txn)" "settled (get_state tt x)"
    unfolding eq using w that by blast
  show "x \<in> set after \<or> u < get_lower tt x" if "x \<in> set (uncommitted_writes txn)" "get_state tt x = MAAT_RUNNING"
    unfolding eq using w y that by blast
  show "get_upper tt x < l \<or> l = UINT64_MAX" if "x \<in> set (uncommitted_writes_y txn)" "settled (get_state tt x)"
    unfolding eq using y that by blast
  show "x \<in> set after" if "x \<in> set (uncommitted_writes_y txn)" "get_state tt x = MAAT_RUNNING"
    unfolding eq using y that by blast
qed

lemma drop_upper_le:
  "l < u \<Longrightarrow> fold (drop_upper tt l) as u \<le> u"
proof (cases "l < UINT64_MAX - 1")
  case False
  assume "l < u"
  have "u = UINT64_MAX"
  proof (rule ccontr)
    assume "u \<noteq> UINT64_MAX"
    then have "u \<le> UINT64_MAX - 1" by (intro word_le_pred) (simp only: less_UINT64_MAX not_False_eq_True)
    with \<open>l < u\<close> have "l < UINT64_MAX - 1" by (rule less_le_trans)
    with False show False ..
  qed
  then show ?thesis by simp
qed (use drop_upper_fold in blast)

lemma cap_entry_upper: "0 < l \<Longrightarrow> te_upper (cap_entry l e) < l \<and> te_upper (cap_entry l e) \<le> te_upper e"
  using word_pred_less [of l] by (auto simp: cap_entry_def)

lemma lift_entry_lower:
  "(u < te_lower (lift_entry u e) \<or> u = UINT64_MAX \<and> te_lower (lift_entry u e) = UINT64_MAX) \<and>
   te_lower e \<le> te_lower (lift_entry u e)"
  using word_succ_greater [of u] by (auto simp: lift_entry_def less_UINT64_MAX not_le)

lemma entry_frames [simp]:
  "te_lower (cap_entry l e) = te_lower e" "te_upper (lift_entry u e) = te_upper e"
  "te_state (cap_entry l e) = te_state e" "te_state (lift_entry u e) = te_state e"
  by (simp_all add: cap_entry_def lift_entry_def)

definition narrower :: "u64 \<Rightarrow> time_table \<Rightarrow> time_table \<Rightarrow> bool" where
  "narrower x tt tt' \<longleftrightarrow> get_lower tt x \<le> get_lower tt' x \<and> get_upper tt' x \<le> get_upper tt x"

definition shrinks :: "time_table \<Rightarrow> time_table \<Rightarrow> bool" where
  "shrinks tt tt' \<longleftrightarrow> (\<forall>x. narrower x tt tt')"

lemma narrower_refl [simp]: "narrower x tt tt"
  by (simp add: narrower_def)

lemma narrower_trans: "narrower x tt tt' \<Longrightarrow> narrower x tt' tt'' \<Longrightarrow> narrower x tt tt''"
  by (auto simp: narrower_def)

lemma shrinks_refl [simp]: "shrinks tt tt"
  by (simp add: shrinks_def narrower_def)

lemma shrinks_trans: "shrinks tt tt' \<Longrightarrow> shrinks tt' tt'' \<Longrightarrow> shrinks tt tt''"
  unfolding shrinks_def narrower_def by (meson order.trans)

text \<open>The outcome of a successful validation, for the transaction and for every other one.\<close>

lemma validate_bounds:
  assumes ok: "tt_ok tt" and val: "validate txn tt = Some (RCOK, tt')"
    and present: "tt_find tt (mt_id txn) \<noteq> None"
    and max: "greatest_write_timestamp txn \<noteq> UINT64_MAX" "greatest_read_timestamp txn \<noteq> UINT64_MAX"
  obtains l u before after l' u' where
    "scan_conflicts txn tt = (l, u, before, after)" "l < u" "l \<le> l'" "u' \<le> u" "l' < u'" "0 < l'"
    "get_lower tt' (mt_id txn) = l'" "get_upper tt' (mt_id txn) = u'" "tt_ok tt'"
    "get_state tt' (mt_id txn) = MAAT_VALIDATED"
    "\<And>x. x \<noteq> mt_id txn \<Longrightarrow> tt_find tt x \<noteq> None \<Longrightarrow> get_lower tt x \<le> get_lower tt' x \<and>
       get_upper tt' x \<le> get_upper tt x \<and> (x \<in> set before \<longrightarrow> get_upper tt' x < l') \<and>
       (x \<in> set after \<longrightarrow> u' < get_lower tt' x \<or> u' = UINT64_MAX \<and> get_lower tt' x = UINT64_MAX)"
    "\<And>x. tt_find tt x = None \<Longrightarrow> tt_find tt' x = None"
proof -
  from validate_RCOK [OF ok val] obtain l u before after l' u' where
    scan: "scan_conflicts txn tt = (l, u, before, after)" "l < u"
    and l': "l' = fold (raise_lower tt u) before l" "l' < u'" and ok': "tt_ok tt'"
    and u': "u' = fold (drop_upper (fold (cap_upper l') before (set_state (mt_id txn) MAAT_VALIDATED tt)) l') after u"
    and find: "\<And>x. tt_find tt' x = map_option (\<lambda>e.
       if x = mt_id txn then e\<lparr>te_state := MAAT_VALIDATED, te_lower := l', te_upper := u'\<rparr>
       else (if x \<in> set after then lift_entry u' else id) ((if x \<in> set before then cap_entry l' else id) e))
       (tt_find tt x)" by blast
  have le: "l \<le> l'" "l' < u" using raise_lower_fold [OF scan(2)] l'(1) by auto
  have "u' \<le> u" unfolding u' using le(2) by (rule drop_upper_le)
  moreover have pos: "0 < l'"
    using scan_bounds(3) [OF scan(1) max] le(1) by (metis le_less_trans less_le_trans word_zero_le)
  moreover have "get_lower tt' (mt_id txn) = l'" "get_upper tt' (mt_id txn) = u'"
    "get_state tt' (mt_id txn) = MAAT_VALIDATED"
    using present find [of "mt_id txn"] by (auto simp: get_lower_def get_upper_def get_state_def)
  moreover have "get_lower tt x \<le> get_lower tt' x \<and>
       get_upper tt' x \<le> get_upper tt x \<and> (x \<in> set before \<longrightarrow> get_upper tt' x < l') \<and>
       (x \<in> set after \<longrightarrow> u' < get_lower tt' x \<or> u' = UINT64_MAX \<and> get_lower tt' x = UINT64_MAX)"
    if "x \<noteq> mt_id txn" "tt_find tt x \<noteq> None" for x
  proof -
    from that(2) obtain e where e: "tt_find tt x = Some e" by blast
    show ?thesis
      using that(1) e find [of x] cap_entry_upper [OF pos, of e] lift_entry_lower [of u' e]
        lift_entry_lower [of u' "cap_entry l' e"]
      by (cases "x \<in> set before"; cases "x \<in> set after") (simp_all add: get_lower_def get_upper_def)
  qed
  moreover have "tt_find tt x = None \<Longrightarrow> tt_find tt' x = None" for x using find [of x] by simp
  ultimately show thesis using that scan le(1) l'(2) ok' by blast
qed

section \<open>The soft locks of a row\<close>

text \<open>
  Every operation of \<^verbatim>\<open>Row_maat\<close> first takes the spin flag \<^verbatim>\<open>maat_avail\<close> and gives it back at
  its end, so operations of one row do not overlap. \<open>rm_row\<close> is the tuple data that \<^verbatim>\<open>write\<close> copies.
\<close>

record row_maat =
  timestamp_last_read :: u64
  timestamp_last_write :: u64
  rm_reads :: "u64 list"
  rm_writes :: "u64 list"
  rm_row :: row_bytes






definition maat_abort :: "workload \<Rightarrow> access_t \<Rightarrow> maat_txn \<Rightarrow> row_maat \<Rightarrow> RC \<times> row_maat" where
  "maat_abort wl ty txn r =
     (Abort,
      if wl = TPCC then r\<lparr>rm_reads := remove1 (mt_id txn) (rm_reads r), rm_writes := remove1 (mt_id txn) (rm_writes r)\<rparr>
      else (let r = (if ty = RD then r\<lparr>rm_reads := remove1 (mt_id txn) (rm_reads r)\<rparr> else r)
            in if ty = WR then r\<lparr>rm_writes := remove1 (mt_id txn) (rm_writes r)\<rparr> else r))"

text \<open>The forward validation loops of \<^verbatim>\<open>commit\<close>: writers and readers that came after this
  transaction's access are ordered after or before it. \<open>forward_lower\<close> and \<open>forward_upper\<close> are one
  iteration each.\<close>

definition forward_lower :: "u64 list \<Rightarrow> u64 \<Rightarrow> u64 \<Rightarrow> time_table \<Rightarrow> time_table" where
  "forward_lower seen bound it tt =
     (if it \<notin> set seen \<and> get_lower tt it \<le> bound then set_lower it (bound + 1) tt else tt)"

definition forward_upper :: "u64 list \<Rightarrow> u64 \<Rightarrow> u64 \<Rightarrow> time_table \<Rightarrow> time_table" where
  "forward_upper seen bound it tt =
     (if it \<notin> set seen \<and> get_upper tt it \<ge> bound then set_upper it (bound - 1) tt else tt)"

text \<open>The iteration of \<open>forward_lower\<close> access by access: \<^verbatim>\<open>get_lower\<close> and \<^verbatim>\<open>set_lower\<close> take the mutex
  of the chain separately.\<close>

datatype fw_pc = FwGet | FwSet | FwDone

fun forward_access :: "u64 list \<Rightarrow> u64 \<Rightarrow> u64 \<Rightarrow> fw_pc \<times> time_table \<Rightarrow> fw_pc \<times> time_table" where
  "forward_access seen bound it (FwGet, tt) =
     (if it \<notin> set seen \<and> get_lower tt it \<le> bound then FwSet else FwDone, tt)"
| "forward_access seen bound it (FwSet, tt) = (FwDone, set_lower it (bound + 1) tt)"
| "forward_access seen bound it (FwDone, tt) = (FwDone, tt)"

text \<open>Two commits on two rows that both meet the transaction \<open>it\<close>, in the order of \<open>sched\<close> (False
  for the first, True for the second).\<close>

fun forward_race :: "u64 list \<times> u64 \<Rightarrow> u64 list \<times> u64 \<Rightarrow> u64 \<Rightarrow> bool list \<Rightarrow> fw_pc \<times> fw_pc \<times> time_table \<Rightarrow>
    fw_pc \<times> fw_pc \<times> time_table" where
  "forward_race a b it [] s = s"
| "forward_race a b it (second # sched) (pa, pb, tt) = forward_race a b it sched
     (if second then (let (pb, tt) = forward_access (fst b) (snd b) it (pb, tt) in (pa, pb, tt))
      else (let (pa, tt) = forward_access (fst a) (snd a) it (pa, tt) in (pa, pb, tt)))"

definition maat_commit ::
  "workload \<Rightarrow> access_t \<Rightarrow> maat_txn \<Rightarrow> row_bytes \<Rightarrow> row_maat \<Rightarrow> time_table \<Rightarrow> RC \<times> row_maat \<times> time_table" where
  "maat_commit wl ty txn data r tt =
     (let me = mt_id txn; cts = commit_timestamp txn in
      if wl = TPCC then
        let r = r\<lparr>timestamp_last_read := (if cts > timestamp_last_read r then cts else timestamp_last_read r),
                  rm_reads := remove1 me (rm_reads r),
                  timestamp_last_write := (if cts > timestamp_last_write r then cts else timestamp_last_write r),
                  rm_writes := remove1 me (rm_writes r), rm_row := data\<rparr>;
            tt = fold (forward_lower (uncommitted_writes txn) cts) (rm_writes r) tt;
            lower = get_lower tt me;
            tt = fold (forward_upper (uncommitted_writes_y txn) cts) (rm_writes r) tt;
            tt = fold (forward_upper (uncommitted_reads txn) lower) (rm_reads r) tt
        in (RCOK, r, tt)
      else if ty = RD then
        let r = r\<lparr>timestamp_last_read := (if cts > timestamp_last_read r then cts else timestamp_last_read r),
                  rm_reads := remove1 me (rm_reads r)\<rparr>;
            tt = fold (forward_lower (uncommitted_writes txn) cts) (rm_writes r) tt
        in (RCOK, r, tt)
      else if ty = WR then
        let r = r\<lparr>timestamp_last_write := (if cts > timestamp_last_write r then cts else timestamp_last_write r),
                  rm_writes := remove1 me (rm_writes r), rm_row := data\<rparr>;
            lower = get_lower tt me;
            tt = fold (forward_upper (uncommitted_writes_y txn) cts) (rm_writes r) tt;
            tt = fold (forward_upper (uncommitted_reads txn) lower) (rm_reads r) tt
        in (RCOK, r, tt)
      else (RCOK, r, tt))"

section \<open>Committing only shrinks intervals\<close>

lemma get_set_lower: "tt_ok tt \<Longrightarrow> get_lower (set_lower k v tt) x =
    (if x = k \<and> tt_find tt k \<noteq> None then v else get_lower tt x)"
  and get_set_upper: "tt_ok tt \<Longrightarrow> get_upper (set_upper k v tt) x =
    (if x = k \<and> tt_find tt k \<noteq> None then v else get_upper tt x)"
  and get_lower_set_upper: "tt_ok tt \<Longrightarrow> get_lower (set_upper k v tt) x = get_lower tt x"
  and get_upper_set_lower: "tt_ok tt \<Longrightarrow> get_upper (set_lower k v tt) x = get_upper tt x"
  by (auto simp: get_lower_def get_upper_def set_ops_find split: option.split)

lemma forward_lower_shrinks:
  assumes "tt_ok tt" "bound \<noteq> UINT64_MAX"
  shows "shrinks tt (forward_lower seen bound it tt) \<and> tt_ok (forward_lower seen bound it tt)"
  using assms word_succ_greater [of bound]
  by (auto simp: shrinks_def narrower_def forward_lower_def get_set_lower get_upper_set_lower less_UINT64_MAX
      set_ops_find(1) intro: order.trans [OF _ less_imp_le])

lemma forward_upper_shrinks:
  assumes "tt_ok tt" "bound \<noteq> 0"
  shows "shrinks tt (forward_upper seen bound it tt) \<and> tt_ok (forward_upper seen bound it tt)"
  using assms word_pred_less [of bound]
  by (auto simp: shrinks_def narrower_def forward_upper_def get_set_upper get_lower_set_upper word_gt_0
      set_ops_find(2) intro: order.trans [OF less_imp_le])

lemma fold_shrinks:
  assumes "\<And>x tt. tt_ok tt \<Longrightarrow> shrinks tt (f x tt) \<and> tt_ok (f x tt)"
  shows "tt_ok tt \<Longrightarrow> shrinks tt (fold f xs tt) \<and> tt_ok (fold f xs tt)"
proof (induction xs arbitrary: tt)
  case (Cons x xs)
  from Cons.IH [of "f x tt"] assms [OF Cons.prems, of x] show ?case by (auto intro: shrinks_trans)
qed simp

lemma forward_folds:
  assumes "tt_ok tt"
  shows "b \<noteq> UINT64_MAX \<Longrightarrow> shrinks tt (fold (forward_lower seen b) xs tt) \<and> tt_ok (fold (forward_lower seen b) xs tt)"
    and "b \<noteq> 0 \<Longrightarrow> shrinks tt (fold (forward_upper seen b) xs tt) \<and> tt_ok (fold (forward_upper seen b) xs tt)"
  using fold_shrinks [of "forward_lower seen b"] fold_shrinks [of "forward_upper seen b"]
    forward_lower_shrinks forward_upper_shrinks assms by blast+

lemma forward_upper_folds:
  assumes "tt_ok tt" "b \<noteq> 0" "c \<noteq> 0"
  shows "shrinks tt (fold (forward_upper s c) ys (fold (forward_upper s' b) xs tt)) \<and>
    tt_ok (fold (forward_upper s c) ys (fold (forward_upper s' b) xs tt))"
  using forward_folds(2) assms shrinks_trans by blast

lemma maat_commit_shrinks:
  assumes ok: "tt_ok tt" and cts: "commit_timestamp txn \<noteq> 0" "commit_timestamp txn \<noteq> UINT64_MAX"
    and low: "get_lower tt (mt_id txn) \<noteq> 0"
    and com: "maat_commit wl ty txn data r tt = (rc, r', tt')"
  shows "shrinks tt tt' \<and> tt_ok tt'"
proof -
  let ?cts = "commit_timestamp txn"
  define t1 where "t1 = fold (forward_lower (uncommitted_writes txn) ?cts) (remove1 (mt_id txn) (rm_writes r)) tt"
  have t1: "shrinks tt t1 \<and> tt_ok t1" unfolding t1_def using ok cts(2) by (rule forward_folds(1))
  have low1: "get_lower t1 (mt_id txn) \<noteq> 0"
  proof
    assume "get_lower t1 (mt_id txn) = 0"
    moreover have "get_lower tt (mt_id txn) \<le> get_lower t1 (mt_id txn)" using t1 by (simp add: shrinks_def narrower_def)
    ultimately show False using low by simp
  qed
  consider "wl = TPCC" | "wl \<noteq> TPCC" "ty = RD" | "wl \<noteq> TPCC" "ty = WR" | "wl \<noteq> TPCC" "ty \<noteq> RD" "ty \<noteq> WR"
    by blast
  then show ?thesis
  proof cases
    case 1
    have "shrinks t1 tt' \<and> tt_ok tt'"
      using com 1 forward_upper_folds [of t1 ?cts "get_lower t1 (mt_id txn)"] t1 cts(1) low1
      by (auto simp: maat_commit_def Let_def t1_def)
    with t1 show ?thesis using shrinks_trans by blast
  next
    case 2
    with com t1 show ?thesis by (auto simp: maat_commit_def Let_def t1_def forward_folds(1) ok cts)
  next
    case 3
    with com forward_upper_folds [of tt ?cts "get_lower tt (mt_id txn)"] ok cts low show ?thesis
      by (auto simp: maat_commit_def Let_def)
  next
    case 4
    with com ok show ?thesis by (auto simp: maat_commit_def Let_def)
  qed
qed

section \<open>Serialization order\<close>

lemma not_aborted_found: "get_state tt x \<noteq> MAAT_ABORTED \<Longrightarrow> tt_find tt x \<noteq> None"
  by (auto simp: get_state_def split: option.splits)

lemma running_or_settled: "st \<noteq> MAAT_ABORTED \<Longrightarrow> st = MAAT_RUNNING \<or> settled st"
  by (cases st) (auto simp: settled_def)

lemma validate_orders:
  assumes ok: "tt_ok tt" and val: "validate txn tt = Some (RCOK, tt')"
    and present: "tt_find tt (mt_id txn) \<noteq> None"
    and max: "greatest_write_timestamp txn \<noteq> UINT64_MAX" "greatest_read_timestamp txn \<noteq> UINT64_MAX"
    and x: "x \<noteq> mt_id txn" "get_state tt x \<noteq> MAAT_ABORTED"
  shows "x \<in> set (uncommitted_reads txn) \<Longrightarrow> get_upper tt' x < get_lower tt' (mt_id txn)"
    and "x \<in> set (uncommitted_writes txn) \<Longrightarrow> get_upper tt' (mt_id txn) < get_lower tt' x \<or>
           get_upper tt' (mt_id txn) = UINT64_MAX \<and> get_lower tt' x = UINT64_MAX"
    and "x \<in> set (uncommitted_writes_y txn) \<Longrightarrow> get_state tt x = MAAT_RUNNING \<Longrightarrow>
           get_upper tt' (mt_id txn) < get_lower tt' x \<or>
           get_upper tt' (mt_id txn) = UINT64_MAX \<and> get_lower tt' x = UINT64_MAX"
    and "x \<in> set (uncommitted_writes_y txn) \<Longrightarrow> settled (get_state tt x) \<Longrightarrow>
           get_upper tt' x < get_lower tt' (mt_id txn)"
proof -
  obtain l u before after l' u' where
    scan: "scan_conflicts txn tt = (l, u, before, after)" and b: "l < u" "l \<le> l'" "u' \<le> u" "l' < u'" "0 < l'"
    and me: "get_lower tt' (mt_id txn) = l'" "get_upper tt' (mt_id txn) = u'" and ok': "tt_ok tt'"
      "get_state tt' (mt_id txn) = MAAT_VALIDATED"
    and others: "\<And>x. x \<noteq> mt_id txn \<Longrightarrow> tt_find tt x \<noteq> None \<Longrightarrow> get_lower tt x \<le> get_lower tt' x \<and>
       get_upper tt' x \<le> get_upper tt x \<and> (x \<in> set before \<longrightarrow> get_upper tt' x < l') \<and>
       (x \<in> set after \<longrightarrow> u' < get_lower tt' x \<or> u' = UINT64_MAX \<and> get_lower tt' x = UINT64_MAX)"
    and none: "\<And>x. tt_find tt x = None \<Longrightarrow> tt_find tt' x = None"
    by (rule validate_bounds [OF ok val present max]) (rule that)
  note sb = scan_bounds [OF scan max]
  note ot = others [OF x(1) not_aborted_found [OF x(2)]]
  have nmax: "l \<noteq> UINT64_MAX" using b(1) by (metis le_UINT64_MAX leD)
  have nzero: "u \<noteq> 0" using b(1) by (metis word_zero_le leD)
  have up: "get_upper tt' x < l'" if "get_upper tt x < l"
    using that ot b(2) by (metis le_less_trans less_le_trans)
  have lo: "u' < get_lower tt' x" if "u < get_lower tt x"
    using that ot b(3) by (metis le_less_trans less_le_trans)
  show "get_upper tt' x < get_lower tt' (mt_id txn)" if "x \<in> set (uncommitted_reads txn)"
    using that running_or_settled [OF x(2)] sb(5,6) ot up nmax unfolding me by blast
  show "get_upper tt' (mt_id txn) < get_lower tt' x \<or>
      get_upper tt' (mt_id txn) = UINT64_MAX \<and> get_lower tt' x = UINT64_MAX"
    if "x \<in> set (uncommitted_writes txn)"
    using that running_or_settled [OF x(2)] sb(7,8) ot lo nzero unfolding me by blast
  show "get_upper tt' (mt_id txn) < get_lower tt' x \<or>
      get_upper tt' (mt_id txn) = UINT64_MAX \<and> get_lower tt' x = UINT64_MAX"
    if "x \<in> set (uncommitted_writes_y txn)" "get_state tt x = MAAT_RUNNING"
    using that sb(10) ot unfolding me by blast
  show "get_upper tt' x < get_lower tt' (mt_id txn)"
    if "x \<in> set (uncommitted_writes_y txn)" "settled (get_state tt x)"
    using that sb(9) up nmax unfolding me by blast
qed

lemma find_bound_RCOK:
  "find_bound txn tt = (RCOK, txn', tt') \<Longrightarrow>
   commit_timestamp txn' = get_lower tt (mt_id txn) \<and> get_lower tt (mt_id txn) < get_upper tt (mt_id txn)"
  by (auto simp: find_bound_def Let_def not_le split: if_splits)

lemma validate_shrinks:
  assumes ok: "tt_ok tt" and val: "validate txn tt = Some (rc, tt')"
    and present: "tt_find tt (mt_id txn) \<noteq> None"
    and max: "greatest_write_timestamp txn \<noteq> UINT64_MAX" "greatest_read_timestamp txn \<noteq> UINT64_MAX"
  shows "shrinks tt tt' \<and> tt_ok tt'"
proof (cases "rc = RCOK")
  case True
  with val have val: "validate txn tt = Some (RCOK, tt')" by simp
  obtain l u before after l' u' where
    scan: "scan_conflicts txn tt = (l, u, before, after)" and b: "l < u" "l \<le> l'" "u' \<le> u" "l' < u'" "0 < l'"
    and me: "get_lower tt' (mt_id txn) = l'" "get_upper tt' (mt_id txn) = u'" and ok': "tt_ok tt'"
      "get_state tt' (mt_id txn) = MAAT_VALIDATED"
    and others: "\<And>x. x \<noteq> mt_id txn \<Longrightarrow> tt_find tt x \<noteq> None \<Longrightarrow> get_lower tt x \<le> get_lower tt' x \<and>
       get_upper tt' x \<le> get_upper tt x \<and> (x \<in> set before \<longrightarrow> get_upper tt' x < l') \<and>
       (x \<in> set after \<longrightarrow> u' < get_lower tt' x \<or> u' = UINT64_MAX \<and> get_lower tt' x = UINT64_MAX)"
    and none: "\<And>x. tt_find tt x = None \<Longrightarrow> tt_find tt' x = None"
    by (rule validate_bounds [OF ok val present max]) (rule that)
  have "get_lower tt x \<le> get_lower tt' x \<and> get_upper tt' x \<le> get_upper tt x" for x
  proof (cases "x = mt_id txn")
    case True
    then show ?thesis using scan_bounds(1,2) [OF scan max] b me by (metis order.trans)
  next
    case False
    then show ?thesis
      using others [OF False] none [of x]
      by (cases "tt_find tt x = None") (simp add: get_lower_def get_upper_def, blast)
  qed
  then show ?thesis using ok'(1) by (simp add: shrinks_def narrower_def)
next
  case False
  obtain l u before after where scan: "scan_conflicts txn tt = (l, u, before, after)" by (metis prod_cases4)
  with val False have tt': "tt' = set_upper (mt_id txn) u (set_lower (mt_id txn) l (set_state (mt_id txn) MAAT_ABORTED tt))"
    by (auto simp: validate_def Let_def split: if_splits)
  have "get_lower (set_state k st tt) x = get_lower tt x" "get_upper (set_state k st tt) x = get_upper tt x" for k st x
    using ok by (auto simp: get_lower_def get_upper_def set_ops_find split: option.split)
  then show ?thesis
    using ok scan_bounds(1,2) [OF scan max] unfolding tt'
    by (auto simp: shrinks_def narrower_def get_set_lower get_set_upper get_lower_set_upper get_upper_set_lower set_ops_find(1-3))
qed

text \<open>C6: MaaT serializes conflicting transactions. Let a transaction validate on a table that
  no other thread changes meanwhile, and let it and a transaction it conflicts with take their
  commit timestamps later, each at a time of its own, when its interval still lies in the one that
  the validation left it; entries of all other transactions may have come and gone. Then the two
  commit on the side that the access demands: readers of what it writes commit before it, writers
  of what it reads commit after it, and other writers of what it writes commit before it if they
  had validated and after it otherwise.\<close>

theorem maat_commit_order:
  assumes "tt_ok tt" and "validate txn tt = Some (RCOK, tt')"
    and "tt_find tt (mt_id txn) \<noteq> None"
    and "greatest_write_timestamp txn \<noteq> UINT64_MAX" "greatest_read_timestamp txn \<noteq> UINT64_MAX"
    and "narrower (mt_id txn) tt' tt1" "find_bound txn tt1 = (RCOK, txn', tt2)"
    and "narrower (mt_id other) tt' tt3" "find_bound other tt3 = (RCOK, other', tt4)"
    and "mt_id other \<noteq> mt_id txn" "get_state tt (mt_id other) \<noteq> MAAT_ABORTED"
  shows "(mt_id other \<in> set (uncommitted_reads txn) \<longrightarrow> commit_timestamp other' < commit_timestamp txn') \<and>
         (mt_id other \<in> set (uncommitted_writes txn) \<longrightarrow> commit_timestamp txn' < commit_timestamp other') \<and>
         (mt_id other \<in> set (uncommitted_writes_y txn) \<longrightarrow>
            (if get_state tt (mt_id other) = MAAT_RUNNING
             then commit_timestamp txn' < commit_timestamp other'
             else commit_timestamp other' < commit_timestamp txn'))"
proof -
  let ?t = "mt_id txn" and ?o = "mt_id other"
  note ord = validate_orders [OF assms(1-5,10,11)]
  have c: "commit_timestamp txn' = get_lower tt1 ?t" "get_lower tt1 ?t < get_upper tt1 ?t"
    "commit_timestamp other' = get_lower tt3 ?o" "get_lower tt3 ?o < get_upper tt3 ?o"
    using find_bound_RCOK [OF assms(7)] find_bound_RCOK [OF assms(9)] by auto
  have s: "get_lower tt' ?t \<le> get_lower tt1 ?t" "get_upper tt1 ?t \<le> get_upper tt' ?t"
    "get_lower tt' ?o \<le> get_lower tt3 ?o" "get_upper tt3 ?o \<le> get_upper tt' ?o"
    using assms(6,8) by (auto simp: narrower_def)
  have before: "commit_timestamp other' < commit_timestamp txn'" if "get_upper tt' ?o < get_lower tt' ?t"
    using that c s by (metis less_le_trans less_trans)
  have after: "commit_timestamp txn' < commit_timestamp other'"
    if "get_upper tt' ?t < get_lower tt' ?o \<or> get_upper tt' ?t = UINT64_MAX \<and> get_lower tt' ?o = UINT64_MAX"
  proof -
    have "get_lower tt' ?o \<noteq> UINT64_MAX"
      using s(3) c(4) by (metis le_UINT64_MAX less_le_trans order.strict_trans1 less_irrefl)
    with that have "get_upper tt' ?t < get_lower tt' ?o" by blast
    with c s show ?thesis by (metis less_le_trans less_trans)
  qed
  show ?thesis
    using ord before after running_or_settled [OF assms(11)] by auto
qed

text \<open>The operations of other transactions, run one at a time, narrow the interval of a
  transaction \<open>x\<close> or leave it alone: validations and row commits of any transaction, \<^verbatim>\<open>find_bound\<close>, the
  entry of a new transaction and the removal of any entry but that of \<open>x\<close>.\<close>

inductive maat_step :: "u64 \<Rightarrow> time_table \<Rightarrow> time_table \<Rightarrow> bool" for x where
  validating: "maat_step x tt tt'"
    if "validate txn tt = Some (rc, tt')" "tt_find tt (mt_id txn) \<noteq> None"
      "greatest_write_timestamp txn \<noteq> UINT64_MAX" "greatest_read_timestamp txn \<noteq> UINT64_MAX"
| committing: "maat_step x tt tt'"
    if "maat_commit wl ty txn data r tt = (rc, r', tt')" "commit_timestamp txn \<notin> {0, UINT64_MAX}" "get_lower tt (mt_id txn) \<noteq> 0"
| binding: "maat_step x tt tt'" if "find_bound txn tt = (rc, txn', tt')"
| entering: "maat_step x tt (tt_init k tt)"
| leaving: "maat_step x tt (tt_release k tt)" if "k \<noteq> x"

lemma maat_step_narrower:
  assumes "maat_step x tt tt'" "tt_ok tt"
  shows "narrower x tt tt' \<and> tt_ok tt'"
  using assms(1)
proof cases
  case validating
  then show ?thesis using validate_shrinks [OF assms(2)] by (auto simp: shrinks_def)
next
  case committing
  then show ?thesis using maat_commit_shrinks [OF assms(2)] by (auto simp: shrinks_def)
next
  case binding
  then show ?thesis
    using assms(2) by (auto simp: find_bound_def Let_def narrower_def get_lower_def get_upper_def set_ops_find
        split: if_splits option.split)
next
  case entering
  then show ?thesis
    using tt_init_lookup [OF assms(2)] by (auto simp: narrower_def get_lower_def get_upper_def time_entry_init_def split: option.split)
next
  case leaving
  then show ?thesis
    using time_map.lookup_del [OF assms(2)] time_map.ok_del [OF assms(2)] by (simp add: narrower_def get_lower_def get_upper_def)
qed

lemma maat_steps_narrower:
  "(maat_step x)\<^sup>*\<^sup>* tt tt' \<Longrightarrow> tt_ok tt \<Longrightarrow> narrower x tt tt' \<and> tt_ok tt'"
  by (induction rule: rtranclp_induct) (simp, meson maat_step_narrower narrower_trans)

section \<open>Overlapping commits\<close>

text \<open>C8: Forward validation loses updates. The check and the update of a bound are two critical
  sections. When two commits run one after the other, in either order, a running writer that both
  must precede gets a lower bound above both commit timestamps. When their accesses overlap, the
  one with the smaller timestamp can overwrite the bound that the other has just set, and the
  writer is left free to commit before a transaction that it must follow.\<close>

theorem forward_validation_lost_update:
  assumes "tt_ok tt" and "tt_find tt it \<noteq> None" and "it \<notin> set (fst a)" "it \<notin> set (fst b)"
    and "get_lower tt it \<le> snd a" "snd a < snd b" "snd b < UINT64_MAX"
  shows "(let (pa, pb, tt') = forward_race a b it [False, False, True, True] (FwGet, FwGet, tt)
            in pa = FwDone \<and> pb = FwDone \<and> get_lower tt' it = snd b + 1) \<and>
         (let (pa, pb, tt') = forward_race a b it [True, True, False, False] (FwGet, FwGet, tt)
            in pa = FwDone \<and> pb = FwDone \<and> get_lower tt' it = snd b + 1) \<and>
         (let (pa, pb, tt') = forward_race a b it [False, True, True, False] (FwGet, FwGet, tt)
            in pa = FwDone \<and> pb = FwDone \<and> get_lower tt' it = snd a + 1 \<and> get_lower tt' it \<le> snd b)"
proof -
  have le: "get_lower tt it \<le> snd b" "snd a + 1 \<le> snd b" "\<not> snd b + 1 \<le> snd a"
    using assms(5-7) word_succ_greater [of "snd b"] by (auto simp: inc_le less_UINT64_MAX)
  note get = get_set_lower [OF assms(1)] get_set_lower [OF set_ops_find(1) [OF assms(1)]] set_ops_find(4) [OF assms(1)]
  show ?thesis using assms(2-5) le by (simp add: get)
qed

section \<open>The assertion of validation\<close>

definition roomy :: "time_table \<Rightarrow> bool" where
  "roomy tt \<longleftrightarrow> (\<forall>x. get_upper tt x < UINT64_MAX - 2 \<or> get_upper tt x = UINT64_MAX)"

lemma word_roomy_succ: "(x :: u64) < UINT64_MAX - 2 \<Longrightarrow> x + 1 < UINT64_MAX - 1"
  by (simp add: word_less_nat_alt unat_plus_if' unat_sub_if' unat_UINT64_MAX word_le_nat_alt)

lemma fold_inv: "(\<And>x s. P s \<Longrightarrow> P (f x s)) \<Longrightarrow> P s \<Longrightarrow> P (fold f xs s)"
  by (induction xs arbitrary: s) auto

lemma scan_roomy:
  assumes "roomy tt" and "get_lower tt (mt_id txn) < UINT64_MAX - 1"
    and "greatest_write_timestamp txn < UINT64_MAX - 2" "greatest_read_timestamp txn < UINT64_MAX - 2"
    and scan: "scan_conflicts txn tt = (l, u, before, after)"
  shows "l < UINT64_MAX - 1 \<or> l = UINT64_MAX"
proof -
  let ?P = "\<lambda>s :: u64 \<times> u64 list. fst s < UINT64_MAX - 1 \<or> fst s = UINT64_MAX"
  have ne: "get_upper tt x \<noteq> UINT64_MAX \<Longrightarrow> get_upper tt x + 1 < UINT64_MAX - 1" for x
    using assms(1) word_roomy_succ by (auto simp: roomy_def)
  have R: "?P s \<Longrightarrow> ?P (see_read tt x s)" for x s
    using ne [of x] by (cases s) (auto simp: see_read_def Let_def less_UINT64_MAX)
  have Y: "?P s \<Longrightarrow> ?P (see_write_y tt x s)" for x s
    using ne [of x] by (cases s) (auto simp: see_write_y_def Let_def less_UINT64_MAX)
  define l1 where "l1 = (if get_lower tt (mt_id txn) \<le> greatest_write_timestamp txn
      then greatest_write_timestamp txn + 1 else get_lower tt (mt_id txn))"
  define l2 where "l2 = (if l1 \<le> greatest_read_timestamp txn then greatest_read_timestamp txn + 1 else l1)"
  obtain u1 A1 where W: "fold (see_write tt) (uncommitted_writes txn) (get_upper tt (mt_id txn), []) = (u1, A1)"
    by fastforce
  obtain l3 B1 where R3: "fold (see_read tt) (uncommitted_reads txn) (l2, []) = (l3, B1)" by fastforce
  obtain l4 A2 where Y4: "fold (see_write_y tt) (uncommitted_writes_y txn) (l3, A1) = (l4, A2)" by fastforce
  have "scan_conflicts txn tt = (l4, u1, B1, A2)"
    by (simp only: scan_conflicts_def Let_def l1_def [symmetric] l2_def [symmetric] W R3 Y4 prod.case)
  with scan have l: "l = l4" by simp
  have "l2 < UINT64_MAX - 1" using assms(2-4) word_roomy_succ by (auto simp: l1_def l2_def)
  then have "?P (l3, B1)"
    using fold_inv [of ?P "see_read tt" "(l2, [])", OF R] R3 by (metis fst_conv)
  then have "?P (l4, A2)"
    using fold_inv [of ?P "see_write_y tt" "(l3, A1)", OF Y] Y4 by (metis fst_conv)
  then show ?thesis by (simp add: l)
qed

lemma raise_roomy:
  assumes "roomy tt" "l < u" "l < UINT64_MAX - 1"
  shows "fold (raise_lower tt u) bs l < UINT64_MAX - 1"
proof (rule fold_inv [of "\<lambda>l. l < UINT64_MAX - 1"])
  fix x l
  assume l: "l < UINT64_MAX - 1"
  have "get_upper tt x + 1 < UINT64_MAX - 1" if "get_upper tt x < u - 1"
  proof -
    have "get_upper tt x \<noteq> UINT64_MAX" using that by (metis le_UINT64_MAX leD)
    with assms(1) show ?thesis using word_roomy_succ by (auto simp: roomy_def)
  qed
  with l show "raise_lower tt u x l < UINT64_MAX - 1" by (simp add: raise_lower_def Let_def)
qed (rule assms(3))

text \<open>C9: The assertion of \<^verbatim>\<open>validate\<close> holds: while the timestamps in use stay below the top two
  values of the 64-bit range, validation always returns.\<close>

theorem validate_assert_holds:
  assumes "tt_ok tt" and "roomy tt" and "get_lower tt (mt_id txn) < UINT64_MAX - 1"
    and "greatest_write_timestamp txn < UINT64_MAX - 2" "greatest_read_timestamp txn < UINT64_MAX - 2"
  shows "\<exists>rc tt'. validate txn tt = Some (rc, tt') \<and> (rc = RCOK \<or> rc = Abort)"
proof -
  obtain l u before after where scan: "scan_conflicts txn tt = (l, u, before, after)" by (metis prod_cases4)
  show ?thesis
  proof (cases "l < u")
    case False
    then show ?thesis by (simp add: validate_def scan not_less Let_def)
  next
    case True
    let ?tt = "set_state (mt_id txn) MAAT_VALIDATED tt"
    have up: "get_upper ?tt x = get_upper tt x" for x
      using assms(1) by (auto simp: get_upper_def set_ops_find split: option.split)
    have "l \<noteq> UINT64_MAX" using True by (metis le_UINT64_MAX leD)
    with scan_roomy [OF assms(2-5) scan] have l: "l < UINT64_MAX - 1" by blast
    have "roomy ?tt" using assms(2) by (simp add: roomy_def up)
    from raise_roomy [OF this True l, of before] raise_lower_fold [OF True, of ?tt before]
    have "fold (raise_lower ?tt u) before l < fold (drop_upper tt2 (fold (raise_lower ?tt u) before l)) after u" for tt2
      by (intro conjunct1 [OF drop_upper_fold]) auto
    with True show ?thesis by (simp add: validate_def scan Let_def)
  qed
qed

section \<open>Access order\<close>

lemma set_fold_insort_insert: "set (fold insort_insert xs ys) = set xs \<union> set ys"
  by (induction xs arbitrary: ys) (auto simp: set_insort_insert)


section \<open>A concrete run\<close>

lemma tt_find_init:
  "(scast (n + 1 :: 32 word) :: u64) \<noteq> 0 \<Longrightarrow> tt_find (time_table_init n) x = None"
  by (simp add: tt_find_def time_table_init_def Let_def tt_hash_def unat_mod unat_gt_0)

definition demo_tt :: time_table where
  "demo_tt = tt_init 2 (tt_init 1 (time_table_init 2))"

definition demo_txn :: "u64 \<Rightarrow> u64 list \<Rightarrow> u64 list \<Rightarrow> maat_txn" where
  "demo_txn i reads writes = \<lparr>mt_id = i, greatest_write_timestamp = 5, greatest_read_timestamp = 0,
     uncommitted_writes = writes, uncommitted_reads = reads, uncommitted_writes_y = [], commit_timestamp = 0\<rparr>"

definition demo_tt' :: time_table where
  "demo_tt' = \<lparr>table_size = 3, tt_table = [[],
     [\<lparr>te_lower = 6, te_upper = UINT64_MAX, te_key = 1, te_state = MAAT_VALIDATED\<rparr>],
     [\<lparr>te_lower = 0, te_upper = 5, te_key = 2, te_state = MAAT_RUNNING\<rparr>]]\<rparr>"

lemma demo_validate: "validate (demo_txn 1 [2] []) demo_tt = Some (RCOK, demo_tt')"
  by code_simp

lemma demo_tt_ok: "tt_ok demo_tt"
  unfolding demo_tt_def by (intro tt_init_lookup tt_ok_init) simp

lemma demo_present: "tt_find demo_tt 1 \<noteq> None" "tt_find demo_tt 2 \<noteq> None"
  by code_simp+

theorem maat_commit_order_witness:
  "\<exists>tt' t t' tt2 tt4. validate (demo_txn 1 [2] []) demo_tt = Some (RCOK, tt') \<and>
     find_bound (demo_txn 2 [] []) tt' = (RCOK, t', tt4) \<and>
     find_bound (demo_txn 1 [2] []) (tt_release 2 (tt_init 3 tt')) = (RCOK, t, tt2) \<and>
     commit_timestamp t' < commit_timestamp t"
proof -
  let ?tt1 = "tt_release 2 (tt_init 3 demo_tt')"
  have 1: "fst (find_bound (demo_txn 1 [2] []) ?tt1) = RCOK" by code_simp
  have 2: "fst (find_bound (demo_txn 2 [] []) demo_tt') = RCOK" by code_simp
  obtain t tt2 where t: "find_bound (demo_txn 1 [2] []) ?tt1 = (RCOK, t, tt2)" using 1 by (metis prod.collapse)
  obtain t' tt4 where t': "find_bound (demo_txn 2 [] []) demo_tt' = (RCOK, t', tt4)" using 2 by (metis prod.collapse)
  have ok: "tt_ok demo_tt'" using validate_shrinks [OF demo_tt_ok demo_validate] demo_present by (simp add: demo_txn_def)
  have "maat_step 1 demo_tt' (tt_init 3 demo_tt')" "maat_step 1 (tt_init 3 demo_tt') ?tt1"
    by (rule entering, rule leaving) simp
  then have "(maat_step 1)\<^sup>*\<^sup>* demo_tt' ?tt1" by (rule converse_rtranclp_into_rtranclp [OF _ r_into_rtranclp])
  then have n: "narrower (mt_id (demo_txn 1 [2] [])) demo_tt' ?tt1"
    using maat_steps_narrower [OF _ ok] by (simp add: demo_txn_def)
  have st: "get_state demo_tt 2 \<noteq> MAAT_ABORTED" by code_simp
  have "commit_timestamp t' < commit_timestamp t"
    using maat_commit_order [OF demo_tt_ok demo_validate _ _ _ n t narrower_refl t'] st demo_present
    by (simp add: demo_txn_def)
  with demo_validate t t' show ?thesis by blast
qed

theorem forward_validation_lost_update_witness:
  "get_lower (snd (snd (forward_race ([], 10) ([], 100) 2 [False, True, True, False] (FwGet, FwGet, demo_tt)))) 2 = 11"
  using forward_validation_lost_update [OF demo_tt_ok demo_present(2), of "([], 10)" "([], 100)"]
  by (simp add: split_beta) (simp add: demo_tt_def get_lower_def tt_init_lookup tt_ok_init tt_find_init time_entry_init_def)

theorem validate_assert_holds_witness:
  "roomy demo_tt \<and> (\<exists>rc tt'. validate (demo_txn 1 [2] []) demo_tt = Some (rc, tt') \<and> (rc = RCOK \<or> rc = Abort))"
proof -
  have "get_upper demo_tt x = UINT64_MAX" for x
    unfolding demo_tt_def get_upper_def
    by (simp add: tt_init_lookup tt_ok_init tt_find_init time_entry_init_def split: option.split)
  then have room: "roomy demo_tt" by (simp add: roomy_def)
  moreover have "get_lower demo_tt (mt_id (demo_txn 1 [2] [])) < UINT64_MAX - 1"
    "greatest_write_timestamp (demo_txn 1 [2] []) < UINT64_MAX - 2"
    "greatest_read_timestamp (demo_txn 1 [2] []) < UINT64_MAX - 2" by code_simp+
  ultimately show ?thesis using validate_assert_holds [OF demo_tt_ok room] by blast
qed


text \<open>A validated transaction with an unbounded interval stops every running writer it
  conflicts with. If validation leaves the upper bound at the largest timestamp, the lower bound of
  each such writer is set to that value too, and whatever happens later its \<^verbatim>\<open>find_bound\<close> aborts.\<close>

theorem unbounded_validation_aborts_writers:
  assumes "tt_ok tt" and "validate txn tt = Some (RCOK, tt')" and "tt_find tt (mt_id txn) \<noteq> None"
    and "greatest_write_timestamp txn \<noteq> UINT64_MAX" "greatest_read_timestamp txn \<noteq> UINT64_MAX"
    and "get_upper tt' (mt_id txn) = UINT64_MAX"
    and "mt_id other \<noteq> mt_id txn" "get_state tt (mt_id other) = MAAT_RUNNING"
    and "mt_id other \<in> set (uncommitted_writes txn) \<union> set (uncommitted_writes_y txn)"
    and "narrower (mt_id other) tt' tt2"
  shows "get_lower tt' (mt_id other) = UINT64_MAX \<and> fst (find_bound other tt2) = Abort"
proof -
  have "get_lower tt' (mt_id other) = UINT64_MAX"
    using validate_orders(2,3) [OF assms(1-5,7)] assms(6,8,9) by auto
  then have "get_lower tt2 (mt_id other) = UINT64_MAX"
    using assms(10) by (metis narrower_def word_order.extremum_unique)
  with \<open>get_lower tt' (mt_id other) = UINT64_MAX\<close> show ?thesis by (simp add: find_bound_def)
qed

theorem unbounded_validation_aborts_writers_witness:
  "\<exists>tt'. validate (demo_txn 1 [] [2]) demo_tt = Some (RCOK, tt') \<and> get_upper tt' 1 = UINT64_MAX \<and>
     fst (find_bound (demo_txn 2 [] []) tt') = Abort"
proof -
  have "map_option (\<lambda>(rc, tt'). (rc, get_upper tt' 1)) (validate (demo_txn 1 [] [2]) demo_tt) = Some (RCOK, UINT64_MAX)"
    by code_simp
  then obtain tt' where v: "validate (demo_txn 1 [] [2]) demo_tt = Some (RCOK, tt')" "get_upper tt' 1 = UINT64_MAX"
    by auto
  have st: "get_state demo_tt 2 = MAAT_RUNNING" by code_simp
  show ?thesis
    using unbounded_validation_aborts_writers [OF demo_tt_ok v(1), of "demo_txn 2 [] []" tt'] v demo_present st
    by (simp add: demo_txn_def)
qed

text \<open>At the very end of the range the assertion can fail: \<^verbatim>\<open>lower + 2\<close> wraps around.\<close>

lemma validate_wraps:
  "validate (demo_txn 1 [] [2])
     \<lparr>table_size = 3, tt_table = [[],
        [\<lparr>te_lower = UINT64_MAX - 1, te_upper = UINT64_MAX, te_key = 1, te_state = MAAT_RUNNING\<rparr>],
        [\<lparr>te_lower = 0, te_upper = 5, te_key = 2, te_state = MAAT_RUNNING\<rparr>]]\<rparr> = None"
  by code_simp

end
