(* ===== verification/Request_List.thy ===== *)
theory Request_List
  imports Deneva_Base
begin

text \<open>
  The request buffers of the timestamp based row managers \<^verbatim>\<open>row_ts.cpp\<close> and \<^verbatim>\<open>row_mvcc.cpp\<close>: both
  keep singly linked stacks of requests and share three loops, unlinking the request of a
  transaction, unlinking every request up to a timestamp, and the least timestamp of a buffer.
  The loops are written once over the field selectors of the request type. The fields of
  \<^verbatim>\<open>TxnManager\<close> both managers use are here as well.
\<close>

record mv_txn =
  mvt_id :: txnid_t
  mvt_ts :: ts_t
  ts_ready :: bool
  cur_row :: row_bytes

type_synonym mv_store = "txn_ptr \<Rightarrow> mv_txn"

fun unlink_req :: "('q \<Rightarrow> txn_ptr) \<Rightarrow> txn_ptr \<Rightarrow> 'q list \<Rightarrow> ('q \<times> 'q list) option" where
  "unlink_req tx t [] = None"
| "unlink_req tx t (q # qs) =
     (if tx q = t then Some (q, qs)
      else map_option (\<lambda>(e, rest). (e, q # rest)) (unlink_req tx t qs))"

definition min_req_ts :: "('q \<Rightarrow> ts_t) \<Rightarrow> 'q list \<Rightarrow> ts_t" where
  "min_req_ts ts qs = fold (\<lambda>q m. if ts q < m then ts q else m) qs UINT64_MAX"

text \<open>The served requests are pushed on the returned list one by one.\<close>

fun split_ready :: "('q \<Rightarrow> ts_t) \<Rightarrow> ts_t \<Rightarrow> 'q list \<Rightarrow> 'q list \<Rightarrow> 'q list \<times> 'q list" where
  "split_ready ts m [] ready = (ready, [])"
| "split_ready ts m (q # qs) ready =
     (if ts q \<le> m then split_ready ts m qs (q # ready)
      else let (ready', rest) = split_ready ts m qs ready in (ready', q # rest))"

lemma min_req_ts_spec:
  "q \<in> set qs \<Longrightarrow> min_req_ts ts qs \<le> ts q" "min_req_ts ts qs = UINT64_MAX \<or> min_req_ts ts qs \<in> ts ` set qs"
proof -
  let ?f = "\<lambda>q m. if ts q < m then ts q else m"
  have "fold ?f qs a \<le> a \<and> (\<forall>q \<in> set qs. fold ?f qs a \<le> ts q)" for a
  proof (induction qs arbitrary: a)
    case (Cons q qs)
    from Cons.IH [of "?f q a"] show ?case by (auto split: if_splits)
  qed simp
  then show "q \<in> set qs \<Longrightarrow> min_req_ts ts qs \<le> ts q" by (simp add: min_req_ts_def)
  have "fold ?f qs a = a \<or> fold ?f qs a \<in> ts ` set qs" for a
  proof (induction qs arbitrary: a)
    case (Cons q qs)
    from Cons.IH [of "?f q a"] show ?case by (auto split: if_splits)
  qed simp
  then show "min_req_ts ts qs = UINT64_MAX \<or> min_req_ts ts qs \<in> ts ` set qs" by (simp add: min_req_ts_def)
qed

lemma min_req_ts_Nil [simp]: "min_req_ts ts [] = UINT64_MAX"
  by (simp add: min_req_ts_def)

lemma min_req_ts_greatest: "(\<And>q. q \<in> set qs \<Longrightarrow> m \<le> ts q) \<Longrightarrow> m \<le> min_req_ts ts qs"
  using min_req_ts_spec(2) [of ts qs] by auto

lemma min_req_ts_cong_set: "set qs = set qs' \<Longrightarrow> min_req_ts ts qs = min_req_ts ts qs'"
  by (intro antisym min_req_ts_greatest min_req_ts_spec(1)) auto

lemma min_req_ts_Cons [simp]: "min_req_ts ts (q # qs) = min (ts q) (min_req_ts ts qs)"
proof (rule antisym)
  show "min_req_ts ts (q # qs) \<le> min (ts q) (min_req_ts ts qs)"
    by (auto intro!: min_req_ts_greatest min_req_ts_spec(1) simp: min_req_ts_spec(1))
  show "min (ts q) (min_req_ts ts qs) \<le> min_req_ts ts (q # qs)"
    by (rule min_req_ts_greatest) (auto intro: min.coboundedI2 min_req_ts_spec(1))
qed

lemma min_req_ts_mono: "set qs' \<subseteq> set qs \<Longrightarrow> min_req_ts ts qs \<le> min_req_ts ts qs'"
  by (rule min_req_ts_greatest) (auto intro: min_req_ts_spec(1))

lemma split_ready_spec:
  "split_ready ts m qs ready = (ready', rest) \<Longrightarrow>
   ready' = rev (filter (\<lambda>q. ts q \<le> m) qs) @ ready \<and> rest = filter (\<lambda>q. \<not> ts q \<le> m) qs"
  by (induction ts m qs ready arbitrary: ready' rest rule: split_ready.induct) (auto split: prod.splits if_splits)

lemma split_ready_eq:
  "split_ready ts m qs ready = (rev (filter (\<lambda>q. ts q \<le> m) qs) @ ready, filter (\<lambda>q. \<not> ts q \<le> m) qs)"
  using split_ready_spec [of ts m qs ready] by (metis surj_pair)

lemma unlink_req_spec:
  "unlink_req tx t qs = Some (q, rest) \<Longrightarrow> tx q = t \<and> mset qs = add_mset q (mset rest)"
  by (induction qs arbitrary: rest) (auto split: if_splits)

lemma unlink_req_total: "q \<in> set qs \<Longrightarrow> tx q = t \<Longrightarrow> unlink_req tx t qs \<noteq> None"
  by (induction qs) auto

end
