(* ===== verification/Row_Mvcc.thy ===== *)
theory Row_Mvcc
  imports Request_List
begin

text \<open>
  The multi-version row manager of \<^verbatim>\<open>concurrency_control/row_mvcc.cpp\<close>. \<^verbatim>\<open>access\<close> runs under the
  row's latch and is one step. The request stacks and the two histories are lists from head to
  tail (histories descend in timestamp, newest first). Versions are never changed once they are
  in the history, so a row pointer is modelled by the tuple data it points to; the assertions that
  compare table names and schemas of a version and its row have no counterpart. The limits
  \<^verbatim>\<open>g_max_read_req\<close>, \<^verbatim>\<open>g_max_pre_req\<close>, \<^verbatim>\<open>g_his_recycle_len\<close> and the value of
  \<^verbatim>\<open>glob_manager.get_min_ts\<close> are arguments. Calls of \<^verbatim>\<open>restart_txn\<close> are returned as a list of
  transaction ids.

  The theory shows which version a read returns, that no later operation changes what a read has
  returned, and that a buffered read always waits for a pending prewrite.
\<close>

section \<open>State\<close>

record mv_req =
  mq_txn :: txn_ptr
  mq_ts :: ts_t

record mv_his =
  mh_ts :: ts_t
  mh_row :: "row_bytes option"

record row_mvcc =
  mv_row :: row_bytes
  readreq_mvcc :: "mv_req list"
  prereq_mvcc :: "mv_req list"
  readhis :: "mv_his list"
  writehis :: "mv_his list"
  whis_len :: u64
  rhis_len :: u64
  rreq_len :: u64
  preq_len :: u64

definition row_mvcc_init :: "row_bytes \<Rightarrow> row_mvcc" where
  "row_mvcc_init row = \<lparr>mv_row = row, readreq_mvcc = [], prereq_mvcc = [], readhis = [], writehis = [],
     whis_len = 0, rhis_len = 0, rreq_len = 0, preq_len = 0\<rparr>"

section \<open>Operations\<close>

text \<open>Lines 50 to 72 on one history, from the tail: drop entries while the next newer one is older
  than the threshold. The result is the remaining list from the tail, the last dropped row and the
  number of dropped entries.\<close>

fun clear_tail :: "ts_t \<Rightarrow> mv_his list \<Rightarrow> row_bytes option \<Rightarrow> u64 \<Rightarrow> (mv_his list \<times> row_bytes option \<times> u64) option" where
  "clear_tail th (h # p # hs) row n =
     (if mh_ts p < th then do {
        ASSERT (mh_ts p \<ge> mh_ts h);
        clear_tail th (p # hs) (mh_row h) (n + 1) }
      else Some (h # p # hs, row, n))"
| "clear_tail th hs row n = Some (hs, row, n)"

definition clear_history :: "TsType \<Rightarrow> ts_t \<Rightarrow> row_mvcc \<Rightarrow> (row_bytes option \<times> row_mvcc) option" where
  "clear_history ty ts r =
     (if ty = R_REQ then do {
        (hs, row, n) \<leftarrow> clear_tail ts (rev (readhis r)) None 0;
        Some (row, r\<lparr>readhis := rev hs, rhis_len := rhis_len r - n\<rparr>) }
      else if ty = W_REQ then do {
        (hs, row, n) \<leftarrow> clear_tail ts (rev (writehis r)) None 0;
        Some (row, r\<lparr>writehis := rev hs, whis_len := whis_len r - n\<rparr>) }
      else None)"

definition buffer_req :: "TsType \<Rightarrow> txn_ptr \<Rightarrow> ts_t \<Rightarrow> row_mvcc \<Rightarrow> row_mvcc" where
  "buffer_req ty t ts r =
     (let e = \<lparr>mq_txn = t, mq_ts = ts\<rparr>
      in if ty = R_REQ then r\<lparr>rreq_len := rreq_len r + 1, readreq_mvcc := e # readreq_mvcc r\<rparr>
         else if ty = P_REQ then r\<lparr>preq_len := preq_len r + 1, prereq_mvcc := e # prereq_mvcc r\<rparr>
         else r)"

text \<open>Lines 126 to 141: \<^verbatim>\<open>debuffer_req(P_REQ, txn)\<close>.\<close>

definition debuffer_prereq :: "txn_ptr \<Rightarrow> row_mvcc \<Rightarrow> (mv_req \<times> row_mvcc) option" where
  "debuffer_prereq t r = do {
     (q, qs) \<leftarrow> unlink_req mq_txn t (prereq_mvcc r);
     Some (q, r\<lparr>prereq_mvcc := qs, preq_len := preq_len r - 1\<rparr>) }"

text \<open>Lines 142 to 168: \<^verbatim>\<open>debuffer_req(R_REQ, NULL)\<close>.\<close>

definition debuffer_readreq :: "row_mvcc \<Rightarrow> mv_req list \<times> row_mvcc" where
  "debuffer_readreq r =
     (let (ready, rest) = split_ready mq_ts (min_req_ts mq_ts (prereq_mvcc r)) (readreq_mvcc r) []
      in (ready, r\<lparr>readreq_mvcc := rest, rreq_len := rreq_len r - of_nat (length ready)\<rparr>))"

definition insert_his :: "mv_his \<Rightarrow> mv_his list \<Rightarrow> mv_his list" where
  "insert_his e hs = takeWhile (\<lambda>h. mh_ts e < mh_ts h) hs @ e # dropWhile (\<lambda>h. mh_ts e < mh_ts h) hs"

definition insert_history :: "ts_t \<Rightarrow> row_bytes option \<Rightarrow> row_mvcc \<Rightarrow> row_mvcc" where
  "insert_history ts row r =
     (let e = \<lparr>mh_ts = ts, mh_row = row\<rparr>
      in if row \<noteq> None then r\<lparr>whis_len := whis_len r + 1, writehis := insert_his e (writehis r)\<rparr>
         else r\<lparr>rhis_len := rhis_len r + 1, readhis := insert_his e (readhis r)\<rparr>)"

text \<open>Lines 233 to 239: no version lies strictly between the prewrite and the read.\<close>

fun no_write_between :: "ts_t \<Rightarrow> ts_t \<Rightarrow> mv_his list \<Rightarrow> bool" where
  "no_write_between pts rts [] = True"
| "no_write_between pts rts (h # hs) =
     (if mh_ts h > pts then (if mh_ts h < rts then False else no_write_between pts rts hs) else True)"

definition latest_prewrite :: "ts_t \<Rightarrow> mv_req list \<Rightarrow> ts_t" where
  "latest_prewrite ts qs = fold (\<lambda>q pts. if mq_ts q < ts \<and> mq_ts q > pts then mq_ts q else pts) qs 0"

fun oldest_read_after :: "ts_t \<Rightarrow> mv_his list \<Rightarrow> ts_t \<Rightarrow> ts_t" where
  "oldest_read_after ts [] rts = rts"
| "oldest_read_after ts (h # hs) rts = (if mh_ts h > ts then oldest_read_after ts hs (mh_ts h) else rts)"

definition mv_conflict :: "TsType \<Rightarrow> ts_t \<Rightarrow> row_mvcc \<Rightarrow> bool option" where
  "mv_conflict ty ts r =
     (if ty = R_REQ then
        let pts = latest_prewrite ts (prereq_mvcc r)
        in if pts = 0 then Some False else Some (no_write_between pts ts (writehis r))
      else if ty = P_REQ then
        let rts = oldest_read_after ts (readhis r) 0
        in if rts = 0 then Some False
           else do { ASSERT (rts > ts); Some (no_write_between ts rts (writehis r)) }
      else None)"

text \<open>Lines 266 to 270: the version a read with timestamp \<open>ts\<close> sees.\<close>

definition mv_lookup :: "row_mvcc \<Rightarrow> ts_t \<Rightarrow> row_bytes" where
  "mv_lookup r ts =
     (case dropWhile (\<lambda>h. mh_ts h > ts) (writehis r) of [] \<Rightarrow> mv_row r
      | h # _ \<Rightarrow> (case mh_row h of None \<Rightarrow> mv_row r | Some row \<Rightarrow> row))"

fun serve_reads :: "mv_req list \<Rightarrow> row_mvcc \<Rightarrow> mv_store \<Rightarrow> row_mvcc \<times> mv_store \<times> txnid_t list" where
  "serve_reads [] r txns = (r, txns, [])"
| "serve_reads (q # qs) r txns =
     (let m = txns (mq_txn q);
          txns = txns(mq_txn q := m\<lparr>cur_row := mv_lookup r (mq_ts q), ts_ready := True\<rparr>);
          (r, txns, ids) = serve_reads qs (insert_history (mq_ts q) None r) txns
      in (r, txns, mvt_id m # ids))"

definition update_buffer :: "row_mvcc \<Rightarrow> mv_store \<Rightarrow> row_mvcc \<times> mv_store \<times> txnid_t list" where
  "update_buffer r txns = (let (ready, r) = debuffer_readreq r in serve_reads ready r txns)"

text \<open>Lines 303 to 322: recycling old versions.\<close>

definition recycle :: "u64 \<Rightarrow> ts_t \<Rightarrow> row_mvcc \<Rightarrow> row_mvcc option" where
  "recycle his_len t_th r =
     (if whis_len r > his_len \<or> rhis_len r > his_len then do {
        r \<leftarrow> (case rev (readhis r) of [] \<Rightarrow> Some r
              | h # _ \<Rightarrow> if mh_ts h < t_th then map_option snd (clear_history R_REQ t_th r) else Some r);
        if whis_len r > 1
        then (case rev (writehis r) of _ # p # _ \<Rightarrow>
                if mh_ts p < t_th then do {
                  (latest_row, r) \<leftarrow> clear_history W_REQ t_th r;
                  Some (case latest_row of None \<Rightarrow> r | Some row \<Rightarrow> r\<lparr>mv_row := row\<rparr>) }
                else Some r
              | _ \<Rightarrow> None)
        else Some r }
      else Some r)"

record mv_limits =
  max_read_req :: u64
  max_pre_req :: u64
  his_recycle_len :: u64

text \<open>Lines 251 to 301.\<close>

definition mv_request ::
  "mv_limits \<Rightarrow> txn_ptr \<Rightarrow> TsType \<Rightarrow> row_bytes option \<Rightarrow> row_mvcc \<Rightarrow> mv_store
   \<Rightarrow> (RC \<times> row_mvcc \<times> mv_store \<times> txnid_t list) option" where
  "mv_request lim t ty row r txns =
     (let ts = mvt_ts (txns t) in
      if ty = R_REQ then do {
        conf \<leftarrow> mv_conflict R_REQ ts r;
        Some (if conf \<and> rreq_len r < max_read_req lim
              then (WAIT, buffer_req R_REQ t ts r, txns(t := (txns t)\<lparr>ts_ready := False\<rparr>), [])
              else if conf then (Abort, r, txns, [])
              else (RCOK, insert_history ts None r, txns(t := (txns t)\<lparr>cur_row := mv_lookup r ts\<rparr>), [])) }
      else if ty = P_REQ then do {
        conf \<leftarrow> mv_conflict P_REQ ts r;
        Some (if conf then (Abort, r, txns, [])
              else if preq_len r < max_pre_req lim then (RCOK, buffer_req P_REQ t ts r, txns, [])
              else (Abort, r, txns, [])) }
      else do {
        let r = (if ty = W_REQ then insert_history ts row r else r);
        (q, r) \<leftarrow> debuffer_prereq t r;
        let (r, txns, ids) = update_buffer r txns;
        Some (RCOK, r, txns, ids) })"

definition mv_access ::
  "mv_limits \<Rightarrow> ts_t \<Rightarrow> txn_ptr \<Rightarrow> TsType \<Rightarrow> row_bytes option \<Rightarrow> row_mvcc \<Rightarrow> mv_store
   \<Rightarrow> (RC \<times> row_mvcc \<times> mv_store \<times> txnid_t list) option" where
  "mv_access lim min_ts t ty row r txns = do {
     (rc, r, txns, ids) \<leftarrow> mv_request lim t ty row r txns;
     r \<leftarrow> (if rc = RCOK then recycle (his_recycle_len lim) min_ts r else Some r);
     Some (rc, r, txns, ids) }"

section \<open>The invariant\<close>

definition his_sorted :: "mv_his list \<Rightarrow> bool" where
  "his_sorted hs \<longleftrightarrow> sorted_wrt (\<lambda>a b. mh_ts b \<le> mh_ts a) hs"

text \<open>Between every pending prewrite and every later read there is a version: the version the read
  has seen, or a newer one, hides the pending write from it.\<close>

definition read_stable :: "mv_req list \<Rightarrow> mv_his list \<Rightarrow> mv_his list \<Rightarrow> bool" where
  "read_stable ps rs ws \<longleftrightarrow> (\<forall>p \<in> set ps. \<forall>h \<in> set rs. mq_ts p < mh_ts h \<longrightarrow>
     (\<exists>w \<in> set ws. mq_ts p < mh_ts w \<and> mh_ts w < mh_ts h))"

definition readers_blocked :: "mv_req list \<Rightarrow> mv_req list \<Rightarrow> bool" where
  "readers_blocked qs ps \<longleftrightarrow> (\<forall>q \<in> set qs. \<exists>p \<in> set ps. mq_ts p < mq_ts q)"

definition mv_inv :: "row_mvcc \<Rightarrow> bool" where
  "mv_inv r \<longleftrightarrow> his_sorted (readhis r) \<and> his_sorted (writehis r) \<and> (\<forall>w \<in> set (writehis r). mh_row w \<noteq> None) \<and>
     whis_len r = of_nat (length (writehis r)) \<and> rhis_len r = of_nat (length (readhis r)) \<and>
     rreq_len r = of_nat (length (readreq_mvcc r)) \<and> preq_len r = of_nat (length (prereq_mvcc r)) \<and>
     (\<forall>p \<in> set (prereq_mvcc r). 0 < mq_ts p) \<and>
     read_stable (prereq_mvcc r) (readhis r) (writehis r) \<and> readers_blocked (readreq_mvcc r) (prereq_mvcc r)"

lemma mv_inv_init: "mv_inv (row_mvcc_init row)"
  by (simp add: mv_inv_def row_mvcc_init_def his_sorted_def read_stable_def readers_blocked_def)

lemma set_insert_his [simp]: "set (insert_his e hs) = insert e (set hs)"
proof -
  have "set hs = set (takeWhile (\<lambda>h. mh_ts e < mh_ts h) hs) \<union> set (dropWhile (\<lambda>h. mh_ts e < mh_ts h) hs)"
    by (metis set_append takeWhile_dropWhile_id)
  then show ?thesis by (simp add: insert_his_def)
qed

lemma length_insert_his [simp]: "length (insert_his e hs) = Suc (length hs)"
proof -
  have "length hs = length (takeWhile (\<lambda>h. mh_ts e < mh_ts h) hs) + length (dropWhile (\<lambda>h. mh_ts e < mh_ts h) hs)"
    by (metis length_append takeWhile_dropWhile_id)
  then show ?thesis by (simp add: insert_his_def)
qed

lemma insert_his_sorted: "his_sorted hs \<Longrightarrow> his_sorted (insert_his e hs)"
  unfolding his_sorted_def
proof (induction hs)
  case (Cons h hs)
  show ?case
  proof (cases "mh_ts e < mh_ts h")
    case True
    then have eq: "insert_his e (h # hs) = h # insert_his e hs" by (simp add: insert_his_def)
    show ?thesis using Cons True by (auto simp: eq intro: less_imp_le)
  next
    case False
    then have eq: "insert_his e (h # hs) = e # h # hs" by (simp add: insert_his_def)
    show ?thesis using Cons False by (auto simp: eq not_less intro: order.trans)
  qed
qed (simp add: insert_his_def)

section \<open>Conflicts\<close>

lemma no_write_between_iff:
  "his_sorted ws \<Longrightarrow> no_write_between pts rts ws \<longleftrightarrow> \<not> (\<exists>w \<in> set ws. pts < mh_ts w \<and> mh_ts w < rts)"
proof (induction ws)
  case (Cons h hs)
  then show ?case by (auto simp: his_sorted_def not_less dest: order.strict_trans2 order.strict_trans1)
qed simp

lemma latest_prewrite_spec:
  "latest_prewrite ts qs = 0 \<or> (latest_prewrite ts qs \<in> mq_ts ` set qs \<and> latest_prewrite ts qs < ts)"
  "q \<in> set qs \<Longrightarrow> mq_ts q < ts \<Longrightarrow> mq_ts q \<le> latest_prewrite ts qs"
proof -
  let ?f = "\<lambda>q pts. if mq_ts q < ts \<and> mq_ts q > pts then mq_ts q else pts"
  have "fold ?f qs a = a \<or> (fold ?f qs a \<in> mq_ts ` set qs \<and> fold ?f qs a < ts)" for a
  proof (induction qs arbitrary: a)
    case (Cons q qs)
    from Cons.IH [of "?f q a"] show ?case by (auto split: if_splits)
  qed simp
  then show "latest_prewrite ts qs = 0 \<or> (latest_prewrite ts qs \<in> mq_ts ` set qs \<and> latest_prewrite ts qs < ts)"
    by (simp add: latest_prewrite_def)
  have "a \<le> fold ?f qs a \<and> (\<forall>q \<in> set qs. mq_ts q < ts \<longrightarrow> mq_ts q \<le> fold ?f qs a)" for a
  proof (induction qs arbitrary: a)
    case (Cons q qs)
    from Cons.IH [of "?f q a"] show ?case by (auto split: if_splits)
  qed simp
  then show "q \<in> set qs \<Longrightarrow> mq_ts q < ts \<Longrightarrow> mq_ts q \<le> latest_prewrite ts qs"
    by (simp add: latest_prewrite_def)
qed

lemma oldest_read_le:
  "his_sorted hs \<Longrightarrow> \<forall>x \<in> set hs. mh_ts x \<le> a \<Longrightarrow> oldest_read_after ts hs a \<le> a"
proof (induction hs arbitrary: a)
  case (Cons h hs)
  then have "oldest_read_after ts hs (mh_ts h) \<le> mh_ts h" by (auto simp: his_sorted_def)
  then show ?case using Cons.prems(2) by (auto intro: order.trans)
qed simp

lemma oldest_read_spec:
  "his_sorted hs \<Longrightarrow> (\<forall>h \<in> set hs. ts < mh_ts h \<longrightarrow> oldest_read_after ts hs a \<le> mh_ts h) \<and>
     (oldest_read_after ts hs a = a \<or> ts < oldest_read_after ts hs a)"
proof (induction hs arbitrary: a)
  case (Cons h hs)
  then have sorted: "his_sorted hs" "\<forall>x \<in> set hs. mh_ts x \<le> mh_ts h" by (auto simp: his_sorted_def)
  show ?case
  proof (cases "ts < mh_ts h")
    case True
    with oldest_read_le [OF sorted] Cons.IH [OF sorted(1), of "mh_ts h"] show ?thesis by auto
  next
    case False
    with sorted(2) show ?thesis by (auto dest: order.strict_trans2)
  qed
qed simp

lemma oldest_read_found:
  assumes "his_sorted hs" "h \<in> set hs" "ts < mh_ts h"
  shows "ts < oldest_read_after ts hs a"
proof (cases hs)
  case (Cons x xs)
  with assms have "ts < mh_ts x" "his_sorted xs" by (auto simp: his_sorted_def dest: order.strict_trans2)
  with Cons oldest_read_spec [of xs ts "mh_ts x"] show ?thesis by auto
qed (use assms(2) in simp)

text \<open>A request that finds no conflict keeps the reads stable.\<close>

lemma read_no_conflict:
  assumes "mv_inv r" "mv_conflict R_REQ ts r = Some False"
  shows "read_stable (prereq_mvcc r) (insert_his \<lparr>mh_ts = ts, mh_row = x\<rparr> (readhis r)) (writehis r)"
proof -
  let ?pts = "latest_prewrite ts (prereq_mvcc r)"
  have inv: "his_sorted (writehis r)" "\<forall>p \<in> set (prereq_mvcc r). 0 < mq_ts p"
    "read_stable (prereq_mvcc r) (readhis r) (writehis r)"
    using assms(1) by (simp_all add: mv_inv_def)
  have "\<exists>w \<in> set (writehis r). mq_ts p < mh_ts w \<and> mh_ts w < ts" if p: "p \<in> set (prereq_mvcc r)" "mq_ts p < ts" for p
  proof -
    have le: "mq_ts p \<le> ?pts" using p by (rule latest_prewrite_spec(2))
    with inv(2) p(1) have "?pts \<noteq> 0" by (metis leD)
    with assms(2) obtain w where "w \<in> set (writehis r)" "?pts < mh_ts w" "mh_ts w < ts"
      using no_write_between_iff [OF inv(1)] by (auto simp: mv_conflict_def Let_def)
    with le show ?thesis by (auto intro: le_less_trans)
  qed
  with inv(3) show ?thesis by (auto simp: read_stable_def)
qed

lemma prewrite_no_conflict:
  assumes "mv_inv r" "mv_conflict P_REQ ts r = Some False"
  shows "read_stable (\<lparr>mq_txn = t, mq_ts = ts\<rparr> # prereq_mvcc r) (readhis r) (writehis r)"
proof -
  let ?rts = "oldest_read_after ts (readhis r) 0"
  have inv: "his_sorted (writehis r)" "his_sorted (readhis r)"
    "read_stable (prereq_mvcc r) (readhis r) (writehis r)"
    using assms(1) by (simp_all add: mv_inv_def)
  have "\<exists>w \<in> set (writehis r). ts < mh_ts w \<and> mh_ts w < mh_ts h" if h: "h \<in> set (readhis r)" "ts < mh_ts h" for h
  proof -
    have gt: "ts < ?rts" using inv(2) h by (rule oldest_read_found)
    then have "?rts \<noteq> 0" by (metis word_not_simps(1))
    with assms(2) gt obtain w where w: "w \<in> set (writehis r)" "ts < mh_ts w" "mh_ts w < ?rts"
      using no_write_between_iff [OF inv(1)] by (auto simp: mv_conflict_def Let_def)
    moreover have "?rts \<le> mh_ts h" using oldest_read_spec [OF inv(2)] h by blast
    ultimately show ?thesis by (auto intro: less_le_trans)
  qed
  with inv(3) show ?thesis by (auto simp: read_stable_def)
qed

lemma read_conflict_blocked:
  assumes "mv_conflict R_REQ ts r = Some True"
  shows "\<exists>p \<in> set (prereq_mvcc r). mq_ts p < ts"
  using assms latest_prewrite_spec(1) [of ts "prereq_mvcc r"]
  by (auto simp: mv_conflict_def Let_def split: if_splits)

lemma mv_conflict_total:
  assumes "mv_inv r" "ty = R_REQ \<or> ty = P_REQ"
  shows "mv_conflict ty ts r \<noteq> None"
proof -
  have "oldest_read_after ts (readhis r) 0 \<noteq> 0 \<Longrightarrow> ts < oldest_read_after ts (readhis r) 0"
    using oldest_read_spec [of "readhis r" ts 0] assms(1) by (auto simp: mv_inv_def)
  then show ?thesis using assms(2) by (auto simp: mv_conflict_def Let_def)
qed

section \<open>Recycling\<close>

lemma clear_tail_spec:
  assumes "sorted_wrt (\<lambda>a b. mh_ts a \<le> mh_ts b) hs"
  shows "\<exists>ds ys. clear_tail th hs row n = Some (ys, (if ds = [] then row else mh_row (last ds)), n + of_nat (length ds)) \<and>
    hs = ds @ ys \<and> (hs \<noteq> [] \<longrightarrow> ys \<noteq> []) \<and> (ds \<noteq> [] \<longrightarrow> mh_ts (hd ys) < th)"
  using assms
proof (induction th hs row n rule: clear_tail.induct)
  case (1 th h p hs row n)
  show ?case
  proof (cases "mh_ts p < th")
    case True
    have "ASSERT (mh_ts p \<ge> mh_ts h) = Some ()" "sorted_wrt (\<lambda>a b. mh_ts a \<le> mh_ts b) (p # hs)"
      using "1.prems" by simp_all
    from "1.IH" [OF True this] obtain ds ys where ih: "clear_tail th (p # hs) (mh_row h) (n + 1) =
        Some (ys, (if ds = [] then mh_row h else mh_row (last ds)), n + 1 + of_nat (length ds))"
      "p # hs = ds @ ys" "ys \<noteq> []" "ds \<noteq> [] \<longrightarrow> mh_ts (hd ys) < th" by blast
    have "mh_ts (hd ys) < th" using ih(2-4) True by (cases ds) auto
    moreover have "clear_tail th (h # p # hs) row n = clear_tail th (p # hs) (mh_row h) (n + 1)"
      using True "1.prems" by simp
    ultimately show ?thesis
      using ih by - (rule exI [of _ "h # ds"], rule exI [of _ ys], simp add: add_ac)
  qed (rule exI [of _ "[]"], auto)
qed (rule exI [of _ "[]"], auto)+

lemma his_sorted_rev: "his_sorted hs \<longleftrightarrow> sorted_wrt (\<lambda>a b. mh_ts a \<le> mh_ts b) (rev hs)"
  by (simp add: his_sorted_def sorted_wrt_rev)

lemma clear_history_read:
  assumes "his_sorted (readhis r)"
  obtains row rs ds where "clear_history R_REQ th r =
      Some (row, r\<lparr>readhis := rs, rhis_len := rhis_len r - of_nat (length ds)\<rparr>)" "readhis r = rs @ ds"
proof -
  from clear_tail_spec [OF assms [unfolded his_sorted_rev]] obtain ds ys row where
    "clear_tail th (rev (readhis r)) None 0 = Some (ys, row, of_nat (length ds))" "rev (readhis r) = ds @ ys"
    by (metis add_0)
  then show thesis
    by (intro that [of row "rev ds" "rev ys"]) (simp_all add: clear_history_def rev_swap)
qed

lemma clear_history_write:
  assumes "his_sorted (writehis r)" "writehis r \<noteq> []"
  obtains ws ds where "clear_history W_REQ th r =
      Some (if ds = [] then None else mh_row (hd ds), r\<lparr>writehis := ws, whis_len := whis_len r - of_nat (length ds)\<rparr>)"
    "writehis r = ws @ ds" "ws \<noteq> []" "ds \<noteq> [] \<longrightarrow> mh_ts (last ws) < th"
proof -
  from clear_tail_spec [OF assms(1) [unfolded his_sorted_rev], of th None 0] assms(2) obtain ds ys where
    "clear_tail th (rev (writehis r)) None 0 = Some (ys, (if ds = [] then None else mh_row (last ds)), of_nat (length ds))"
    "rev (writehis r) = ds @ ys" "ys \<noteq> []" "ds \<noteq> [] \<longrightarrow> mh_ts (hd ys) < th"
    unfolding add_0 rev_is_Nil_conv by blast
  then show thesis
    by (intro that [of "rev ds" "rev ys"])
      (simp_all add: clear_history_def rev_swap hd_rev last_rev split: if_splits)
qed

text \<open>What recycling keeps: the reads and versions at or above the threshold, and the version every
  read at or above the threshold sees.\<close>

lemma lookup_append:
  assumes "writehis r = ws @ ds" "writehis r' = ws" "ws \<noteq> []" "mh_ts (last ws) \<le> ts"
    "\<forall>w \<in> set ws. mh_row w \<noteq> None"
  shows "mv_lookup r' ts = mv_lookup r ts"
proof -
  let ?P = "\<lambda>h. mh_ts h > ts"
  have last: "last ws \<in> set ws" "\<not> ?P (last ws)" using assms(3,4) by (simp_all add: not_less)
  then have eq: "dropWhile ?P (ws @ ds) = dropWhile ?P ws @ ds" by (rule dropWhile_append1)
  have "dropWhile ?P ws \<noteq> []" using last by (auto simp: dropWhile_eq_Nil_conv)
  then obtain h hs where h: "dropWhile ?P ws = h # hs" by (cases "dropWhile ?P ws") auto
  then have "h \<in> set ws" by (metis list.set_intros(1) set_dropWhileD)
  with assms(5) obtain row where "mh_row h = Some row" by blast
  then show ?thesis using assms(1,2) eq h by (simp add: mv_lookup_def)
qed

lemma his_sorted_append: "his_sorted (xs @ ys) \<longleftrightarrow> his_sorted xs \<and> his_sorted ys \<and>
    (\<forall>x \<in> set xs. \<forall>y \<in> set ys. mh_ts y \<le> mh_ts x)"
  by (simp add: his_sorted_def sorted_wrt_append)

lemma clear_read_inv:
  assumes inv: "mv_inv r"
  obtains row r' where "clear_history R_REQ th r = Some (row, r')" "mv_inv r'" "mv_row r' = mv_row r"
    "set (readhis r') \<subseteq> set (readhis r)" "prereq_mvcc r' = prereq_mvcc r" "readreq_mvcc r' = readreq_mvcc r"
    "writehis r' = writehis r"
proof -
  have "his_sorted (readhis r)" using inv by (simp add: mv_inv_def)
  then obtain row rs ds where cl: "clear_history R_REQ th r =
      Some (row, r\<lparr>readhis := rs, rhis_len := rhis_len r - of_nat (length ds)\<rparr>)" and sp: "readhis r = rs @ ds"
    by (rule clear_history_read)
  have "mv_inv (r\<lparr>readhis := rs, rhis_len := rhis_len r - of_nat (length ds)\<rparr>)"
    using inv sp by (auto simp: mv_inv_def his_sorted_append read_stable_def)
  with sp show thesis by (intro that [OF cl]) auto
qed

lemma clear_write_inv:
  assumes inv: "mv_inv r" and ne: "writehis r \<noteq> []" and old: "\<forall>p \<in> set (prereq_mvcc r). th \<le> mq_ts p"
    and lt: "writehis r = ws0 @ [p, h]" "mh_ts p < th"
  obtains row r' where "clear_history W_REQ th r = Some (row, r')" "mv_inv r'"
    "\<And>x ts. th \<le> ts \<Longrightarrow> mv_lookup (r'\<lparr>mv_row := x\<rparr>) ts = mv_lookup r ts"
    "readhis r' = readhis r" "prereq_mvcc r' = prereq_mvcc r" "readreq_mvcc r' = readreq_mvcc r"
proof -
  have "his_sorted (writehis r)" using inv by (simp add: mv_inv_def)
  from clear_history_write [OF this ne, of th] obtain ws ds where cl: "clear_history W_REQ th r =
      Some (if ds = [] then None else mh_row (hd ds), r\<lparr>writehis := ws, whis_len := whis_len r - of_nat (length ds)\<rparr>)"
    and sp: "writehis r = ws @ ds" "ws \<noteq> []" "ds \<noteq> [] \<longrightarrow> mh_ts (last ws) < th" by metis
  let ?r = "r\<lparr>writehis := ws, whis_len := whis_len r - of_nat (length ds)\<rparr>"
  have last: "mh_ts (last ws) < th"
  proof (cases "ds = []")
    case True
    have "his_sorted (ws0 @ [p, h])" using inv lt(1) by (simp add: mv_inv_def)
    then have "mh_ts h \<le> mh_ts p" by (simp add: his_sorted_def sorted_wrt_append)
    moreover have "ws = ws0 @ [p, h]" using True sp(1) lt(1) by simp
    ultimately show ?thesis using lt(2) by simp
  qed (use sp in blast)
  have "read_stable (prereq_mvcc r) (readhis r) ws"
    unfolding read_stable_def
  proof (intro ballI impI)
    fix p h
    assume p: "p \<in> set (prereq_mvcc r)" "h \<in> set (readhis r)" "mq_ts p < mh_ts h"
    have "read_stable (prereq_mvcc r) (readhis r) (writehis r)" using inv by (simp add: mv_inv_def)
    with p obtain w where w: "w \<in> set (writehis r)" "mq_ts p < mh_ts w" "mh_ts w < mh_ts h"
      unfolding read_stable_def by blast
    have "w \<notin> set ds"
    proof
      assume "w \<in> set ds"
      then have "mh_ts w \<le> mh_ts (last ws)" using inv sp by (auto simp: mv_inv_def his_sorted_append)
      with last w(2) old p(1) show False by (metis leD le_less_trans less_trans)
    qed
    with w sp(1) show "\<exists>w \<in> set ws. mq_ts p < mh_ts w \<and> mh_ts w < mh_ts h" by auto
  qed
  then have "mv_inv ?r" using inv sp(1) by (auto simp: mv_inv_def his_sorted_append)
  moreover have "mv_lookup (?r\<lparr>mv_row := x\<rparr>) ts = mv_lookup r ts" if "th \<le> ts" for x ts
    using last that inv sp by (intro lookup_append [of r ws ds]) (auto simp: mv_inv_def)
  ultimately show thesis by (intro that [OF cl]) auto
qed

lemma recycle_spec:
  assumes inv: "mv_inv r" and old: "\<forall>p \<in> set (prereq_mvcc r). th \<le> mq_ts p"
  obtains r' where "recycle n th r = Some r'" "mv_inv r'" "\<forall>ts \<ge> th. mv_lookup r' ts = mv_lookup r ts"
    "set (readhis r') \<subseteq> set (readhis r)" "prereq_mvcc r' = prereq_mvcc r" "readreq_mvcc r' = readreq_mvcc r"
proof -
  obtain row0 r0 where cl0: "clear_history R_REQ th r = Some (row0, r0)" and inv0: "mv_inv r0"
    "mv_row r0 = mv_row r" "set (readhis r0) \<subseteq> set (readhis r)" "prereq_mvcc r0 = prereq_mvcc r"
    "readreq_mvcc r0 = readreq_mvcc r" "writehis r0 = writehis r"
    by (rule clear_read_inv [OF inv]) (rule that)
  define r1 where "r1 = (case rev (readhis r) of [] \<Rightarrow> r | h # _ \<Rightarrow> if mh_ts h < th then r0 else r)"
  have r1: "(case rev (readhis r) of [] \<Rightarrow> Some r
        | h # _ \<Rightarrow> if mh_ts h < th then map_option snd (clear_history R_REQ th r) else Some r) = Some r1"
    by (simp add: r1_def cl0 split: list.split)
  have "r1 = r \<or> r1 = r0" by (simp add: r1_def split: list.split)
  then have inv1: "mv_inv r1" "mv_row r1 = mv_row r" "writehis r1 = writehis r" "set (readhis r1) \<subseteq> set (readhis r)"
      "prereq_mvcc r1 = prereq_mvcc r" "readreq_mvcc r1 = readreq_mvcc r"
    using inv inv0 by auto
  have lk: "mv_lookup r1 ts = mv_lookup r ts" for ts unfolding mv_lookup_def inv1(2,3) ..
  show thesis
  proof (cases "(whis_len r > n \<or> rhis_len r > n) \<and> whis_len r1 > 1")
    case False
    then consider "recycle n th r = Some r" | "recycle n th r = Some r1"
      by (cases "whis_len r > n \<or> rhis_len r > n") (auto simp: recycle_def r1)
    then show thesis
    proof cases
      case 1
      with inv show thesis by (intro that [of r]) auto
    next
      case 2
      with inv1 lk show thesis by (intro that [of r1]) auto
    qed
  next
    case True
    have "\<not> length (writehis r1) \<le> 1"
    proof
      assume "length (writehis r1) \<le> 1"
      then have "length (writehis r1) = 0 \<or> length (writehis r1) = 1" by linarith
      with True inv1(1) show False by (auto simp: mv_inv_def)
    qed
    then obtain h p ws where ws: "rev (writehis r1) = h # p # ws"
      by (cases "rev (writehis r1)" rule: remdups_adj.cases) (auto dest: arg_cong [of _ _ length])
    then have split: "writehis r1 = rev ws @ [p, h]" by (simp add: rev_swap)
    have rec: "recycle n th r = (if mh_ts p < th then do {
        (latest_row, r) \<leftarrow> clear_history W_REQ th r1;
        Some (case latest_row of None \<Rightarrow> r | Some row \<Rightarrow> r\<lparr>mv_row := row\<rparr>) } else Some r1)"
      using True r1 ws by (simp add: recycle_def)
    show thesis
    proof (cases "mh_ts p < th")
      case False
      with rec inv1 lk show thesis by (intro that [of r1]) auto
    next
      case lt: True
      have ne: "writehis r1 \<noteq> []" using split by simp
      have old1: "\<forall>p \<in> set (prereq_mvcc r1). th \<le> mq_ts p" using old inv1 by simp
      have upd: "mv_inv (r'\<lparr>mv_row := x\<rparr>) = mv_inv r'" for r' x by (simp add: mv_inv_def)
      obtain row r2 where cl: "clear_history W_REQ th r1 = Some (row, r2)" and inv2: "mv_inv r2"
        and lk2: "\<And>x ts. th \<le> ts \<Longrightarrow> mv_lookup (r2\<lparr>mv_row := x\<rparr>) ts = mv_lookup r1 ts"
        and fr: "readhis r2 = readhis r1" "prereq_mvcc r2 = prereq_mvcc r1" "readreq_mvcc r2 = readreq_mvcc r1"
        by (rule clear_write_inv [OF inv1(1) ne old1 split lt]) (rule that)
      let ?r = "case row of None \<Rightarrow> r2 | Some x \<Rightarrow> r2\<lparr>mv_row := x\<rparr>"
      have "mv_lookup ?r ts = mv_lookup r ts" if "th \<le> ts" for ts
        using lk2 [OF that, of "mv_row r2"] lk2 [OF that] lk by (cases row) simp_all
      moreover have "mv_inv ?r" using inv2 upd by (cases row) simp_all
      moreover have "readhis ?r = readhis r1" "prereq_mvcc ?r = prereq_mvcc r1" "readreq_mvcc ?r = readreq_mvcc r1"
        using fr by (cases row; simp)+
      ultimately show thesis using rec lt cl inv1 by (intro that [of ?r]) auto
    qed
  qed
qed

text \<open>Recycling does not look at the buffered requests; what it keeps of the versions does not depend on them.\<close>

definition no_requests :: "row_mvcc \<Rightarrow> row_mvcc" where
  "no_requests r = r\<lparr>prereq_mvcc := [], readreq_mvcc := [], rreq_len := 0, preq_len := 0\<rparr>"

lemma no_requests_simps [simp]:
  "readhis (no_requests r) = readhis r" "writehis (no_requests r) = writehis r" "mv_row (no_requests r) = mv_row r"
  "whis_len (no_requests r) = whis_len r" "rhis_len (no_requests r) = rhis_len r" "mv_lookup (no_requests r) ts = mv_lookup r ts"
  "(no_requests r)\<lparr>mv_row := x\<rparr> = no_requests (r\<lparr>mv_row := x\<rparr>)"
  by (simp_all add: no_requests_def mv_lookup_def cong: list.case_cong option.case_cong)

lemma clear_history_no_requests: "clear_history ty th (no_requests r) = map_option (apsnd no_requests) (clear_history ty th r)"
  by (auto simp: clear_history_def no_requests_def split: bind_splits prod.splits)

definition recycle_reads :: "ts_t \<Rightarrow> row_mvcc \<Rightarrow> row_mvcc option" where
  "recycle_reads th r = (case rev (readhis r) of [] \<Rightarrow> Some r
     | h # _ \<Rightarrow> if mh_ts h < th then map_option snd (clear_history R_REQ th r) else Some r)"

definition recycle_writes :: "ts_t \<Rightarrow> row_mvcc \<Rightarrow> row_mvcc option" where
  "recycle_writes th r = (if whis_len r > 1
     then (case rev (writehis r) of _ # p # _ \<Rightarrow>
             if mh_ts p < th then do {
               (latest_row, r) \<leftarrow> clear_history W_REQ th r;
               Some (case latest_row of None \<Rightarrow> r | Some row \<Rightarrow> r\<lparr>mv_row := row\<rparr>) }
             else Some r
           | _ \<Rightarrow> None)
     else Some r)"

lemma recycle_split: "recycle n th r = (if whis_len r > n \<or> rhis_len r > n then recycle_reads th r \<bind> recycle_writes th else Some r)"
  by (simp add: recycle_def recycle_reads_def recycle_writes_def [abs_def])

lemma recycle_no_requests: "recycle n th (no_requests r) = map_option no_requests (recycle n th r)"
proof -
  have "recycle_writes th (no_requests r) = map_option no_requests (recycle_writes th r)" for r
    by (cases "clear_history W_REQ th r") (auto simp: recycle_writes_def clear_history_no_requests split: list.splits option.splits)
  moreover have "recycle_reads th (no_requests r) = map_option no_requests (recycle_reads th r)"
    by (cases "clear_history R_REQ th r") (auto simp: recycle_reads_def clear_history_no_requests split: list.splits)
  ultimately show ?thesis by (cases "recycle_reads th r") (simp_all add: recycle_split)
qed

lemma recycle_keeps:
  assumes "mv_inv r"
  shows "\<exists>r'. recycle n th r = Some r' \<and> (\<forall>ts \<ge> th. mv_lookup r' ts = mv_lookup r ts)"
proof -
  have "mv_inv (no_requests r)" "\<forall>p \<in> set (prereq_mvcc (no_requests r)). th \<le> mq_ts p"
    using assms by (simp_all add: mv_inv_def no_requests_def read_stable_def readers_blocked_def)
  from recycle_spec [OF this, of n] obtain r' where "recycle n th (no_requests r) = Some r'" "\<forall>ts \<ge> th. mv_lookup r' ts = mv_lookup r ts"
    by (metis no_requests_simps(6))
  then show ?thesis unfolding recycle_no_requests by auto
qed

section \<open>Serving buffered reads\<close>

lemma mv_lookup_find:
  "mv_lookup r ts = (case List.find (\<lambda>h. mh_ts h \<le> ts) (writehis r) of None \<Rightarrow> mv_row r
     | Some h \<Rightarrow> (case mh_row h of None \<Rightarrow> mv_row r | Some row \<Rightarrow> row))"
proof -
  have "List.find (\<lambda>h. mh_ts h \<le> ts) ws = (case dropWhile (\<lambda>h. mh_ts h > ts) ws of [] \<Rightarrow> None | h # _ \<Rightarrow> Some h)" for ws
    by (induction ws) (auto simp: not_le)
  from this [of "writehis r"] show ?thesis
    by (cases "dropWhile (\<lambda>h. mh_ts h > ts) (writehis r)") (simp_all add: mv_lookup_def del: dropWhile_eq_Nil_conv)
qed

lemma mv_lookup_cong:
  "List.find (\<lambda>h. mh_ts h \<le> ts) (writehis r') = List.find (\<lambda>h. mh_ts h \<le> ts) (writehis r) \<Longrightarrow>
   mv_row r' = mv_row r \<Longrightarrow> mv_lookup r' ts = mv_lookup r ts"
  by (simp only: mv_lookup_find)

lemma find_insert_his:
  assumes "his_sorted ws" and "x < mh_ts e \<or> (\<exists>w \<in> set ws. mh_ts e < mh_ts w \<and> mh_ts w \<le> x)"
  shows "List.find (\<lambda>h. mh_ts h \<le> x) (insert_his e ws) = List.find (\<lambda>h. mh_ts h \<le> x) ws"
  using assms
proof (induction ws)
  case (Cons h hs)
  show ?case
  proof (cases "mh_ts e < mh_ts h")
    case True
    then have eq: "insert_his e (h # hs) = h # insert_his e hs" by (simp add: insert_his_def)
    show ?thesis
      using Cons True by (cases "mh_ts h \<le> x") (auto simp: eq his_sorted_def)
  next
    case False
    then have eq: "insert_his e (h # hs) = e # h # hs" by (simp add: insert_his_def)
    have "\<not> (\<exists>w \<in> set (h # hs). mh_ts e < mh_ts w)"
      using False Cons.prems(1) by (auto simp: his_sorted_def dest: order.strict_trans2)
    with Cons.prems(2) have "x < mh_ts e" by blast
    then show ?thesis by (auto simp: eq dest: leD)
  qed
qed (auto simp: insert_his_def not_le)

definition mv_core :: "row_mvcc \<Rightarrow> bool" where
  "mv_core r \<longleftrightarrow> mv_inv (r\<lparr>readreq_mvcc := [], rreq_len := 0\<rparr>)"

lemma mv_inv_core:
  "mv_inv r \<longleftrightarrow> mv_core r \<and> rreq_len r = of_nat (length (readreq_mvcc r)) \<and>
     readers_blocked (readreq_mvcc r) (prereq_mvcc r)"
  by (auto simp: mv_core_def mv_inv_def readers_blocked_def)

lemma mv_core_readreq [simp]: "mv_core (r\<lparr>readreq_mvcc := qs, rreq_len := n\<rparr>) = mv_core r"
  by (simp add: mv_core_def)

lemma debuffer_readreq_blocked:
  assumes "debuffer_readreq r = (ready, r')" "rreq_len r = of_nat (length (readreq_mvcc r))"
  shows "readers_blocked (readreq_mvcc r') (prereq_mvcc r')" "rreq_len r' = of_nat (length (readreq_mvcc r'))"
    "\<forall>q \<in> set ready. \<forall>p \<in> set (prereq_mvcc r). mq_ts q \<le> mq_ts p"
    "r' = r\<lparr>readreq_mvcc := readreq_mvcc r', rreq_len := rreq_len r'\<rparr>"
    "set ready = {q \<in> set (readreq_mvcc r). mq_ts q \<le> min_req_ts mq_ts (prereq_mvcc r)}"
    "set (readreq_mvcc r') = {q \<in> set (readreq_mvcc r). \<not> mq_ts q \<le> min_req_ts mq_ts (prereq_mvcc r)}"
proof -
  let ?m = "min_req_ts mq_ts (prereq_mvcc r)"
  obtain rest where sp: "split_ready mq_ts ?m (readreq_mvcc r) [] = (ready, rest)"
    and r': "r' = r\<lparr>readreq_mvcc := rest, rreq_len := rreq_len r - of_nat (length ready)\<rparr>"
    using assms(1) by (auto simp: debuffer_readreq_def split: prod.splits)
  note sp' = split_ready_spec [OF sp]
  have len: "length ready + length rest = length (readreq_mvcc r)"
    using sp' sum_length_filter_compl [of "\<lambda>q. mq_ts q \<le> ?m" "readreq_mvcc r"] by simp
  then have "rreq_len r - of_nat (length ready) = of_nat (length rest)"
    using assms(2) by (metis add_diff_cancel_left' of_nat_add)
  then show "rreq_len r' = of_nat (length (readreq_mvcc r'))" by (simp add: r')
  have "\<exists>p \<in> set (prereq_mvcc r). mq_ts p < mq_ts q" if "\<not> mq_ts q \<le> ?m" for q
    using that min_req_ts_spec(2) [of mq_ts "prereq_mvcc r"] by (auto simp: not_le)
  then show "readers_blocked (readreq_mvcc r') (prereq_mvcc r')"
    using sp' by (auto simp: r' readers_blocked_def)
  show "\<forall>q \<in> set ready. \<forall>p \<in> set (prereq_mvcc r). mq_ts q \<le> mq_ts p"
    using sp' min_req_ts_spec(1) [of _ "prereq_mvcc r" mq_ts] by (auto intro: order.trans)
  show "r' = r\<lparr>readreq_mvcc := readreq_mvcc r', rreq_len := rreq_len r'\<rparr>" by (simp add: r')
  show "set ready = {q \<in> set (readreq_mvcc r). mq_ts q \<le> ?m}" using sp' by auto
  show "set (readreq_mvcc r') = {q \<in> set (readreq_mvcc r). \<not> mq_ts q \<le> ?m}" using sp' by (auto simp: r')
qed

lemma serve_reads_spec:
  "serve_reads qs r txns = (r', txns', ids) \<Longrightarrow> mv_core r \<Longrightarrow>
   \<forall>q \<in> set qs. \<forall>p \<in> set (prereq_mvcc r). mq_ts q \<le> mq_ts p \<Longrightarrow>
   mv_core r' \<and> writehis r' = writehis r \<and> mv_row r' = mv_row r \<and> prereq_mvcc r' = prereq_mvcc r \<and>
   readreq_mvcc r' = readreq_mvcc r \<and> rreq_len r' = rreq_len r \<and> set (readhis r) \<subseteq> set (readhis r') \<and>
   (\<forall>u. mvt_ts (txns' u) = mvt_ts (txns u) \<and> mvt_id (txns' u) = mvt_id (txns u)) \<and>
   ids = map (\<lambda>q. mvt_id (txns (mq_txn q))) qs"
proof (induction qs arbitrary: r txns ids)
  case (Cons q qs)
  let ?r = "insert_history (mq_ts q) None r"
  let ?txns = "txns(mq_txn q := (txns (mq_txn q))\<lparr>cur_row := mv_lookup r (mq_ts q), ts_ready := True\<rparr>)"
  obtain ids1 where ids: "serve_reads qs ?r ?txns = (r', txns', ids1)" "ids = mvt_id (txns (mq_txn q)) # ids1"
    using Cons.prems(1) by (auto simp: Let_def split: prod.splits)
  have "mv_core ?r"
    using Cons.prems(2,3)
    by (auto simp: mv_core_def mv_inv_def insert_history_def insert_his_sorted read_stable_def Let_def)
  moreover have "\<forall>q \<in> set qs. \<forall>p \<in> set (prereq_mvcc ?r). mq_ts q \<le> mq_ts p"
    using Cons.prems(3) by (simp add: insert_history_def)
  ultimately show ?case
    using Cons.IH [OF ids(1)] ids(2) by (auto simp: insert_history_def Let_def split: if_splits)
qed simp

lemma update_buffer_spec:
  assumes "update_buffer r txns = (r', txns', ids)" "mv_core r" "rreq_len r = of_nat (length (readreq_mvcc r))"
  shows "mv_inv r'" "writehis r' = writehis r" "mv_row r' = mv_row r" "prereq_mvcc r' = prereq_mvcc r"
    "set (readhis r) \<subseteq> set (readhis r')" "mvt_ts (txns' u) = mvt_ts (txns u)"
    "set (readreq_mvcc r') \<subseteq> set (readreq_mvcc r)"
proof -
  obtain ready r1 where d: "debuffer_readreq r = (ready, r1)" and sv: "serve_reads ready r1 txns = (r', txns', ids)"
    using assms(1) by (auto simp: update_buffer_def split: prod.splits)
  note db = debuffer_readreq_blocked [OF d assms(3)]
  have r1: "prereq_mvcc r1 = prereq_mvcc r" "writehis r1 = writehis r" "mv_row r1 = mv_row r" "readhis r1 = readhis r"
    by (subst db(4), simp)+
  have "mv_core r1" using assms(2) by (subst db(4)) simp
  then have sp: "mv_core r' \<and> writehis r' = writehis r1 \<and> mv_row r' = mv_row r1 \<and> prereq_mvcc r' = prereq_mvcc r1 \<and>
   readreq_mvcc r' = readreq_mvcc r1 \<and> rreq_len r' = rreq_len r1 \<and> set (readhis r1) \<subseteq> set (readhis r') \<and>
   (\<forall>u. mvt_ts (txns' u) = mvt_ts (txns u) \<and> mvt_id (txns' u) = mvt_id (txns u)) \<and>
   ids = map (\<lambda>q. mvt_id (txns (mq_txn q))) ready"
    using serve_reads_spec [OF sv] db(3) r1 by simp
  then show "writehis r' = writehis r" "mv_row r' = mv_row r" "prereq_mvcc r' = prereq_mvcc r"
    "set (readhis r) \<subseteq> set (readhis r')" "mvt_ts (txns' u) = mvt_ts (txns u)" "set (readreq_mvcc r') \<subseteq> set (readreq_mvcc r)"
    using r1 db(6) by auto
  show "mv_inv r'" using sp db(1,2) by (simp add: mv_inv_core)
qed

section \<open>Accesses\<close>

definition mv_ok :: "mv_store \<Rightarrow> row_mvcc \<Rightarrow> bool" where
  "mv_ok txns r \<longleftrightarrow> mv_inv r \<and> (\<forall>p \<in> set (prereq_mvcc r). mq_ts p = mvt_ts (txns (mq_txn p)))"

lemma debuffer_prereq_spec:
  assumes "debuffer_prereq t r = Some (q, r')" "mv_core r"
  shows "mv_core r'" "q \<in> set (prereq_mvcc r)" "mq_txn q = t" "set (prereq_mvcc r') \<subseteq> set (prereq_mvcc r)"
    "readhis r' = readhis r" "writehis r' = writehis r" "mv_row r' = mv_row r"
    "readreq_mvcc r' = readreq_mvcc r" "rreq_len r' = rreq_len r"
proof -
  obtain qs where un: "unlink_req mq_txn t (prereq_mvcc r) = Some (q, qs)"
    and r': "r' = r\<lparr>prereq_mvcc := qs, preq_len := preq_len r - 1\<rparr>"
    using assms(1) by (auto simp: debuffer_prereq_def bind_eq_Some_conv)
  note u = unlink_req_spec [OF un]
  then have len: "length (prereq_mvcc r) = Suc (length qs)" and st: "set (prereq_mvcc r) = insert q (set qs)"
    by (metis size_add_mset size_mset, metis set_mset_add_mset_insert set_mset_mset)
  show "mv_core r'" using assms(2) len st by (simp add: mv_core_def mv_inv_def r' read_stable_def readers_blocked_def)
  show "q \<in> set (prereq_mvcc r)" "mq_txn q = t" "set (prereq_mvcc r') \<subseteq> set (prereq_mvcc r)"
    "readhis r' = readhis r" "writehis r' = writehis r" "mv_row r' = mv_row r"
    "readreq_mvcc r' = readreq_mvcc r" "rreq_len r' = rreq_len r"
    using u st by (auto simp: r')
qed

lemma read_request_spec:
  assumes inv: "mv_inv r" and conf: "mv_conflict R_REQ ts r = Some conf"
  shows "conf \<Longrightarrow> mv_inv (buffer_req R_REQ t ts r)" "\<not> conf \<Longrightarrow> mv_inv (insert_history ts None r)"
proof -
  show "mv_inv (buffer_req R_REQ t ts r)" if conf
    using inv read_conflict_blocked [of ts r] conf that
    by (auto simp: mv_inv_def buffer_req_def readers_blocked_def Let_def)
  show "mv_inv (insert_history ts None r)" if "\<not> conf"
    using inv read_no_conflict [OF inv, of ts None] conf that
    by (auto simp: mv_inv_def insert_history_def insert_his_sorted Let_def)
qed

lemma prewrite_request_spec:
  assumes inv: "mv_inv r" and conf: "mv_conflict P_REQ ts r = Some False" and ts: "0 < ts"
  shows "mv_inv (buffer_req P_REQ t ts r)"
  using inv prewrite_no_conflict [OF inv conf, of t] ts
  by (auto simp: mv_inv_def buffer_req_def readers_blocked_def Let_def)

lemma write_version_spec:
  assumes inv: "mv_inv r" and row: "row \<noteq> None"
  shows "mv_core (insert_history ts row r)"
    and "ts \<in> mq_ts ` set (prereq_mvcc r) \<Longrightarrow> h \<in> set (readhis r) \<Longrightarrow> mh_ts h \<noteq> ts \<Longrightarrow>
      mv_lookup (insert_history ts row r) (mh_ts h) = mv_lookup r (mh_ts h)"
proof -
  show "mv_core (insert_history ts row r)"
    using inv row by (auto simp: mv_core_def mv_inv_def insert_history_def insert_his_sorted read_stable_def
        readers_blocked_def Let_def)
next
  assume ts: "ts \<in> mq_ts ` set (prereq_mvcc r)" and h: "h \<in> set (readhis r)" "mh_ts h \<noteq> ts"
  from ts obtain p where p: "p \<in> set (prereq_mvcc r)" "mq_ts p = ts" by blast
  have sorted: "his_sorted (writehis r)" and stable: "read_stable (prereq_mvcc r) (readhis r) (writehis r)"
    using inv by (simp_all add: mv_inv_def)
  let ?e = "\<lparr>mh_ts = ts, mh_row = row\<rparr>"
  have "mh_ts h < mh_ts ?e \<or> (\<exists>w \<in> set (writehis r). mh_ts ?e < mh_ts w \<and> mh_ts w \<le> mh_ts h)"
  proof (cases "mh_ts h < ts")
    case False
    with h(2) p(2) have "mq_ts p < mh_ts h" by simp
    with stable p h(1) obtain w where "w \<in> set (writehis r)" "ts < mh_ts w" "mh_ts w < mh_ts h"
      unfolding read_stable_def by blast
    then show ?thesis by (auto intro: less_imp_le)
  qed simp
  from find_insert_his [OF sorted this] row
  show "mv_lookup (insert_history ts row r) (mh_ts h) = mv_lookup r (mh_ts h)"
    by (intro mv_lookup_cong) (simp_all add: insert_history_def)
qed

text \<open>Before recycling: a request keeps the invariant and what every recorded read has seen.\<close>

lemma mv_request_spec:
  assumes ok: "mv_ok txns r" and ts: "0 < mvt_ts (txns t)" and row: "ty = W_REQ \<longrightarrow> row \<noteq> None"
    and req: "mv_request lim t ty row r txns = Some (rc, r', txns', ids)"
  shows "mv_ok txns' r'"
    and "\<forall>p \<in> set (prereq_mvcc r'). p \<in> set (prereq_mvcc r) \<or> mq_ts p = mvt_ts (txns t)"
    and "h \<in> set (readhis r) \<Longrightarrow> ty = W_REQ \<longrightarrow> mh_ts h \<noteq> mvt_ts (txns t) \<Longrightarrow>
           mv_lookup r' (mh_ts h) = mv_lookup r (mh_ts h)"
proof -
  let ?ts = "mvt_ts (txns t)"
  have inv: "mv_inv r" and cur: "\<forall>p \<in> set (prereq_mvcc r). mq_ts p = mvt_ts (txns (mq_txn p))"
    using ok by (simp_all add: mv_ok_def)
  consider (R) "ty = R_REQ" | (P) "ty = P_REQ" | (W) "ty \<noteq> R_REQ" "ty \<noteq> P_REQ" by blast
  then have "mv_ok txns' r' \<and> (\<forall>p \<in> set (prereq_mvcc r'). p \<in> set (prereq_mvcc r) \<or> mq_ts p = ?ts) \<and>
    (h \<in> set (readhis r) \<longrightarrow> (ty = W_REQ \<longrightarrow> mh_ts h \<noteq> ?ts) \<longrightarrow> mv_lookup r' (mh_ts h) = mv_lookup r (mh_ts h))"
  proof cases
    case R
    with req obtain conf where c: "mv_conflict R_REQ ?ts r = Some conf"
      by (auto simp: mv_request_def Let_def bind_eq_Some_conv)
    have "mv_inv r'" using req R c inv read_request_spec [OF inv c]
      by (auto simp: mv_request_def Let_def split: if_splits)
    moreover have "prereq_mvcc r' = prereq_mvcc r" "writehis r' = writehis r" "mv_row r' = mv_row r"
      "mvt_ts (txns' u) = mvt_ts (txns u)" for u
      using req R c by (auto simp: mv_request_def Let_def buffer_req_def insert_history_def split: if_splits)
    ultimately show ?thesis using cur by (auto simp: mv_ok_def intro: mv_lookup_cong)
  next
    case P
    with req obtain conf where c: "mv_conflict P_REQ ?ts r = Some conf"
      by (auto simp: mv_request_def Let_def bind_eq_Some_conv)
    have "mv_inv r'" using req P c inv prewrite_request_spec [OF inv _ ts]
      by (auto simp: mv_request_def Let_def split: if_splits)
    moreover have "prereq_mvcc r' = prereq_mvcc r \<or> prereq_mvcc r' = \<lparr>mq_txn = t, mq_ts = ?ts\<rparr> # prereq_mvcc r"
      "writehis r' = writehis r" "mv_row r' = mv_row r" "txns' = txns"
      using req P c by (auto simp: mv_request_def Let_def buffer_req_def split: if_splits)
    ultimately show ?thesis using cur by (auto simp: mv_ok_def intro: mv_lookup_cong)
  next
    case W
    define r0 where "r0 = (if ty = W_REQ then insert_history ?ts row r else r)"
    from req W obtain q r1 where d: "debuffer_prereq t r0 = Some (q, r1)" and u: "update_buffer r1 txns = (r', txns', ids)"
      by (auto simp: mv_request_def r0_def Let_def bind_eq_Some_conv split: prod.splits)
    have core: "mv_core r0" using inv row write_version_spec(1) [OF inv] by (simp add: r0_def mv_inv_core)
    have f0: "prereq_mvcc r0 = prereq_mvcc r" "readreq_mvcc r0 = readreq_mvcc r" "rreq_len r0 = rreq_len r"
      using row by (auto simp: r0_def insert_history_def Let_def)
    note d1 = debuffer_prereq_spec [OF d core]
    have len: "rreq_len r1 = of_nat (length (readreq_mvcc r1))" using inv d1 f0 by (simp add: mv_inv_def)
    note u1 = update_buffer_spec [OF u d1(1) len]
    have q: "q \<in> set (prereq_mvcc r)" "mq_ts q = ?ts" using d1(2,3) f0 cur by auto
    have "mv_lookup r' (mh_ts h) = mv_lookup r0 (mh_ts h)" using u1 d1 by (intro mv_lookup_cong) simp_all
    moreover have "mv_lookup r0 (mh_ts h) = mv_lookup r (mh_ts h)"
      if "h \<in> set (readhis r)" "ty = W_REQ \<longrightarrow> mh_ts h \<noteq> ?ts"
    proof (cases "ty = W_REQ")
      case True
      moreover have "?ts \<in> mq_ts ` set (prereq_mvcc r)" using q by (metis imageI)
      ultimately show ?thesis
        using that row write_version_spec(2) [OF inv _ _ that(1)] by (simp add: r0_def)
    qed (simp add: r0_def)
    moreover have "mv_ok txns' r'" using u1 d1 f0 cur by (auto simp: mv_ok_def)
    ultimately show ?thesis using u1 d1 f0 by auto
  qed
  then show "mv_ok txns' r'"
    "\<forall>p \<in> set (prereq_mvcc r'). p \<in> set (prereq_mvcc r) \<or> mq_ts p = ?ts"
    "h \<in> set (readhis r) \<Longrightarrow> ty = W_REQ \<longrightarrow> mh_ts h \<noteq> ?ts \<Longrightarrow> mv_lookup r' (mh_ts h) = mv_lookup r (mh_ts h)"
    by blast+
qed

lemma mv_request_total:
  assumes ok: "mv_ok txns r" and pend: "ty = W_REQ \<or> ty = XP_REQ \<longrightarrow> t \<in> mq_txn ` set (prereq_mvcc r)"
    and row: "ty = W_REQ \<longrightarrow> row \<noteq> None"
  shows "mv_request lim t ty row r txns \<noteq> None"
proof (cases "ty = R_REQ \<or> ty = P_REQ")
  case True
  with ok mv_conflict_total [of r ty "mvt_ts (txns t)"] show ?thesis
    by (auto simp: mv_ok_def mv_request_def Let_def)
next
  case False
  then have "ty = W_REQ \<or> ty = XP_REQ" by (cases ty) auto
  with pend obtain q where "q \<in> set (prereq_mvcc r)" "mq_txn q = t" by blast
  then obtain q' qs where "unlink_req mq_txn t (prereq_mvcc r) = Some (q', qs)" using unlink_req_total by fastforce
  with False row show ?thesis
    by (auto simp: mv_request_def debuffer_prereq_def insert_history_def Let_def case_prod_beta)
      (metis prod_cases3)+
qed

text \<open>C10: A request of the MVCC row manager keeps its invariant, and every read already recorded keeps seeing the same version: the version a reader with time stamp ts was given is still the newest one not after ts, after any other read, prewrite, write, cancelled prewrite or garbage collection below the oldest active time stamp.\<close>

theorem mv_access_read_stable:
  assumes "mv_ok txns r" and "\<forall>p \<in> set (prereq_mvcc r). min_ts \<le> mq_ts p"
    and "0 < mvt_ts (txns t)" and "min_ts \<le> mvt_ts (txns t)" and "ty = W_REQ \<longrightarrow> row \<noteq> None"
    and acc: "mv_access lim min_ts t ty row r txns = Some (rc, r', txns', ids)"
  shows "mv_ok txns' r' \<and>
    (\<forall>h \<in> set (readhis r). min_ts \<le> mh_ts h \<and> (ty = W_REQ \<longrightarrow> mh_ts h \<noteq> mvt_ts (txns t)) \<longrightarrow>
       mv_lookup r' (mh_ts h) = mv_lookup r (mh_ts h))"
proof -
  from acc obtain r1 where req: "mv_request lim t ty row r txns = Some (rc, r1, txns', ids)"
    and rec: "(if rc = RCOK then recycle (his_recycle_len lim) min_ts r1 else Some r1) = Some r'"
    by (auto simp: mv_access_def bind_eq_Some_conv)
  note s = mv_request_spec [OF assms(1,3,5) req]
  have inv: "mv_inv r1" using s(1) by (simp add: mv_ok_def)
  have old: "\<forall>p \<in> set (prereq_mvcc r1). min_ts \<le> mq_ts p" using s(2) assms(2,4) by fastforce
  obtain r2 where r2: "recycle (his_recycle_len lim) min_ts r1 = Some r2" "mv_inv r2"
    "\<forall>ts \<ge> min_ts. mv_lookup r2 ts = mv_lookup r1 ts" "set (readhis r2) \<subseteq> set (readhis r1)"
    "prereq_mvcc r2 = prereq_mvcc r1" "readreq_mvcc r2 = readreq_mvcc r1"
    by (rule recycle_spec [OF inv old]) (rule that)
  have "r' = r1 \<or> r' = r2" using rec r2(1) by (auto split: if_splits)
  then have "mv_ok txns' r'" "\<forall>ts \<ge> min_ts. mv_lookup r' ts = mv_lookup r1 ts"
    using s(1) r2 by (auto simp: mv_ok_def)
  with s(3) show ?thesis by auto
qed

text \<open>C11: No assertion of the MVCC row manager fails and no pointer is followed past its list: a read or a prewrite always completes, and a write or a cancelled prewrite completes when the transaction has a pending prewrite on the row.\<close>

theorem mv_access_completes:
  assumes "mv_ok txns r" and "\<forall>p \<in> set (prereq_mvcc r). min_ts \<le> mq_ts p"
    and "0 < mvt_ts (txns t)" and "min_ts \<le> mvt_ts (txns t)" and "ty = W_REQ \<longrightarrow> row \<noteq> None"
    and pend: "ty = W_REQ \<or> ty = XP_REQ \<longrightarrow> t \<in> mq_txn ` set (prereq_mvcc r)"
  shows "\<exists>rc r' txns' ids. mv_access lim min_ts t ty row r txns = Some (rc, r', txns', ids)"
proof -
  from mv_request_total [OF assms(1) pend assms(5)] obtain rc r1 txns' ids
    where req: "mv_request lim t ty row r txns = Some (rc, r1, txns', ids)" by fastforce
  note s = mv_request_spec [OF assms(1,3,5) req]
  have inv: "mv_inv r1" using s(1) by (simp add: mv_ok_def)
  have old: "\<forall>p \<in> set (prereq_mvcc r1). min_ts \<le> mq_ts p" using s(2) assms(2,4) by fastforce
  obtain r2 where "recycle (his_recycle_len lim) min_ts r1 = Some r2"
    by (rule recycle_spec [OF inv old]) (rule that)
  with req show ?thesis by (auto simp: mv_access_def)
qed

lemma find_newest:
  assumes "his_sorted ws" "List.find (\<lambda>h. mh_ts h \<le> ts) ws = Some w"
  shows "w \<in> set ws" "mh_ts w \<le> ts" "\<And>v. v \<in> set ws \<Longrightarrow> mh_ts v \<le> ts \<Longrightarrow> mh_ts v \<le> mh_ts w"
  using assms by (induction ws) (auto simp: his_sorted_def split: if_splits)

lemma mv_lookup_newest:
  assumes "mv_inv r"
  shows "(\<exists>w \<in> set (writehis r). mh_row w = Some (mv_lookup r ts) \<and> mh_ts w \<le> ts \<and>
            (\<forall>v \<in> set (writehis r). mh_ts v \<le> ts \<longrightarrow> mh_ts v \<le> mh_ts w)) \<or>
         (\<forall>w \<in> set (writehis r). ts < mh_ts w) \<and> mv_lookup r ts = mv_row r"
proof (cases "List.find (\<lambda>h. mh_ts h \<le> ts) (writehis r)")
  case None
  then have "mv_lookup r ts = mv_row r" by (simp add: mv_lookup_find)
  with None show ?thesis by (auto simp: find_None_iff not_le)
next
  case (Some w)
  have "his_sorted (writehis r)" "\<forall>w \<in> set (writehis r). mh_row w \<noteq> None" using assms by (simp_all add: mv_inv_def)
  with find_newest [OF this(1) Some] Some show ?thesis by (fastforce simp: mv_lookup_find)
qed

text \<open>C12: A read that the MVCC row manager grants returns the newest version not after the reader's time stamp (the row's base copy when there is none), and no transaction that could still install a version between that one and the reader is pending on the row.\<close>

theorem mv_read_returns_newest_version:
  assumes inv: "mv_inv r" and req: "mv_request lim t R_REQ row r txns = Some (RCOK, r', txns', ids)"
  shows "((\<exists>w \<in> set (writehis r). mh_row w = Some (cur_row (txns' t)) \<and> mh_ts w \<le> mvt_ts (txns t) \<and>
            (\<forall>v \<in> set (writehis r). mh_ts v \<le> mvt_ts (txns t) \<longrightarrow> mh_ts v \<le> mh_ts w)) \<or>
          (\<forall>w \<in> set (writehis r). mvt_ts (txns t) < mh_ts w) \<and> cur_row (txns' t) = mv_row r) \<and>
         (\<forall>p \<in> set (prereq_mvcc r). mq_ts p < mvt_ts (txns t) \<longrightarrow>
            (\<exists>w \<in> set (writehis r). mq_ts p < mh_ts w \<and> mh_ts w < mvt_ts (txns t)))"
proof -
  from req have c: "mv_conflict R_REQ (mvt_ts (txns t)) r = Some False"
    and row: "cur_row (txns' t) = mv_lookup r (mvt_ts (txns t))"
    by (auto simp: mv_request_def Let_def bind_eq_Some_conv split: if_splits)
  from read_no_conflict [OF inv c]
  have "\<forall>p \<in> set (prereq_mvcc r). mq_ts p < mvt_ts (txns t) \<longrightarrow>
            (\<exists>w \<in> set (writehis r). mq_ts p < mh_ts w \<and> mh_ts w < mvt_ts (txns t))"
    by (simp add: read_stable_def)
  with mv_lookup_newest [OF inv, of "mvt_ts (txns t)"] show ?thesis unfolding row by blast
qed

section \<open>Concrete runs\<close>

definition demo_mvs :: mv_store where
  "demo_mvs t = \<lparr>mvt_id = of_nat t, mvt_ts = of_nat t * 10, ts_ready = True, cur_row = []\<rparr>"

text \<open>A row with versions 10 and 25, a recorded read at 30, which saw version 25, and a pending prewrite at 20.\<close>

definition demo_mvrow :: row_mvcc where
  "demo_mvrow = \<lparr>mv_row = [0], readreq_mvcc = [], prereq_mvcc = [\<lparr>mq_txn = 2, mq_ts = 20\<rparr>],
     readhis = [\<lparr>mh_ts = 30, mh_row = None\<rparr>],
     writehis = [\<lparr>mh_ts = 25, mh_row = Some [25]\<rparr>, \<lparr>mh_ts = 10, mh_row = Some [10]\<rparr>],
     whis_len = 2, rhis_len = 1, rreq_len = 0, preq_len = 1\<rparr>"

definition demo_limits :: mv_limits where
  "demo_limits = \<lparr>max_read_req = 4, max_pre_req = 4, his_recycle_len = 1\<rparr>"

lemma demo_mv_ok: "mv_ok demo_mvs demo_mvrow"
  by (simp add: mv_ok_def mv_inv_def his_sorted_def read_stable_def readers_blocked_def demo_mvrow_def demo_mvs_def)

lemma demo_mv_write:
  "\<exists>r' txns'. mv_access demo_limits 20 2 W_REQ (Some [20]) demo_mvrow demo_mvs = Some (RCOK, r', txns', [])"
proof -
  have "map_option (\<lambda>(rc, r', txns', ids). (rc, ids)) (mv_access demo_limits 20 2 W_REQ (Some [20]) demo_mvrow demo_mvs)
          = Some (RCOK, [])" by code_simp
  then show ?thesis by (auto simp: map_option_eq_Some)
qed

theorem mv_access_read_stable_witness:
  "\<exists>r' txns'. mv_access demo_limits 20 2 W_REQ (Some [20]) demo_mvrow demo_mvs = Some (RCOK, r', txns', []) \<and>
     mv_ok txns' r' \<and> mv_lookup r' 30 = [25]"
proof -
  obtain r' txns' where a: "mv_access demo_limits 20 2 W_REQ (Some [20]) demo_mvrow demo_mvs = Some (RCOK, r', txns', [])"
    using demo_mv_write by blast
  have 1: "\<forall>p \<in> set (prereq_mvcc demo_mvrow). 20 \<le> mq_ts p" "0 < mvt_ts (demo_mvs 2)" "20 \<le> mvt_ts (demo_mvs 2)"
    and 2: "mv_lookup demo_mvrow 30 = [25]"
    by code_simp+
  have "mv_ok txns' r' \<and> mv_lookup r' 30 = mv_lookup demo_mvrow 30"
    using mv_access_read_stable [OF demo_mv_ok 1 _ a] by (simp add: demo_mvrow_def demo_mvs_def)
  with a 2 show ?thesis by auto
qed

theorem mv_access_completes_witness:
  "\<exists>rc r' txns' ids. mv_access demo_limits 20 2 XP_REQ None demo_mvrow demo_mvs = Some (rc, r', txns', ids)"
  by (rule mv_access_completes [OF demo_mv_ok]) (simp_all add: demo_mvrow_def demo_mvs_def)

theorem mv_read_returns_newest_version_witness:
  "\<exists>r' txns'. mv_request demo_limits 4 R_REQ None demo_mvrow demo_mvs = Some (RCOK, r', txns', []) \<and>
     cur_row (txns' 4) = [25]"
proof -
  have "map_option (\<lambda>(rc, r', txns', ids). (rc, ids)) (mv_request demo_limits 4 R_REQ None demo_mvrow demo_mvs)
          = Some (RCOK, [])" by code_simp
  then obtain r' txns' where a: "mv_request demo_limits 4 R_REQ None demo_mvrow demo_mvs = Some (RCOK, r', txns', [])"
    by (auto simp: map_option_eq_Some)
  have "mv_inv demo_mvrow" using demo_mv_ok by (simp add: mv_ok_def)
  from mv_read_returns_newest_version [OF this a] have "cur_row (txns' 4) = [25]"
    by (auto simp: demo_mvrow_def demo_mvs_def)
  with a show ?thesis by blast
qed

lemma recycle_reads_writehis: "recycle_reads th r = Some r1 \<Longrightarrow> writehis r1 = writehis r"
  by (auto simp: recycle_reads_def clear_history_def split: list.splits if_splits bind_splits)

lemma recycle_discards:
  assumes inv: "mv_inv r" and rec: "recycle n th r = Some r'" and w: "w \<in> set (writehis r)" "w \<notin> set (writehis r')"
  obtains ws d ds where "writehis r = ws @ d # ds" "writehis r' = ws" "mh_row d = Some (mv_row r')" "w \<in> set (d # ds)"
proof -
  have "whis_len r > n \<or> rhis_len r > n" using rec w by (auto simp: recycle_split split: if_splits)
  then obtain r1 where r1: "recycle_reads th r = Some r1" "recycle_writes th r1 = Some r'"
    using rec by (auto simp: recycle_split split: bind_splits)
  note h1 = recycle_reads_writehis [OF r1(1)]
  obtain row r2 where cl: "clear_history W_REQ th r1 = Some (row, r2)" and r': "r' = (case row of None \<Rightarrow> r2 | Some row \<Rightarrow> r2\<lparr>mv_row := row\<rparr>)"
    using r1(2) w h1 by (auto simp: recycle_writes_def split: if_splits list.splits bind_splits)
  have s: "his_sorted (writehis r1)" "writehis r1 \<noteq> []" using inv w h1 by (auto simp: mv_inv_def)
  from clear_history_write [OF s, of th] obtain ws ds where sp: "clear_history W_REQ th r1 =
      Some (if ds = [] then None else mh_row (hd ds), r1\<lparr>writehis := ws, whis_len := whis_len r1 - of_nat (length ds)\<rparr>)" "writehis r1 = ws @ ds" by metis
  have ws: "writehis r' = ws" using cl sp(1) r' by (auto split: option.splits)
  then have ds: "w \<in> set ds" using w sp(2) unfolding h1 by (metis Un_iff set_append)
  then obtain d ds' where d: "ds = d # ds'" by (cases ds) auto
  have "d \<in> set (writehis r)" using sp(2) unfolding h1 d by (metis in_set_conv_decomp)
  then have "mh_row d \<noteq> None" using inv by (simp add: mv_inv_def)
  then have "mh_row d = Some (mv_row r')" using cl sp(1) r' d by (auto split: option.splits)
  then show thesis using that ws ds d sp(2) h1 by metis
qed

text \<open>C32: What recycling gives up: if it discards a version that was written after some time, every later read at that time returns the contents of a version that was written after it, a version from the future of the read. The mark of a node is therefore only safe for reads that it counts; a query that another node sends later with a smaller timestamp is not one of them.\<close>

theorem late_read_sees_future:
  assumes "mv_inv r" "recycle n th r = Some r'" "w \<in> set (writehis r)" "w \<notin> set (writehis r')" "ts < mh_ts w"
  shows "\<exists>w' \<in> set (writehis r). ts < mh_ts w' \<and> mh_row w' = Some (mv_lookup r' ts)"
proof -
  obtain ws d ds where s: "writehis r = ws @ d # ds" "writehis r' = ws" "mh_row d = Some (mv_row r')" "w \<in> set (d # ds)"
    using recycle_discards [OF assms(1-4)] by blast
  have so: "his_sorted (ws @ d # ds)" using assms(1) s(1) by (simp add: mv_inv_def)
  then have d: "ts < mh_ts d" using s(4) assms(5) by (auto simp: his_sorted_def sorted_wrt_append intro: less_le_trans)
  have "\<forall>h \<in> set ws. ts < mh_ts h" using so d by (auto simp: his_sorted_append intro: less_le_trans)
  then have "dropWhile (\<lambda>h. mh_ts h > ts) (writehis r') = []" unfolding s(2) dropWhile_eq_Nil_conv .
  then have "mv_lookup r' ts = mv_row r'" by (simp only: mv_lookup_def list.case)
  then show ?thesis using d s by auto
qed

definition demo_versions :: row_mvcc where
  "demo_versions = \<lparr>mv_row = [0], readreq_mvcc = [], prereq_mvcc = [], readhis = [],
     writehis = map (\<lambda>ts. \<lparr>mh_ts = ts, mh_row = Some [ucast ts]\<rparr>) [12, 11, 10, 9, 8, 7, 6, 5, 4, 3, 2],
     whis_len = 11, rhis_len = 0, rreq_len = 0, preq_len = 0\<rparr>"

lemma demo_versions_inv: "mv_inv demo_versions"
  by (simp add: mv_inv_def his_sorted_def read_stable_def readers_blocked_def demo_versions_def)

lemma demo_recycle: "map_option (\<lambda>r'. (map mh_ts (writehis r'), mv_lookup r' 5)) (recycle 10 10 demo_versions) = Some ([12, 11, 10, 9], [8])"
  "mv_lookup demo_versions 5 = [5]"
  by code_simp+

theorem late_read_sees_future_witness:
  "\<exists>r'. recycle 10 10 demo_versions = Some r' \<and> mv_lookup demo_versions 5 = [5] \<and> mv_lookup r' 5 = [8] \<and>
     (\<exists>w' \<in> set (writehis demo_versions). 5 < mh_ts w' \<and> mh_row w' = Some (mv_lookup r' 5))"
proof -
  obtain r' where r': "recycle 10 10 demo_versions = Some r'" "map mh_ts (writehis r') = [12, 11, 10, 9]" "mv_lookup r' 5 = [8]"
    using demo_recycle(1) by (auto simp: map_option_eq_Some)
  let ?w = "\<lparr>mh_ts = 8, mh_row = Some [8]\<rparr>"
  have "mh_ts ?w \<notin> set (map mh_ts (writehis r'))" unfolding r'(2) by simp
  then have "?w \<notin> set (writehis r')" by (metis image_eqI set_map)
  moreover have "?w \<in> set (writehis demo_versions)" by (simp add: demo_versions_def)
  ultimately show ?thesis using late_read_sees_future [OF demo_versions_inv r'(1), of ?w 5] r' demo_recycle(2) by simp
qed

end
