(* ===== verification/Row_Ts.thy ===== *)
theory Row_Ts
  imports Request_List
begin

text \<open>
  The basic timestamp ordering row manager of \<^verbatim>\<open>concurrency_control/row_ts.cpp\<close>. \<^verbatim>\<open>access\<close> runs
  under the row's latch and is one step. The three request stacks are lists from the head on, a
  row pointer is the tuple data it points to, and the calls of \<^verbatim>\<open>restart_txn\<close> are returned as a
  list of transaction ids. \<^verbatim>\<open>TS_TWR\<close> (Thomas' write rule, off in \<^verbatim>\<open>config.h\<close>) is the argument
  \<open>twr\<close>. \<open>None\<close> is a failed assertion or a null pointer that is followed.

  The second half lets any number of transactions use one row the way \<^verbatim>\<open>row_t::get_row\<close> and
  \<^verbatim>\<open>row_t::return_row\<close> do (a writer prewrites, reads, and then writes or cancels) and shows that
  reads and writes take effect in timestamp order, that no assertion fails and no write is ever
  buffered, and that the owner of the oldest prewrite is never the one that waits.
\<close>

section \<open>State\<close>

record ts_req =
  tq_txn :: txn_ptr
  tq_row :: "row_bytes option"
  tq_ts :: ts_t

record row_ts =
  rt_row :: row_bytes
  wts :: ts_t
  rts :: ts_t
  min_wts :: ts_t
  min_rts :: ts_t
  min_pts :: ts_t
  readreq :: "ts_req list"
  writereq :: "ts_req list"
  prereq :: "ts_req list"
  ts_preq_len :: u64

definition row_ts_init :: "row_bytes \<Rightarrow> row_ts" where
  "row_ts_init row = \<lparr>rt_row = row, wts = 0, rts = 0, min_wts = UINT64_MAX, min_rts = UINT64_MAX,
     min_pts = UINT64_MAX, readreq = [], writereq = [], prereq = [], ts_preq_len = 0\<rparr>"

section \<open>Operations\<close>

definition ts_buffer_req :: "TsType \<Rightarrow> txn_ptr \<Rightarrow> ts_t \<Rightarrow> row_bytes option \<Rightarrow> row_ts \<Rightarrow> row_ts option" where
  "ts_buffer_req ty t ts row r =
     (let e = \<lparr>tq_txn = t, tq_row = row, tq_ts = ts\<rparr>
      in if ty = R_REQ then
           Some (r\<lparr>readreq := e # readreq r, min_rts := (if ts < min_rts r then ts else min_rts r)\<rparr>)
         else if ty = W_REQ then do {
           ASSERT (row \<noteq> None);
           Some (r\<lparr>writereq := e # writereq r, min_wts := (if ts < min_wts r then ts else min_wts r)\<rparr>) }
         else if ty = P_REQ then
           Some (r\<lparr>ts_preq_len := ts_preq_len r + 1, prereq := e # prereq r,
                   min_pts := (if ts < min_pts r then ts else min_pts r)\<rparr>)
         else Some r)"

definition ts_queue :: "TsType \<Rightarrow> row_ts \<Rightarrow> ts_req list option" where
  "ts_queue ty r = (case ty of R_REQ \<Rightarrow> Some (readreq r) | P_REQ \<Rightarrow> Some (prereq r)
     | W_REQ \<Rightarrow> Some (writereq r) | XP_REQ \<Rightarrow> None)"

definition set_ts_queue :: "TsType \<Rightarrow> ts_req list \<Rightarrow> row_ts \<Rightarrow> row_ts" where
  "set_ts_queue ty qs r = (case ty of R_REQ \<Rightarrow> r\<lparr>readreq := qs\<rparr> | P_REQ \<Rightarrow> r\<lparr>prereq := qs\<rparr>
     | W_REQ \<Rightarrow> r\<lparr>writereq := qs\<rparr> | XP_REQ \<Rightarrow> r)"

text \<open>\<^verbatim>\<open>debuffer_req\<close> with a transaction (lines 112 to 126) and with a timestamp (128 to 143).\<close>

definition ts_debuffer_txn :: "TsType \<Rightarrow> txn_ptr \<Rightarrow> row_ts \<Rightarrow> (ts_req \<times> row_ts) option" where
  "ts_debuffer_txn ty t r = do {
     qs \<leftarrow> ts_queue ty r;
     (q, qs) \<leftarrow> unlink_req tq_txn t qs;
     Some (q, (set_ts_queue ty qs r)\<lparr>ts_preq_len := ts_preq_len r - 1\<rparr>) }"

definition ts_debuffer_upto :: "TsType \<Rightarrow> ts_t \<Rightarrow> row_ts \<Rightarrow> (ts_req list \<times> row_ts) option" where
  "ts_debuffer_upto ty ts r = do {
     qs \<leftarrow> ts_queue ty r;
     let (ready, rest) = split_ready tq_ts ts qs [];
     Some (ready, set_ts_queue ty rest r) }"

definition cal_min :: "TsType \<Rightarrow> row_ts \<Rightarrow> ts_t option" where
  "cal_min ty r = do { qs \<leftarrow> ts_queue ty r; Some (min_req_ts tq_ts qs) }"

text \<open>Lines 281 to 292: the reads that have become ready.\<close>

fun ts_serve :: "ts_req list \<Rightarrow> row_ts \<Rightarrow> mv_store \<Rightarrow> row_ts \<times> mv_store \<times> txnid_t list" where
  "ts_serve [] r txns = (r, txns, [])"
| "ts_serve (q # qs) r txns =
     (let m = txns (tq_txn q);
          txns = txns(tq_txn q := m\<lparr>cur_row := rt_row r, ts_ready := True\<rparr>);
          r = (if rts r < tq_ts q then r\<lparr>rts := tq_ts q\<rparr> else r);
          (r, txns, ids) = ts_serve qs r txns
      in (r, txns, mvt_id m # ids))"

text \<open>Lines 303 to 315: the prewrites of the ready writes are dropped and \<^verbatim>\<open>young_req\<close> is the one with
  the least timestamp.\<close>

fun ts_pick_young :: "ts_req list \<Rightarrow> ts_t \<Rightarrow> ts_req option \<Rightarrow> row_ts \<Rightarrow> (ts_req option \<times> row_ts) option" where
  "ts_pick_young [] young_ts young r = Some (young, r)"
| "ts_pick_young (q # qs) young_ts young r = do {
     (tmp, r) \<leftarrow> ts_debuffer_txn P_REQ (tq_txn q) r;
     if tq_ts q < young_ts then ts_pick_young qs (tq_ts q) (Some q) r else ts_pick_young qs young_ts young r }"

text \<open>Lines 302 to 320.\<close>

definition ts_apply_writes :: "ts_req list \<Rightarrow> row_ts \<Rightarrow> row_ts option" where
  "ts_apply_writes ready r = do {
     (young, r) \<leftarrow> ts_pick_young ready UINT64_MAX None r;
     y \<leftarrow> young;
     d \<leftarrow> tq_row y;
     Some (r\<lparr>rt_row := d, wts := (if wts r < tq_ts y then tq_ts y else wts r)\<rparr>) }"

text \<open>One pass of the loop of \<^verbatim>\<open>update_buffer\<close>; the flag says that the loop goes on.\<close>

definition ts_round :: "row_ts \<Rightarrow> mv_store \<Rightarrow> (row_ts \<times> mv_store \<times> txnid_t list \<times> bool) option" where
  "ts_round r txns = do {
     new_min_pts \<leftarrow> cal_min P_REQ r;
     ASSERT (new_min_pts \<ge> min_pts r);
     if \<not> new_min_pts > min_pts r then Some (r, txns, [], False)
     else do {
       (ready_read, r) \<leftarrow> ts_debuffer_upto R_REQ new_min_pts (r\<lparr>min_pts := new_min_pts\<rparr>);
       if ready_read = [] then Some (r, txns, [], False)
       else do {
         let (r, txns, ids) = ts_serve ready_read r txns;
         new_min_rts \<leftarrow> cal_min R_REQ r;
         if \<not> new_min_rts > min_rts r then Some (r, txns, ids, False)
         else do {
           (ready_write, r) \<leftarrow> ts_debuffer_upto W_REQ new_min_rts (r\<lparr>min_rts := new_min_rts\<rparr>);
           if ready_write = [] then Some (r, txns, ids, False)
           else do {
             r \<leftarrow> ts_apply_writes ready_write r;
             Some (r, txns, ids, True) } } } } }"

lemma ts_debuffer_txn_writereq:
  "ts_debuffer_txn P_REQ t r = Some (q, r') \<Longrightarrow> writereq r' = writereq r"
  by (auto simp: ts_debuffer_txn_def ts_queue_def set_ts_queue_def bind_eq_Some_conv)

lemma ts_pick_young_writereq:
  "ts_pick_young qs yt y r = Some (y', r') \<Longrightarrow> writereq r' = writereq r"
proof (induction qs arbitrary: yt y r)
  case (Cons q qs)
  from Cons.prems obtain tmp r1 where d: "ts_debuffer_txn P_REQ (tq_txn q) r = Some (tmp, r1)"
    by (cases "ts_debuffer_txn P_REQ (tq_txn q) r") auto
  with Cons.prems have "\<exists>yt y. ts_pick_young qs yt y r1 = Some (y', r')" by (auto split: if_splits)
  with Cons.IH ts_debuffer_txn_writereq [OF d] show ?case by metis
qed simp

lemma ts_serve_eq:
  "fst (ts_serve qs r txns) = r\<lparr>rts := fold (\<lambda>q m. max m (tq_ts q)) qs (rts r)\<rparr>"
proof (induction qs arbitrary: r txns)
  case (Cons q qs)
  have "(if rts r < tq_ts q then r\<lparr>rts := tq_ts q\<rparr> else r) = r\<lparr>rts := max (rts r) (tq_ts q)\<rparr>"
    by (auto simp: max_def)
  then show ?case by (simp add: Let_def case_prod_beta Cons.IH)
qed simp

lemma ts_serve_frame:
  "ts_serve qs r txns = (r', txns', ids) \<Longrightarrow> r' = r\<lparr>rts := fold (\<lambda>q m. max m (tq_ts q)) qs (rts r)\<rparr>"
  using ts_serve_eq [of qs r txns] by simp

lemma ts_round_eq:
  "ts_round r txns =
     (let m = min_req_ts tq_ts (prereq r) in
      if m < min_pts r then None else if m = min_pts r then Some (r, txns, [], False)
      else
        let r0 = r\<lparr>min_pts := m, readreq := filter (\<lambda>q. \<not> tq_ts q \<le> m) (readreq r)\<rparr>;
            rd = rev (filter (\<lambda>q. tq_ts q \<le> m) (readreq r))
        in if rd = [] then Some (r0, txns, [], False)
           else
             case ts_serve rd r0 txns of (r1, txns1, ids) \<Rightarrow>
               let m' = min_req_ts tq_ts (readreq r1) in
               if \<not> m' > min_rts r1 then Some (r1, txns1, ids, False)
               else
                 let wr = rev (filter (\<lambda>q. tq_ts q \<le> m') (writereq r1));
                     r2 = r1\<lparr>min_rts := m', writereq := filter (\<lambda>q. \<not> tq_ts q \<le> m') (writereq r1)\<rparr>
                 in if wr = [] then Some (r2, txns1, ids, False)
                    else map_option (\<lambda>r. (r, txns1, ids, True)) (ts_apply_writes wr r2))"
proof -
  have bind_map: "x \<bind> (\<lambda>r. Some (f r)) = map_option f x" for x :: "row_ts option" and f :: "row_ts \<Rightarrow> row_ts \<times> mv_store \<times> txnid_t list \<times> bool"
    by (cases x) simp_all
  have 1: "ASSERT (m \<ge> k) \<bind> (\<lambda>_. if \<not> m > k then a else b) = (if m < k then None else if m = k then a else b)"
    for m k :: ts_t and a b :: "(row_ts \<times> mv_store \<times> txnid_t list \<times> bool) option"
    by (auto simp: ASSERT_def)
  have 2: "writereq (q\<lparr>min_rts := x\<rparr>) = writereq q" for q :: row_ts and x by simp
  show ?thesis
    unfolding ts_round_def cal_min_def ts_debuffer_upto_def ts_queue_def set_ts_queue_def split_ready_eq Let_def
      TsType.case bind.bind_lunit append_Nil2 prod.case 1 2 bind_map row_ts.simps
    by simp
qed

lemma ts_round_decreases:
  assumes "ts_round r txns = Some (r', txns', ids, True)"
  shows "length (writereq r') < length (writereq r)"
proof -
  define m where "m = min_req_ts tq_ts (prereq r)"
  define r0 where "r0 = r\<lparr>min_pts := m, readreq := filter (\<lambda>q. \<not> tq_ts q \<le> m) (readreq r)\<rparr>"
  define rd where "rd = rev (filter (\<lambda>q. tq_ts q \<le> m) (readreq r))"
  obtain r1 txns1 ids1 where srv: "ts_serve rd r0 txns = (r1, txns1, ids1)" by (metis prod_cases3)
  define m' where "m' = min_req_ts tq_ts (readreq r1)"
  define wr where "wr = rev (filter (\<lambda>q. tq_ts q \<le> m') (writereq r1))"
  define r2 where "r2 = r1\<lparr>min_rts := m', writereq := filter (\<lambda>q. \<not> tq_ts q \<le> m') (writereq r1)\<rparr>"
  have wr: "wr \<noteq> []" and ap: "ts_apply_writes wr r2 = Some r'"
    using assms
    unfolding ts_round_eq Let_def m_def [symmetric] r0_def [symmetric] rd_def [symmetric] srv prod.case
      m'_def [symmetric] wr_def [symmetric] r2_def [symmetric]
    by (simp_all split: if_splits)
  from ap have 1: "writereq r' = writereq r2"
    by (auto simp: ts_apply_writes_def bind_eq_Some_conv dest: ts_pick_young_writereq)
  have 2: "writereq r1 = writereq r" using ts_serve_frame [OF srv] by (simp add: r0_def)
  from wr obtain q where "q \<in> set (writereq r1)" "tq_ts q \<le> m'" by (auto simp: wr_def filter_empty_conv)
  then have "length (filter (\<lambda>q. \<not> tq_ts q \<le> m') (writereq r1)) < length (writereq r1)"
    by (intro length_filter_less) auto
  then show ?thesis unfolding 1 2 [symmetric] by (simp add: r2_def)
qed

function ts_update_buffer :: "row_ts \<Rightarrow> mv_store \<Rightarrow> (row_ts \<times> mv_store \<times> txnid_t list) option" where
  "ts_update_buffer r txns =
     (case ts_round r txns of
        None \<Rightarrow> None
      | Some (r, txns, ids, again) \<Rightarrow>
          if again then map_option (\<lambda>(r, txns, ids'). (r, txns, ids @ ids')) (ts_update_buffer r txns)
          else Some (r, txns, ids))"
  by pat_completeness auto

termination ts_update_buffer
  by (relation "measure (\<lambda>(r, txns). length (writereq r))") (simp_all, metis ts_round_decreases)

declare ts_update_buffer.simps [simp del]

definition ts_access ::
  "bool \<Rightarrow> txn_ptr \<Rightarrow> TsType \<Rightarrow> row_bytes option \<Rightarrow> row_ts \<Rightarrow> mv_store
   \<Rightarrow> (RC \<times> row_ts \<times> mv_store \<times> txnid_t list) option" where
  "ts_access twr t ty row r txns =
     (let ts = mvt_ts (txns t) in
      case ty of
        R_REQ \<Rightarrow>
          if ts < wts r then Some (Abort, r, txns, [])
          else if ts > min_pts r then do {
            r \<leftarrow> ts_buffer_req R_REQ t ts None r;
            Some (WAIT, r, txns(t := (txns t)\<lparr>ts_ready := False\<rparr>), []) }
          else Some (RCOK, if rts r < ts then r\<lparr>rts := ts\<rparr> else r, txns(t := (txns t)\<lparr>cur_row := rt_row r\<rparr>), [])
      | P_REQ \<Rightarrow>
          if ts < rts r then Some (Abort, r, txns, [])
          else if \<not> twr \<and> ts < wts r then Some (Abort, r, txns, [])
          else do { r \<leftarrow> ts_buffer_req P_REQ t ts None r; Some (RCOK, r, txns, []) }
      | W_REQ \<Rightarrow>
          if twr \<and> ts < wts r then do {
            (q, r) \<leftarrow> ts_debuffer_txn P_REQ t r;
            (r, txns, ids) \<leftarrow> ts_update_buffer r txns;
            Some (RCOK, r, txns, ids) }
          else if \<not> twr \<and> ts > min_pts r then do {
            r \<leftarrow> ts_buffer_req W_REQ t ts row r; Some (RCOK, r, txns, []) }
          else if ts > min_rts r then do {
            r \<leftarrow> ts_buffer_req W_REQ t ts (Some (cur_row (txns t))) r; Some (RCOK, r, txns, []) }
          else do {
            d \<leftarrow> row;
            (q, r) \<leftarrow> ts_debuffer_txn P_REQ t (r\<lparr>rt_row := d, wts := (if wts r < ts then ts else wts r)\<rparr>);
            (r, txns, ids) \<leftarrow> ts_update_buffer r txns;
            Some (RCOK, r, txns, ids) }
      | XP_REQ \<Rightarrow> do {
          (q, r) \<leftarrow> ts_debuffer_txn P_REQ t r;
          (r, txns, ids) \<leftarrow> ts_update_buffer r txns;
          Some (RCOK, r, txns, ids) })"

section \<open>The invariant of a row\<close>

definition ts_inv :: "row_ts \<Rightarrow> bool" where
  "ts_inv r \<longleftrightarrow> writereq r = [] \<and> min_pts r = min_req_ts tq_ts (prereq r) \<and> min_rts r = min_req_ts tq_ts (readreq r) \<and>
     (\<forall>q \<in> set (readreq r). min_pts r < tq_ts q) \<and> rts r \<le> min_pts r \<and> wts r \<le> min_pts r"

lemma ts_inv_init: "ts_inv (row_ts_init v)"
  by (simp add: ts_inv_def row_ts_init_def)

lemma ts_serve_store:
  "snd (ts_serve qs r txns) =
     ((\<lambda>u. if u \<in> tq_txn ` set qs then (txns u)\<lparr>cur_row := rt_row r, ts_ready := True\<rparr> else txns u),
      map (\<lambda>q. mvt_id (txns (tq_txn q))) qs)"
proof (induction qs arbitrary: r txns)
  case (Cons q qs)
  have "rt_row (if rts r < tq_ts q then r\<lparr>rts := tq_ts q\<rparr> else r) = rt_row r" by simp
  then show ?case by (auto simp: Let_def case_prod_beta Cons.IH fun_eq_iff)
qed simp

lemma fold_max_le: "fold (\<lambda>q m. max m (tq_ts q)) qs a \<le> b \<longleftrightarrow> a \<le> b \<and> (\<forall>q \<in> set qs. tq_ts q \<le> b)"
  by (induction qs arbitrary: a) auto

lemma fold_max_ge: "a \<le> fold (\<lambda>q m. max m (tq_ts q)) qs a" "q \<in> set qs \<Longrightarrow> tq_ts q \<le> fold (\<lambda>q m. max m (tq_ts q)) qs a"
  using fold_max_le [of qs a "fold (\<lambda>q m. max m (tq_ts q)) qs a"] by auto

text \<open>With an empty write buffer one pass of the loop suffices: the reads up to the new least prewrite are served.\<close>

lemma ts_update_buffer_eq:
  assumes wr: "writereq r = []" and pts: "min_pts r \<le> min_req_ts tq_ts (prereq r)"
    and rts: "min_rts r = min_req_ts tq_ts (readreq r)" and rd: "\<forall>q \<in> set (readreq r). min_pts r < tq_ts q"
    and m: "m = min_req_ts tq_ts (prereq r)"
    and srv: "qs = rev (filter (\<lambda>q. tq_ts q \<le> m) (readreq r))" and rest: "rest = filter (\<lambda>q. \<not> tq_ts q \<le> m) (readreq r)"
  shows "ts_update_buffer r txns = Some (r\<lparr>min_pts := m, readreq := rest, min_rts := min_req_ts tq_ts rest,
             rts := fold (\<lambda>q m. max m (tq_ts q)) qs (rts r)\<rparr>,
           (\<lambda>u. if u \<in> tq_txn ` set qs then (txns u)\<lparr>cur_row := rt_row r, ts_ready := True\<rparr> else txns u),
           map (\<lambda>q. mvt_id (txns (tq_txn q))) qs)"
proof -
  let ?r0 = "r\<lparr>min_pts := m, readreq := rest\<rparr>"
  have empty: "rest = readreq r" if "qs = []" using that srv rest by (auto simp: filter_empty_conv intro: filter_True [symmetric])
  consider (same) "m = min_pts r" | (none) "m \<noteq> min_pts r" "qs = []" | (some) "m \<noteq> min_pts r" "qs \<noteq> []" by blast
  then show ?thesis
  proof cases
    case same
    with rd srv have "qs = []" by (auto simp: filter_empty_conv)
    moreover have "ts_round r txns = Some (r, txns, [], False)"
      using same by (simp add: ts_round_eq Let_def m [symmetric])
    ultimately show ?thesis using empty same rts by (simp add: ts_update_buffer.simps [of r])
  next
    case none
    then have "ts_round r txns = Some (?r0, txns, [], False)"
      using pts unfolding ts_round_eq Let_def m [symmetric] srv [symmetric] rest [symmetric] by simp
    then show ?thesis using none empty rts by (simp add: ts_update_buffer.simps [of r])
  next
    case some
    let ?r1 = "?r0\<lparr>rts := fold (\<lambda>q m. max m (tq_ts q)) qs (rts r)\<rparr>"
    obtain txns1 ids1 where srv1: "ts_serve qs ?r0 txns = (?r1, txns1, ids1)"
      using ts_serve_eq [of qs ?r0 txns] by (cases "ts_serve qs ?r0 txns") simp
    have st: "txns1 = (\<lambda>u. if u \<in> tq_txn ` set qs then (txns u)\<lparr>cur_row := rt_row r, ts_ready := True\<rparr> else txns u)"
      "ids1 = map (\<lambda>q. mvt_id (txns (tq_txn q))) qs"
      using ts_serve_store [of qs ?r0 txns] srv1 by (simp_all add: fun_eq_iff)
    have le: "min_rts r \<le> min_req_ts tq_ts rest" unfolding rts rest by (rule min_req_ts_mono) auto
    have "ts_round r txns = Some (?r1\<lparr>min_rts := min_req_ts tq_ts rest\<rparr>, txns1, ids1, False)"
    proof (cases "min_req_ts tq_ts rest > min_rts r")
      case True
      then show ?thesis using some pts wr
        unfolding ts_round_eq Let_def m [symmetric] srv [symmetric] rest [symmetric] srv1 by simp
    next
      case False
      with le have "min_req_ts tq_ts rest = min_rts r" by simp
      then show ?thesis using some pts wr
        unfolding ts_round_eq Let_def m [symmetric] srv [symmetric] rest [symmetric] srv1 by simp
    qed
    then show ?thesis by (simp add: ts_update_buffer.simps [of r] st)
  qed
qed

text \<open>Dropping the prewrite of \<open>t\<close>, as a write or a cancelled prewrite does.\<close>

definition ts_settled :: "row_ts \<Rightarrow> ts_req list \<Rightarrow> row_ts \<Rightarrow> bool" where
  "ts_settled r ps r' \<longleftrightarrow> prereq r' = ps \<and> rt_row r' = rt_row r \<and> wts r' = wts r \<and> rts r \<le> rts r' \<and>
     readreq r' = filter (\<lambda>q. \<not> tq_ts q \<le> min_req_ts tq_ts ps) (readreq r) \<and>
     (\<forall>q \<in> set (readreq r). tq_ts q \<le> min_req_ts tq_ts ps \<longrightarrow> tq_ts q \<le> rts r')"

lemma ts_drop_prewrite:
  assumes inv: "ts_inv r" and p: "t \<in> tq_txn ` set (prereq r)" and w: "w \<le> min_pts r"
  obtains q ps r1 r' ids where
    "ts_debuffer_txn P_REQ t (r\<lparr>rt_row := d, wts := w\<rparr>) = Some (q, r1)" "tq_txn q = t"
    "mset (prereq r) = add_mset q (mset ps)"
    "ts_update_buffer r1 txns = Some (r', (\<lambda>u. if u \<in> tq_txn ` {q \<in> set (readreq r). tq_ts q \<le> min_req_ts tq_ts ps}
        then (txns u)\<lparr>cur_row := d, ts_ready := True\<rparr> else txns u), ids)"
    "ts_inv r'" "ts_settled (r\<lparr>rt_row := d, wts := w\<rparr>) ps r'"
proof -
  from p have "unlink_req tq_txn t (prereq r) \<noteq> None" using unlink_req_total by fastforce
  then obtain q ps where u: "unlink_req tq_txn t (prereq r) = Some (q, ps)" by auto
  note us = unlink_req_spec [OF u]
  have sub: "set ps \<subseteq> set (prereq r)" using us by (metis mset_eq_setD set_mset_add_mset_insert set_mset_mset subset_insertI)
  let ?r0 = "r\<lparr>rt_row := d, wts := w\<rparr>"
  define r1 where "r1 = ?r0\<lparr>prereq := ps, ts_preq_len := ts_preq_len r - 1\<rparr>"
  define m where "m = min_req_ts tq_ts ps"
  define qs where "qs = rev (filter (\<lambda>q. tq_ts q \<le> m) (readreq r))"
  define rest where "rest = filter (\<lambda>q. \<not> tq_ts q \<le> m) (readreq r)"
  define r' where "r' = r1\<lparr>min_pts := m, readreq := rest, min_rts := min_req_ts tq_ts rest,
             rts := fold (\<lambda>q m. max m (tq_ts q)) qs (rts r1)\<rparr>"
  have inv1: "writereq r = []" "min_rts r = min_req_ts tq_ts (readreq r)" "\<forall>q \<in> set (readreq r). min_pts r < tq_ts q"
    "rts r \<le> min_pts r" "min_pts r = min_req_ts tq_ts (prereq r)"
    using inv unfolding ts_inv_def by blast+
  have le: "min_pts r \<le> m" unfolding inv1(5) m_def using sub by (rule min_req_ts_mono)
  have r1: "writereq r1 = []" "min_pts r1 = min_pts r" "prereq r1 = ps" "min_rts r1 = min_rts r" "readreq r1 = readreq r"
    "rt_row r1 = d" "rts r1 = rts r" "wts r1 = w"
    by (simp_all add: r1_def inv1)
  have r': "writereq r' = []" "min_pts r' = m" "prereq r' = ps" "min_rts r' = min_req_ts tq_ts rest" "readreq r' = rest"
    "rt_row r' = d" "rts r' = fold (\<lambda>q m. max m (tq_ts q)) qs (rts r)" "wts r' = w"
    by (simp_all add: r'_def r1)
  have 1: "ts_debuffer_txn P_REQ t ?r0 = Some (q, r1)"
    using u by (simp add: ts_debuffer_txn_def ts_queue_def set_ts_queue_def r1_def)
  have set_qs: "set qs = {q \<in> set (readreq r). tq_ts q \<le> m}" by (auto simp: qs_def)
  have "ts_update_buffer r1 txns = Some (r',
      (\<lambda>u. if u \<in> tq_txn ` set qs then (txns u)\<lparr>cur_row := rt_row r1, ts_ready := True\<rparr> else txns u),
      map (\<lambda>q. mvt_id (txns (tq_txn q))) qs)"
    unfolding r'_def by (rule ts_update_buffer_eq) (simp_all add: r1 inv1(2,3) le m_def [symmetric] qs_def rest_def)
  note 2 = this [unfolded set_qs r1(6), unfolded m_def]
  have 3: "ts_inv r'"
    unfolding ts_inv_def r' fold_max_le using inv1 le w by (auto simp: qs_def rest_def m_def)
  have 4: "ts_settled ?r0 ps r'"
    unfolding ts_settled_def r' m_def [symmetric] by (auto simp: rest_def fold_max_ge(1) set_qs intro: fold_max_ge(2))
  show thesis using us by (intro that [OF 1 _ _ 2 3 4]) simp_all
qed

section \<open>Transactions on one row\<close>

datatype ts_phase = TIdle | TPre | TWait access_t | THave access_t | TOut

datatype ts_event = TRead ts_t row_bytes | TWrite ts_t row_bytes

record ts_sys =
  tsys_row :: row_ts
  tsys_txns :: mv_store
  tsys_phase :: "txn_ptr \<Rightarrow> ts_phase"
  tsys_log :: "ts_event list"

definition read_phase :: "RC \<Rightarrow> access_t \<Rightarrow> ts_phase" where
  "read_phase rc a = (if rc = RCOK then THave a else if rc = WAIT then TWait a else TOut)"

definition wake :: "ts_req list \<Rightarrow> (txn_ptr \<Rightarrow> ts_phase) \<Rightarrow> txn_ptr \<Rightarrow> ts_phase" where
  "wake qs ph u = (if u \<in> tq_txn ` set qs then (case ph u of TWait a \<Rightarrow> THave a | p \<Rightarrow> p) else ph u)"

text \<open>The state after a request of \<open>t\<close>: the buffered reads that the request has served are logged after it.\<close>

definition ts_after :: "ts_sys \<Rightarrow> txn_ptr \<Rightarrow> ts_phase \<Rightarrow> ts_event list \<Rightarrow> row_ts \<Rightarrow> mv_store \<Rightarrow> ts_sys" where
  "ts_after s t ph evs r' txns' =
     (let woken = filter (\<lambda>q. q \<notin> set (readreq r')) (readreq (tsys_row s))
      in \<lparr>tsys_row = r', tsys_txns = txns', tsys_phase = wake woken ((tsys_phase s)(t := ph)),
          tsys_log = tsys_log s @ evs @ map (\<lambda>q. TRead (tq_ts q) (cur_row (txns' (tq_txn q)))) woken\<rparr>)"

text \<open>The calls of \<^verbatim>\<open>row_t::get_row\<close> (a reader requests \<open>R_REQ\<close>; a writer \<open>P_REQ\<close> and then \<open>R_REQ\<close>) and of
  \<^verbatim>\<open>row_t::return_row\<close> (nothing for a reader, \<open>W_REQ\<close> or \<open>XP_REQ\<close> for a writer).\<close>

inductive ts_step :: "ts_sys \<Rightarrow> ts_sys \<Rightarrow> bool" where
  rd: "ts_access False t R_REQ None (tsys_row s) (tsys_txns s) = Some (rc, r', txns', ids) \<Longrightarrow>
    tsys_phase s t = TIdle \<and> a = RD \<or> tsys_phase s t = TPre \<and> a = WR \<Longrightarrow>
    ts_step s (ts_after s t (read_phase rc a)
      (if rc = RCOK then [TRead (mvt_ts (tsys_txns s t)) (cur_row (txns' t))] else []) r' txns')"
| pre: "ts_access False t P_REQ None (tsys_row s) (tsys_txns s) = Some (rc, r', txns', ids) \<Longrightarrow>
    tsys_phase s t = TIdle \<Longrightarrow>
    ts_step s (ts_after s t (if rc = RCOK then TPre else TOut) [] r' txns')"
| wr: "ts_access False t W_REQ (Some d) (tsys_row s) (tsys_txns s) = Some (rc, r', txns', ids) \<Longrightarrow>
    tsys_phase s t = THave WR \<Longrightarrow>
    ts_step s (ts_after s t TOut
      (if writereq r' = [] then [TWrite (mvt_ts (tsys_txns s t)) d] else []) r' txns')"
| xp: "ts_access False t XP_REQ None (tsys_row s) (tsys_txns s) = Some (rc, r', txns', ids) \<Longrightarrow>
    tsys_phase s t = THave WR \<Longrightarrow> ts_step s (ts_after s t TOut [] r' txns')"
| ret: "tsys_phase s t = THave RD \<Longrightarrow> ts_step s (s\<lparr>tsys_phase := (tsys_phase s)(t := TOut)\<rparr>)"

definition ts_sys_init :: "row_bytes \<Rightarrow> mv_store \<Rightarrow> ts_sys" where
  "ts_sys_init v txns = \<lparr>tsys_row = row_ts_init v, tsys_txns = txns, tsys_phase = (\<lambda>_. TIdle), tsys_log = []\<rparr>"

definition ts_reach :: "row_bytes \<Rightarrow> mv_store \<Rightarrow> ts_sys \<Rightarrow> bool" where
  "ts_reach v txns s \<longleftrightarrow> ts_step\<^sup>*\<^sup>* (ts_sys_init v txns) s"

text \<open>The serial specification: every read of a log returns the value of the last write before it.\<close>

fun is_write :: "ts_event \<Rightarrow> bool" where
  "is_write (TRead ts d) = False"
| "is_write (TWrite ts d) = True"

fun ev_ts :: "ts_event \<Rightarrow> ts_t" where
  "ev_ts (TRead ts d) = ts"
| "ev_ts (TWrite ts d) = ts"

fun last_value :: "row_bytes \<Rightarrow> ts_event list \<Rightarrow> row_bytes" where
  "last_value v [] = v"
| "last_value v (TRead ts d # es) = last_value v es"
| "last_value v (TWrite ts d # es) = last_value d es"

fun serial_log :: "row_bytes \<Rightarrow> ts_event list \<Rightarrow> bool" where
  "serial_log v [] = True"
| "serial_log v (TRead ts d # es) = (d = v \<and> serial_log v es)"
| "serial_log v (TWrite ts d # es) = serial_log d es"

definition conflict_ordered :: "ts_event list \<Rightarrow> bool" where
  "conflict_ordered es \<longleftrightarrow> sorted_wrt (\<lambda>a b. is_write a \<or> is_write b \<longrightarrow> ev_ts a \<le> ev_ts b) es"

lemma last_value_append [simp]: "last_value v (xs @ ys) = last_value (last_value v xs) ys"
  by (induction v xs rule: last_value.induct) auto

lemma serial_log_append [simp]: "serial_log v (xs @ ys) \<longleftrightarrow> serial_log v xs \<and> serial_log (last_value v xs) ys"
  by (induction v xs rule: serial_log.induct) auto

lemma serial_insort:
  assumes "\<And>y. y \<in> set ys \<Longrightarrow> is_write x \<or> is_write y \<Longrightarrow> ev_ts x \<le> ev_ts y"
  shows "serial_log v (insort_key ev_ts x ys) \<longleftrightarrow> serial_log v (x # ys)"
  using assms
proof (induction ys arbitrary: v)
  case (Cons y ys)
  then have IH: "serial_log v' (insort_key ev_ts x ys) = serial_log v' (x # ys)" for v' by simp
  show ?case
  proof (cases "ev_ts x \<le> ev_ts y")
    case False
    with Cons.prems [of y] obtain a b c d where "x = TRead a b" "y = TRead c d" by (cases x; cases y) auto
    with False IH [of v] show ?thesis by auto
  qed simp
qed simp

lemma serial_sorted:
  "conflict_ordered es \<Longrightarrow> serial_log v (sort_key ev_ts es) \<longleftrightarrow> serial_log v es"
proof (induction es arbitrary: v)
  case (Cons e es)
  then have "serial_log v (insort_key ev_ts e (sort_key ev_ts es)) \<longleftrightarrow> serial_log v (e # sort_key ev_ts es)"
    by (intro serial_insort) (auto simp: conflict_ordered_def)
  moreover have "conflict_ordered es" using Cons.prems by (simp add: conflict_ordered_def)
  ultimately show ?case using Cons.IH by (cases e) simp_all
qed simp

lemma ts_invD:
  assumes "ts_inv r"
  shows "writereq r = []" "min_pts r = min_req_ts tq_ts (prereq r)" "min_rts r = min_req_ts tq_ts (readreq r)"
    "q \<in> set (readreq r) \<Longrightarrow> min_pts r < tq_ts q" "rts r \<le> min_pts r" "wts r \<le> min_pts r"
  using assms unfolding ts_inv_def by blast+

text \<open>The log agrees with the row.\<close>

definition ts_log_ok :: "row_bytes \<Rightarrow> row_ts \<Rightarrow> ts_event list \<Rightarrow> bool" where
  "ts_log_ok v r es \<longleftrightarrow> (\<forall>e \<in> set es. ev_ts e \<le> (if is_write e then wts r else rts r)) \<and>
     conflict_ordered es \<and> serial_log v es \<and> last_value v es = rt_row r"

lemma serial_log_reads: "serial_log v (map (\<lambda>ts. TRead ts v) tss)" "last_value v (map (\<lambda>ts. TRead ts d) tss) = v"
  by (induction tss) auto

lemma ts_log_reads:
  assumes "ts_log_ok v r es" "\<forall>ts \<in> set tss. wts r \<le> ts \<and> ts \<le> rts r'"
    and "rt_row r' = rt_row r" "wts r' = wts r" "rts r \<le> rts r'"
  shows "ts_log_ok v r' (es @ map (\<lambda>ts. TRead ts (rt_row r)) tss)"
proof -
  have "sorted_wrt (\<lambda>a b. is_write a \<or> is_write b \<longrightarrow> ev_ts a \<le> ev_ts b) (map (\<lambda>ts. TRead ts (rt_row r)) tss)"
    by (simp add: sorted_wrt_map sorted_wrt_iff_nth_less)
  with assms show ?thesis
    by (fastforce simp: ts_log_ok_def conflict_ordered_def sorted_wrt_append serial_log_reads split: if_splits intro: order.trans)
qed

lemma ts_log_write:
  assumes "ts_log_ok v r es" "rts r \<le> ts" "wts r \<le> ts" "rt_row r' = d" "wts r' = ts" "rts r' = rts r"
  shows "ts_log_ok v r' (es @ [TWrite ts d])"
  using assms
  by (fastforce simp: ts_log_ok_def conflict_ordered_def sorted_wrt_append split: if_splits intro: order.trans)

text \<open>The buffers agree with the phases.\<close>

definition writing :: "ts_phase \<Rightarrow> bool" where
  "writing p \<longleftrightarrow> p = TPre \<or> p = TWait WR \<or> p = THave WR"

definition ts_phase_ok :: "row_ts \<Rightarrow> mv_store \<Rightarrow> (txn_ptr \<Rightarrow> ts_phase) \<Rightarrow> bool" where
  "ts_phase_ok r txns ph \<longleftrightarrow> distinct (map tq_txn (prereq r)) \<and>
     (\<forall>p \<in> set (prereq r). tq_ts p = mvt_ts (txns (tq_txn p)) \<and> writing (ph (tq_txn p))) \<and>
     (\<forall>t. writing (ph t) \<longrightarrow> t \<in> tq_txn ` set (prereq r)) \<and>
     (\<forall>q \<in> set (readreq r). tq_ts q = mvt_ts (txns (tq_txn q)) \<and> (\<exists>a. ph (tq_txn q) = TWait a)) \<and>
     (\<forall>t a. ph t = TWait a \<longrightarrow> t \<in> tq_txn ` set (readreq r)) \<and>
     (\<forall>t. ph t = THave WR \<longrightarrow> mvt_ts (txns t) \<le> rts r)"

lemma ts_phase_okD:
  assumes "ts_phase_ok r txns ph"
  shows "distinct (map tq_txn (prereq r))" "p \<in> set (prereq r) \<Longrightarrow> tq_ts p = mvt_ts (txns (tq_txn p))"
    "p \<in> set (prereq r) \<Longrightarrow> writing (ph (tq_txn p))" "writing (ph t) \<Longrightarrow> t \<in> tq_txn ` set (prereq r)"
    "q \<in> set (readreq r) \<Longrightarrow> tq_ts q = mvt_ts (txns (tq_txn q))" "q \<in> set (readreq r) \<Longrightarrow> \<exists>a. ph (tq_txn q) = TWait a"
    "ph t = TWait a \<Longrightarrow> t \<in> tq_txn ` set (readreq r)" "ph t = THave WR \<Longrightarrow> mvt_ts (txns t) \<le> rts r"
  using assms unfolding ts_phase_ok_def by blast+

definition ts_sys_inv :: "row_bytes \<Rightarrow> ts_sys \<Rightarrow> bool" where
  "ts_sys_inv v s \<longleftrightarrow> ts_inv (tsys_row s) \<and> ts_phase_ok (tsys_row s) (tsys_txns s) (tsys_phase s) \<and>
     ts_log_ok v (tsys_row s) (tsys_log s)"

lemma ts_sys_inv_init: "ts_sys_inv v (ts_sys_init v txns)"
  using ts_inv_init [of v]
  by (simp add: ts_sys_inv_def ts_sys_init_def ts_phase_ok_def ts_log_ok_def conflict_ordered_def row_ts_init_def writing_def)

text \<open>A writer that has read owns the oldest prewrite.\<close>

lemma have_write_oldest:
  assumes "ts_inv r" "ts_phase_ok r txns ph" "ph t = THave WR"
  shows "min_pts r = mvt_ts (txns t)" "t \<in> tq_txn ` set (prereq r)" "mvt_ts (txns t) \<le> min_rts r"
proof -
  show t: "t \<in> tq_txn ` set (prereq r)" using assms(2,3) by (simp add: ts_phase_ok_def writing_def)
  then obtain p where p: "p \<in> set (prereq r)" "tq_txn p = t" by blast
  with assms(2) have "tq_ts p = mvt_ts (txns t)" by (auto simp: ts_phase_ok_def)
  then have "min_pts r \<le> mvt_ts (txns t)" using p(1) assms(1) min_req_ts_spec(1) [of p "prereq r" tq_ts] by (simp add: ts_inv_def)
  moreover have "mvt_ts (txns t) \<le> rts r" "rts r \<le> min_pts r" using assms unfolding ts_phase_ok_def ts_inv_def by blast+
  ultimately show m: "min_pts r = mvt_ts (txns t)" by simp
  have "min_pts r \<le> min_req_ts tq_ts (readreq r)"
    using ts_invD(4) [OF assms(1)] by (intro min_req_ts_greatest less_imp_le)
  then show "mvt_ts (txns t) \<le> min_rts r" using assms(1) m by (simp add: ts_inv_def)
qed

text \<open>Dropping a prewrite and serving the reads that waited for it keeps the phases right.\<close>

lemma ts_settled_phases:
  assumes ok: "ts_phase_ok r txns ph" and t: "ph t = THave WR"
    and q: "tq_txn q = t" and ps: "mset (prereq r) = add_mset q (mset ps)"
    and st: "ts_settled (r\<lparr>rt_row := d, wts := w\<rparr>) ps r'"
    and txns: "\<And>u. mvt_ts (txns' u) = mvt_ts (txns u)"
    and woken: "woken = filter (\<lambda>q. tq_ts q \<le> min_req_ts tq_ts ps) (readreq r)"
  shows "ts_phase_ok r' txns' (wake woken (ph(t := TOut)))"
proof -
  let ?ph = "wake woken (ph(t := TOut))"
  note okD = ts_phase_okD [OF ok]
  have r': "prereq r' = ps" "rts r \<le> rts r'" "\<And>q. q \<in> set woken \<Longrightarrow> tq_ts q \<le> rts r'"
    "readreq r' = filter (\<lambda>q. \<not> tq_ts q \<le> min_req_ts tq_ts ps) (readreq r)"
    using st by (auto simp: ts_settled_def woken)
  have wk: "\<exists>a. ph (tq_txn q) = TWait a" "tq_ts q = mvt_ts (txns (tq_txn q))" if "q \<in> set woken" for q
    using okD(5,6) that by (auto simp: woken)
  have t_out: "t \<notin> tq_txn ` set woken" using wk(1) t by fastforce
  have woke: "\<exists>a. ph u = TWait a \<and> ?ph u = THave a \<and> mvt_ts (txns u) \<le> rts r'" if "u \<in> tq_txn ` set woken" for u
    using that t_out wk r'(3) by (fastforce simp: wake_def)
  have slept: "?ph u = (if u = t then TOut else ph u)" if "u \<notin> tq_txn ` set woken" for u
    using that by (simp add: wake_def)
  have wr: "writing (?ph u) \<longleftrightarrow> u \<noteq> t \<and> writing (ph u)" for u
    using woke [of u] slept [of u] t_out by (cases "u \<in> tq_txn ` set woken") (auto simp: writing_def)
  have "distinct (tq_txn q # map tq_txn ps)"
    using ok ps by (metis ts_phase_ok_def list.simps(9) mset.simps(2) mset_map mset_eq_imp_distinct_iff)
  moreover have "set (prereq r) = insert q (set ps)" using ps by (metis set_mset_add_mset_insert set_mset_mset)
  ultimately have pre: "distinct (map tq_txn ps)" "tq_txn ` set ps = tq_txn ` set (prereq r) - {t}"
    "set ps \<subseteq> set (prereq r)"
    using q by auto
  have pre_t: "tq_txn p \<noteq> t" "p \<in> set (prereq r)" if "p \<in> set ps" for p
    using pre(2,3) that by blast+
  have rd: "tq_txn q' \<notin> tq_txn ` set woken" if q': "q' \<in> set (readreq r')" for q'
  proof
    assume "tq_txn q' \<in> tq_txn ` set woken"
    then obtain q where q: "q \<in> set woken" "tq_txn q' = tq_txn q" by blast
    then have "tq_ts q' = tq_ts q" using q' okD(5) [of q'] wk(2) [of q] by (simp add: r'(4))
    with q(1) q' show False by (simp add: r'(4) woken)
  qed
  show ?thesis unfolding ts_phase_ok_def r'(1)
  proof (intro conjI allI ballI impI)
    show "distinct (map tq_txn ps)" by (fact pre(1))
    show "tq_ts p = mvt_ts (txns' (tq_txn p))" "writing (?ph (tq_txn p))" if "p \<in> set ps" for p
      using okD(2,3) pre_t [OF that] by (simp_all add: txns wr)
    show "u \<in> tq_txn ` set ps" if "writing (?ph u)" for u
      using okD(4) that unfolding pre(2) wr by blast
    show "tq_ts q = mvt_ts (txns' (tq_txn q))" "\<exists>a. ?ph (tq_txn q) = TWait a" if "q \<in> set (readreq r')" for q
      using okD(5,6) [of q] that t slept [OF rd [OF that]] by (auto simp: txns r'(4))
    show "u \<in> tq_txn ` set (readreq r')" if "?ph u = TWait a" for u a
    proof -
      have u: "u \<notin> tq_txn ` set woken" using woke [of u] that by auto
      with that slept have "ph u = TWait a" by (auto split: if_splits)
      with okD(7) obtain q where q: "q \<in> set (readreq r)" "u = tq_txn q" by blast
      with u have "q \<in> set (readreq r')" by (auto simp: r'(4) woken)
      with q(2) show ?thesis by blast
    qed
    show "mvt_ts (txns' u) \<le> rts r'" if "?ph u = THave WR" for u
    proof (cases "u \<in> tq_txn ` set woken")
      case True
      with woke show ?thesis by (auto simp: txns)
    next
      case False
      with that slept have "ph u = THave WR" by (auto split: if_splits)
      with okD(8) r'(2) show ?thesis by (auto simp: txns intro: order.trans)
    qed
  qed
qed

text \<open>A write or a cancelled prewrite of a writer that has read.\<close>

lemma ts_settle:
  fixes s t
  defines "r \<equiv> tsys_row s" and "ts \<equiv> mvt_ts (tsys_txns s t)"
  assumes inv: "ts_sys_inv v s" and t: "tsys_phase s t = THave WR"
    and ev: "evs = [] \<and> d = rt_row r \<and> w = wts r \<or> evs = [TWrite ts d] \<and> w = ts"
  obtains q r1 r' txns' ids where
    "ts_debuffer_txn P_REQ t (r\<lparr>rt_row := d, wts := w\<rparr>) = Some (q, r1)"
    "ts_update_buffer r1 (tsys_txns s) = Some (r', txns', ids)" "ts_inv r'" "rt_row r' = d" "wts r' = w"
    "ts_sys_inv v (ts_after s t TOut evs r' txns')"
proof -
  let ?txns = "tsys_txns s"
  have rinv: "ts_inv r" and ok: "ts_phase_ok r ?txns (tsys_phase s)" and log: "ts_log_ok v r (tsys_log s)"
    using inv by (simp_all add: ts_sys_inv_def r_def)
  note old = have_write_oldest [OF rinv ok t]
  have w: "w \<le> min_pts r" using ev old(1) rinv by (auto simp: ts_inv_def ts_def)
  obtain q ps r1 r' ids where d: "ts_debuffer_txn P_REQ t (r\<lparr>rt_row := d, wts := w\<rparr>) = Some (q, r1)" "tq_txn q = t"
    "mset (prereq r) = add_mset q (mset ps)"
    "ts_update_buffer r1 ?txns = Some (r', (\<lambda>u. if u \<in> tq_txn ` {q \<in> set (readreq r). tq_ts q \<le> min_req_ts tq_ts ps}
        then (?txns u)\<lparr>cur_row := d, ts_ready := True\<rparr> else ?txns u), ids)"
    "ts_inv r'" "ts_settled (r\<lparr>rt_row := d, wts := w\<rparr>) ps r'"
    by (rule ts_drop_prewrite [OF rinv old(2) w, where txns = ?txns and d = d]) (rule that)
  define woken where "woken = filter (\<lambda>q. tq_ts q \<le> min_req_ts tq_ts ps) (readreq r)"
  define txns' where "txns' = (\<lambda>u. if u \<in> tq_txn ` set woken then (?txns u)\<lparr>cur_row := d, ts_ready := True\<rparr> else ?txns u)"
  have up: "ts_update_buffer r1 ?txns = Some (r', txns', ids)" using d(4) by (simp add: txns'_def woken_def)
  have st: "rt_row r' = d" "wts r' = w" "rts r \<le> rts r'" "\<And>q. q \<in> set woken \<Longrightarrow> tq_ts q \<le> rts r'"
    "readreq r' = filter (\<lambda>q. \<not> tq_ts q \<le> min_req_ts tq_ts ps) (readreq r)"
    using d(6) by (auto simp: ts_settled_def woken_def)
  have ph: "ts_phase_ok r' txns' (wake woken ((tsys_phase s)(t := TOut)))"
    using d(2,3,6) by (rule ts_settled_phases [OF ok t]) (simp_all add: txns'_def woken_def)
  let ?r0 = "r\<lparr>rt_row := d, wts := w\<rparr>"
  have "rts r \<le> min_pts r" "wts r \<le> min_pts r" "\<forall>q \<in> set woken. min_pts r < tq_ts q"
    using rinv by (auto simp: ts_inv_def woken_def)
  then have log0: "ts_log_ok v ?r0 (tsys_log s @ evs)"
    using ev log old(1) by (auto simp: ts_def intro!: ts_log_write [OF log]) 
  have "ts_log_ok v r' ((tsys_log s @ evs) @ map (\<lambda>ts. TRead ts (rt_row ?r0)) (map tq_ts woken))"
    using \<open>\<forall>q \<in> set woken. min_pts r < tq_ts q\<close> w st by (intro ts_log_reads [OF log0]) auto
  moreover have "cur_row (txns' (tq_txn q)) = d" if "q \<in> set woken" for q using that by (simp add: txns'_def)
  moreover have "filter (\<lambda>q. q \<notin> set (readreq r')) (readreq r) = woken"
    by (simp add: st(5) woken_def cong: filter_cong)
  ultimately have "ts_sys_inv v (ts_after s t TOut evs r' txns')"
    using ph d(5) by (simp add: ts_sys_inv_def ts_after_def r_def [symmetric] comp_def cong: map_cong)
  with d(1) up d(5) st(1,2) show thesis by (rule that)
qed

lemma wake_Nil [simp]: "wake [] ph = ph"
  by (simp add: wake_def fun_eq_iff)

lemma ts_after_no_wake:
  "set (readreq (tsys_row s)) \<subseteq> set (readreq r') \<Longrightarrow>
   ts_after s t ph evs r' txns' = \<lparr>tsys_row = r', tsys_txns = txns', tsys_phase = (tsys_phase s)(t := ph), tsys_log = tsys_log s @ evs\<rparr>"
proof -
  assume "set (readreq (tsys_row s)) \<subseteq> set (readreq r')"
  then have "filter (\<lambda>q. q \<notin> set (readreq r')) (readreq (tsys_row s)) = []" by (auto simp: filter_empty_conv)
  then show ?thesis by (simp add: ts_after_def)
qed

lemma ts_log_cong: "ts_log_ok v r es \<Longrightarrow> rt_row r' = rt_row r \<Longrightarrow> wts r' = wts r \<Longrightarrow> rts r' = rts r \<Longrightarrow> ts_log_ok v r' es"
  by (auto simp: ts_log_ok_def)

text \<open>A phase change of \<open>t\<close> alone, with the buffers that belong to it.\<close>

lemma ts_phase_step:
  assumes ok: "ts_phase_ok r txns ph" and nowait: "\<forall>a. ph t \<noteq> TWait a"
    and pre: "prereq r' = (if writing p \<and> \<not> writing (ph t) then \<lparr>tq_txn = t, tq_row = None, tq_ts = mvt_ts (txns t)\<rparr> # prereq r else prereq r)"
    and keep: "writing (ph t) \<longrightarrow> writing p"
    and rd: "readreq r' = (if \<exists>a. p = TWait a then \<lparr>tq_txn = t, tq_row = None, tq_ts = mvt_ts (txns t)\<rparr> # readreq r else readreq r)"
    and rts: "rts r \<le> rts r'" "p = THave WR \<longrightarrow> mvt_ts (txns t) \<le> rts r'"
    and txns: "\<And>u. mvt_ts (txns' u) = mvt_ts (txns u)"
  shows "ts_phase_ok r' txns' (ph(t := p))"
proof -
  note okD = ts_phase_okD [OF ok]
  have fresh: "tq_txn q \<noteq> t" if "q \<in> set (readreq r)" for q using okD(6) [OF that] nowait by auto
  have fresh_p: "t \<notin> tq_txn ` set (prereq r)" if "\<not> writing (ph t)" using okD(3) that by auto
  have wr: "writing ((ph(t := p)) u) \<longleftrightarrow> (if u = t then writing p else writing (ph u))" for u by simp
  show ?thesis unfolding ts_phase_ok_def
  proof (intro conjI allI ballI impI)
    show "distinct (map tq_txn (prereq r'))" using okD(1) fresh_p by (simp add: pre)
    show "tq_ts q = mvt_ts (txns' (tq_txn q))" "writing ((ph(t := p)) (tq_txn q))" if "q \<in> set (prereq r')" for q
      using that okD(2,3) [of q] keep by (auto simp: pre txns split: if_splits)
    show "u \<in> tq_txn ` set (prereq r')" if "writing ((ph(t := p)) u)" for u
      using that okD(4) [of u] by (auto simp: pre wr split: if_splits)
    show "tq_ts q = mvt_ts (txns' (tq_txn q))" "\<exists>a. (ph(t := p)) (tq_txn q) = TWait a" if "q \<in> set (readreq r')" for q
      using that okD(5,6) [of q] fresh [of q] by (auto simp: rd txns split: if_splits)
    show "u \<in> tq_txn ` set (readreq r')" if "(ph(t := p)) u = TWait a" for u a
      using that okD(7) [of u a] by (auto simp: rd split: if_splits)
    show "mvt_ts (txns' u) \<le> rts r'" if "(ph(t := p)) u = THave WR" for u
      using that okD(8) [of u] rts by (auto simp: txns split: if_splits)
  qed
qed

lemma ts_read_inv:
  assumes inv: "ts_sys_inv v s"
    and ph: "tsys_phase s t = TIdle \<and> a = RD \<or> tsys_phase s t = TPre \<and> a = WR"
    and acc: "ts_access False t R_REQ None (tsys_row s) (tsys_txns s) = Some (rc, r', txns', ids)"
  shows "ts_sys_inv v (ts_after s t (read_phase rc a)
           (if rc = RCOK then [TRead (mvt_ts (tsys_txns s t)) (cur_row (txns' t))] else []) r' txns')"
    and "tsys_phase s t = TPre \<Longrightarrow> rc \<noteq> Abort"
proof -
  let ?r = "tsys_row s" and ?txns = "tsys_txns s" and ?ts = "mvt_ts (tsys_txns s t)"
  have rinv: "ts_inv ?r" and ok: "ts_phase_ok ?r ?txns (tsys_phase s)" and log: "ts_log_ok v ?r (tsys_log s)"
    using inv by (simp_all add: ts_sys_inv_def)
  note ri = ts_invD [OF rinv]
  have pre_ts: "wts ?r \<le> ?ts" if "tsys_phase s t = TPre"
  proof -
    from ts_phase_okD(4) [OF ok, of t] that obtain p where p: "p \<in> set (prereq ?r)" "tq_txn p = t"
      by (auto simp: writing_def)
    then have "min_pts ?r \<le> ?ts" using ri(2) min_req_ts_spec(1) [OF p(1), of tq_ts] ts_phase_okD(2) [OF ok p(1)] by simp
    with ri(6) show ?thesis by simp
  qed
  have nowait: "\<forall>b. tsys_phase s t \<noteq> TWait b" using ph by auto
  consider (ab) "?ts < wts ?r" "rc = Abort" "r' = ?r" "txns' = ?txns"
    | (wt) "wts ?r \<le> ?ts" "min_pts ?r < ?ts" "rc = WAIT" "txns' = ?txns(t := (?txns t)\<lparr>ts_ready := False\<rparr>)"
        "r' = ?r\<lparr>readreq := \<lparr>tq_txn = t, tq_row = None, tq_ts = ?ts\<rparr> # readreq ?r, min_rts := (if ?ts < min_rts ?r then ?ts else min_rts ?r)\<rparr>"
    | (go) "wts ?r \<le> ?ts" "?ts \<le> min_pts ?r" "rc = RCOK" "txns' = ?txns(t := (?txns t)\<lparr>cur_row := rt_row ?r\<rparr>)"
        "r' = ?r\<lparr>rts := max (rts ?r) ?ts\<rparr>"
    using acc by (auto simp: ts_access_def Let_def ts_buffer_req_def max_def not_less split: if_splits)
  then have "ts_sys_inv v (ts_after s t (read_phase rc a)
      (if rc = RCOK then [TRead ?ts (cur_row (txns' t))] else []) r' txns') \<and> (tsys_phase s t = TPre \<longrightarrow> rc \<noteq> Abort)"
  proof cases
    case ab
    then have idle: "tsys_phase s t = TIdle" using ph pre_ts by auto
    have "ts_phase_ok ?r ?txns ((tsys_phase s)(t := TOut))"
      using ok nowait by (rule ts_phase_step) (simp_all add: idle writing_def)
    then show ?thesis using ab idle rinv log by (simp add: ts_after_no_wake ts_sys_inv_def read_phase_def)
  next
    case wt
    have "ts_phase_ok r' txns' ((tsys_phase s)(t := TWait a))"
      using ok nowait by (rule ts_phase_step) (use ph in \<open>auto simp: wt(4,5) writing_def\<close>)
    moreover have "ts_inv r'" using wt(2) ri by (auto simp: ts_inv_def wt(5) min_def)
    moreover have "ts_log_ok v r' (tsys_log s)" using log by (rule ts_log_cong) (simp_all add: wt(5))
    moreover have "set (readreq ?r) \<subseteq> set (readreq r')" by (auto simp: wt(5))
    ultimately show ?thesis by (simp add: ts_after_no_wake ts_sys_inv_def read_phase_def wt(3))
  next
    case go
    have "ts_phase_ok r' txns' ((tsys_phase s)(t := THave a))"
      using ok nowait by (rule ts_phase_step) (use ph in \<open>auto simp: go(4,5) writing_def\<close>)
    moreover have "ts_inv r'" using go(2) ri by (auto simp: ts_inv_def go(5))
    moreover have "ts_log_ok v r' (tsys_log s @ map (\<lambda>ts. TRead ts (rt_row ?r)) [?ts])"
      using log by (rule ts_log_reads) (simp_all add: go(1,5))
    moreover have "set (readreq ?r) \<subseteq> set (readreq r')" by (simp add: go(5))
    ultimately show ?thesis by (simp add: ts_after_no_wake ts_sys_inv_def read_phase_def go(3,4))
  qed
  then show "ts_sys_inv v (ts_after s t (read_phase rc a)
      (if rc = RCOK then [TRead ?ts (cur_row (txns' t))] else []) r' txns')" "tsys_phase s t = TPre \<Longrightarrow> rc \<noteq> Abort"
    by blast+
qed

lemma ts_prewrite_inv:
  assumes inv: "ts_sys_inv v s" and ph: "tsys_phase s t = TIdle"
    and acc: "ts_access False t P_REQ None (tsys_row s) (tsys_txns s) = Some (rc, r', txns', ids)"
  shows "ts_sys_inv v (ts_after s t (if rc = RCOK then TPre else TOut) [] r' txns')"
proof -
  let ?r = "tsys_row s" and ?txns = "tsys_txns s" and ?ts = "mvt_ts (tsys_txns s t)"
  have rinv: "ts_inv ?r" and ok: "ts_phase_ok ?r ?txns (tsys_phase s)" and log: "ts_log_ok v ?r (tsys_log s)"
    using inv by (simp_all add: ts_sys_inv_def)
  note ri = ts_invD [OF rinv]
  have nowait: "\<forall>b. tsys_phase s t \<noteq> TWait b" using ph by auto
  have eq: "ts_access False t P_REQ None ?r ?txns = (if ?ts < rts ?r \<or> ?ts < wts ?r then Some (Abort, ?r, ?txns, [])
      else Some (RCOK, ?r\<lparr>ts_preq_len := ts_preq_len ?r + 1, prereq := \<lparr>tq_txn = t, tq_row = None, tq_ts = ?ts\<rparr> # prereq ?r,
                 min_pts := (if ?ts < min_pts ?r then ?ts else min_pts ?r)\<rparr>, ?txns, []))"
    by (simp add: ts_access_def Let_def ts_buffer_req_def)
  show ?thesis
  proof (cases "?ts < rts ?r \<or> ?ts < wts ?r")
    case True
    then have ab: "rc = Abort" "r' = ?r" "txns' = ?txns" using acc unfolding eq by simp_all
    have "ts_phase_ok ?r ?txns ((tsys_phase s)(t := TOut))"
      using ok nowait by (rule ts_phase_step) (simp_all add: ph writing_def)
    then show ?thesis unfolding ab using rinv log by (simp add: ts_after_no_wake ts_sys_inv_def)
  next
    case False
    define r1 where "r1 = ?r\<lparr>ts_preq_len := ts_preq_len ?r + 1, prereq := \<lparr>tq_txn = t, tq_row = None, tq_ts = ?ts\<rparr> # prereq ?r,
                 min_pts := (if ?ts < min_pts ?r then ?ts else min_pts ?r)\<rparr>"
    from False have go: "rts ?r \<le> ?ts" "wts ?r \<le> ?ts" by (auto simp: not_less)
    have rc: "rc = RCOK" "txns' = ?txns" "r' = r1" using acc False unfolding eq r1_def [symmetric] by simp_all
    have "ts_phase_ok r' txns' ((tsys_phase s)(t := TPre))"
      using ok nowait by (rule ts_phase_step) (simp_all add: ph rc(2,3) r1_def writing_def)
    moreover have "ts_inv r'" using go(1,2) ri by (auto simp: ts_inv_def rc(3) r1_def min_def) (metis less_trans)
    moreover have "ts_log_ok v r' (tsys_log s)" using log by (rule ts_log_cong) (simp_all add: rc(3) r1_def)
    moreover have "set (readreq ?r) \<subseteq> set (readreq r')" by (simp add: rc(3) r1_def)
    ultimately show ?thesis by (simp add: ts_after_no_wake ts_sys_inv_def rc(1))
  qed
qed

lemma ts_write_eq:
  assumes "min_pts r = mvt_ts (txns t)" "mvt_ts (txns t) \<le> min_rts r" "wts r \<le> mvt_ts (txns t)"
    and "ts_debuffer_txn P_REQ t (r\<lparr>rt_row := d, wts := mvt_ts (txns t)\<rparr>) = Some (q, r1)"
    and "ts_update_buffer r1 txns = Some (r', txns', ids)"
  shows "ts_access False t W_REQ (Some d) r txns = Some (RCOK, r', txns', ids)"
proof -
  have w: "(if wts r < mvt_ts (txns t) then mvt_ts (txns t) else wts r) = mvt_ts (txns t)" using assms(3) by auto
  have "\<not> mvt_ts (txns t) > min_pts r" "\<not> mvt_ts (txns t) > min_rts r" using assms(1,2) by auto
  then show ?thesis using assms(4,5) by (simp add: ts_access_def Let_def w)
qed

lemma ts_cancel_eq:
  assumes "ts_debuffer_txn P_REQ t r = Some (q, r1)" and "ts_update_buffer r1 txns = Some (r', txns', ids)"
  shows "ts_access False t XP_REQ None r txns = Some (RCOK, r', txns', ids)"
  using assms by (simp add: ts_access_def Let_def)

text \<open>What a writer that has read gets from the row manager.\<close>

lemma ts_write_outcome:
  assumes inv: "ts_sys_inv v s" and t: "tsys_phase s t = THave WR"
  obtains r' txns' ids where
    "ts_access False t W_REQ (Some d) (tsys_row s) (tsys_txns s) = Some (RCOK, r', txns', ids)"
    "writereq r' = []" "rt_row r' = d" "wts r' = mvt_ts (tsys_txns s t)"
    "ts_sys_inv v (ts_after s t TOut [TWrite (mvt_ts (tsys_txns s t)) d] r' txns')"
proof -
  have rinv: "ts_inv (tsys_row s)" and ok: "ts_phase_ok (tsys_row s) (tsys_txns s) (tsys_phase s)"
    using inv by (simp_all add: ts_sys_inv_def)
  note old = have_write_oldest [OF rinv ok t]
  obtain q r1 r' txns' ids where
    d: "ts_debuffer_txn P_REQ t (tsys_row s\<lparr>rt_row := d, wts := mvt_ts (tsys_txns s t)\<rparr>) = Some (q, r1)"
    "ts_update_buffer r1 (tsys_txns s) = Some (r', txns', ids)" "ts_inv r'" "rt_row r' = d" "wts r' = mvt_ts (tsys_txns s t)"
    "ts_sys_inv v (ts_after s t TOut [TWrite (mvt_ts (tsys_txns s t)) d] r' txns')"
    by (rule ts_settle [OF inv t, where d = d and evs = "[TWrite (mvt_ts (tsys_txns s t)) d]"]) (simp, rule that)
  have "wts (tsys_row s) \<le> mvt_ts (tsys_txns s t)" using ts_invD(6) [OF rinv] old(1) by simp
  from ts_write_eq [OF old(1,3) this d(1,2)] show thesis
    using ts_invD(1) [OF d(3)] d(4-6) by (rule that)
qed

lemma ts_cancel_outcome:
  assumes inv: "ts_sys_inv v s" and t: "tsys_phase s t = THave WR"
  obtains r' txns' ids where
    "ts_access False t XP_REQ None (tsys_row s) (tsys_txns s) = Some (RCOK, r', txns', ids)"
    "rt_row r' = rt_row (tsys_row s)" "ts_sys_inv v (ts_after s t TOut [] r' txns')"
proof -
  obtain q r1 r' txns' ids where
    d: "ts_debuffer_txn P_REQ t (tsys_row s\<lparr>rt_row := rt_row (tsys_row s), wts := wts (tsys_row s)\<rparr>) = Some (q, r1)"
    "ts_update_buffer r1 (tsys_txns s) = Some (r', txns', ids)" "ts_inv r'" "rt_row r' = rt_row (tsys_row s)"
    "wts r' = wts (tsys_row s)" "ts_sys_inv v (ts_after s t TOut [] r' txns')"
    by (rule ts_settle [OF inv t, where d = "rt_row (tsys_row s)" and evs = "[]"]) (simp, rule that)
  have "tsys_row s\<lparr>rt_row := rt_row (tsys_row s), wts := wts (tsys_row s)\<rparr> = tsys_row s" by simp
  from ts_cancel_eq [OF d(1) [unfolded this] d(2)] d(4,6) show thesis by (rule that)
qed

lemma ts_step_inv: "ts_step s s' \<Longrightarrow> ts_sys_inv v s \<Longrightarrow> ts_sys_inv v s'"
proof (induction rule: ts_step.induct)
  case (rd t s rc r' txns' ids a)
  from ts_read_inv(1) [OF rd.prems rd.hyps(2,1)] show ?case .
next
  case (pre t s rc r' txns' ids)
  from ts_prewrite_inv [OF pre.prems pre.hyps(2,1)] show ?case .
next
  case (wr t d s rc r' txns' ids)
  obtain r1 txns1 ids1 where o: "ts_access False t W_REQ (Some d) (tsys_row s) (tsys_txns s) = Some (RCOK, r1, txns1, ids1)"
    "writereq r1 = []" "rt_row r1 = d" "wts r1 = mvt_ts (tsys_txns s t)"
    "ts_sys_inv v (ts_after s t TOut [TWrite (mvt_ts (tsys_txns s t)) d] r1 txns1)"
    by (rule ts_write_outcome [OF wr.prems wr.hyps(2), where d = d]) (rule that)
  from wr.hyps(1) o(1) have "r' = r1" "txns' = txns1" by simp_all
  with o(2,5) show ?case by simp
next
  case (xp t s rc r' txns' ids)
  obtain r1 txns1 ids1 where o: "ts_access False t XP_REQ None (tsys_row s) (tsys_txns s) = Some (RCOK, r1, txns1, ids1)"
    "rt_row r1 = rt_row (tsys_row s)" "ts_sys_inv v (ts_after s t TOut [] r1 txns1)"
    by (rule ts_cancel_outcome [OF xp.prems xp.hyps(2)]) (rule that)
  from xp.hyps(1) o(1) have "r' = r1" "txns' = txns1" by simp_all
  with o(3) show ?case by simp
next
  case (ret s t)
  then have "ts_phase_ok (tsys_row s) (tsys_txns s) ((tsys_phase s)(t := TOut))"
    by (intro ts_phase_step [of "tsys_row s" "tsys_txns s"]) (simp_all add: ts_sys_inv_def writing_def)
  with ret show ?case by (simp add: ts_sys_inv_def)
qed

lemma ts_reach_inv: "ts_reach v txns s \<Longrightarrow> ts_sys_inv v s"
  unfolding ts_reach_def by (induction rule: rtranclp_induct) (auto intro: ts_sys_inv_init ts_step_inv)

section \<open>Theorems\<close>

text \<open>C13: Basic timestamp ordering is serialisable in timestamp order: however transactions interleave on a row, with reads that wait and are served later, conflicting accesses take effect in timestamp order, and replaying the accesses in timestamp order gives every read the value it returned.\<close>

theorem ts_serializable:
  assumes "ts_reach v txns s"
  shows "conflict_ordered (tsys_log s) \<and> serial_log v (sort_key ev_ts (tsys_log s)) \<and>
         rt_row (tsys_row s) = last_value v (tsys_log s)"
  using ts_reach_inv [OF assms] by (simp add: ts_sys_inv_def ts_log_ok_def serial_sorted)

text \<open>C14: A transaction that has read a row for update can always write it at once or cancel: no assertion fails, the write is never put into the write buffer, and the row then holds the written value with the writer's timestamp.\<close>

theorem ts_write_never_blocks:
  assumes "ts_reach v txns s" and "tsys_phase s t = THave WR"
  shows "(\<exists>r' txns' ids. ts_access False t W_REQ (Some d) (tsys_row s) (tsys_txns s) = Some (RCOK, r', txns', ids) \<and>
            writereq r' = [] \<and> rt_row r' = d \<and> wts r' = mvt_ts (tsys_txns s t)) \<and>
         (\<exists>r' txns' ids. ts_access False t XP_REQ None (tsys_row s) (tsys_txns s) = Some (RCOK, r', txns', ids) \<and>
            rt_row r' = rt_row (tsys_row s))"
  using ts_write_outcome [OF ts_reach_inv [OF assms(1)] assms(2), of d]
    ts_cancel_outcome [OF ts_reach_inv [OF assms(1)] assms(2)] by metis

text \<open>C15: Timestamp ordering does not deadlock on a row: while any transaction waits for a read, the owner of the oldest pending prewrite is not waiting, and its read after the prewrite is not refused.\<close>

theorem ts_oldest_writer_runs:
  assumes reach: "ts_reach v txns s" and wait: "tsys_phase s t = TWait a"
  shows "\<exists>u. (tsys_phase s u = TPre \<or> tsys_phase s u = THave WR) \<and> mvt_ts (tsys_txns s u) < mvt_ts (tsys_txns s t) \<and>
    (tsys_phase s u = TPre \<longrightarrow> (\<exists>r' txns'. ts_access False u R_REQ None (tsys_row s) (tsys_txns s) = Some (RCOK, r', txns', [])))"
proof -
  have inv: "ts_inv (tsys_row s)" "ts_phase_ok (tsys_row s) (tsys_txns s) (tsys_phase s)"
    using ts_reach_inv [OF reach] by (simp_all add: ts_sys_inv_def)
  note ri = ts_invD [OF inv(1)] and okD = ts_phase_okD [OF inv(2)]
  from okD(7) [OF wait] obtain q where q: "q \<in> set (readreq (tsys_row s))" "tq_txn q = t" by blast
  then have lt: "min_pts (tsys_row s) < mvt_ts (tsys_txns s t)" using ri(4) okD(5) by auto
  then have "min_pts (tsys_row s) \<noteq> UINT64_MAX" by auto
  then obtain p where p: "p \<in> set (prereq (tsys_row s))" "min_pts (tsys_row s) = tq_ts p"
    using ri(2) min_req_ts_spec(2) [of tq_ts "prereq (tsys_row s)"] by auto
  let ?u = "tq_txn p"
  have ts: "mvt_ts (tsys_txns s ?u) = min_pts (tsys_row s)" using okD(2) p by simp
  have "tsys_phase s ?u \<noteq> TWait WR"
  proof
    assume "tsys_phase s ?u = TWait WR"
    from okD(7) [OF this] obtain q' where q': "q' \<in> set (readreq (tsys_row s))" "tq_txn q' = ?u" by fastforce
    with ri(4) okD(5) ts show False by fastforce
  qed
  then have "tsys_phase s ?u = TPre \<or> tsys_phase s ?u = THave WR" using okD(3) [OF p(1)] by (auto simp: writing_def)
  moreover have "\<exists>r' txns'. ts_access False ?u R_REQ None (tsys_row s) (tsys_txns s) = Some (RCOK, r', txns', [])"
    using ri(6) by (simp add: ts_access_def Let_def ts)
  ultimately show ?thesis using lt ts by auto
qed

section \<open>Concrete runs\<close>

datatype ts_op = DoRead txn_ptr | DoPrewrite txn_ptr | DoWrite txn_ptr row_bytes | DoCancel txn_ptr

fun ts_exec :: "ts_op \<Rightarrow> ts_sys \<Rightarrow> ts_sys option" where
  "ts_exec (DoRead t) s = do {
     ASSERT (tsys_phase s t = TIdle \<or> tsys_phase s t = TPre);
     (rc, r', txns', ids) \<leftarrow> ts_access False t R_REQ None (tsys_row s) (tsys_txns s);
     Some (ts_after s t (read_phase rc (if tsys_phase s t = TIdle then RD else WR))
       (if rc = RCOK then [TRead (mvt_ts (tsys_txns s t)) (cur_row (txns' t))] else []) r' txns') }"
| "ts_exec (DoPrewrite t) s = do {
     ASSERT (tsys_phase s t = TIdle);
     (rc, r', txns', ids) \<leftarrow> ts_access False t P_REQ None (tsys_row s) (tsys_txns s);
     Some (ts_after s t (if rc = RCOK then TPre else TOut) [] r' txns') }"
| "ts_exec (DoWrite t d) s = do {
     ASSERT (tsys_phase s t = THave WR);
     (rc, r', txns', ids) \<leftarrow> ts_access False t W_REQ (Some d) (tsys_row s) (tsys_txns s);
     Some (ts_after s t TOut (if writereq r' = [] then [TWrite (mvt_ts (tsys_txns s t)) d] else []) r' txns') }"
| "ts_exec (DoCancel t) s = do {
     ASSERT (tsys_phase s t = THave WR);
     (rc, r', txns', ids) \<leftarrow> ts_access False t XP_REQ None (tsys_row s) (tsys_txns s);
     Some (ts_after s t TOut [] r' txns') }"

lemma ts_exec_step: "ts_exec op s = Some s' \<Longrightarrow> ts_step s s'"
  by (cases op) (auto simp: bind_eq_Some_conv intro: ts_step.intros)

fun ts_run :: "ts_op list \<Rightarrow> ts_sys \<Rightarrow> ts_sys option" where
  "ts_run [] s = Some s"
| "ts_run (op # ops) s = ts_exec op s \<bind> ts_run ops"

lemma ts_run_reach: "ts_run ops s = Some s' \<Longrightarrow> ts_step\<^sup>*\<^sup>* s s'"
  by (induction ops arbitrary: s)
    (auto simp: bind_eq_Some_conv intro: converse_rtranclp_into_rtranclp dest: ts_exec_step)

definition demo_tss :: mv_store where
  "demo_tss t = \<lparr>mvt_id = of_nat t, mvt_ts = of_nat t * 10, ts_ready = True, cur_row = []\<rparr>"

lemma ts_demo_reach: "ts_run ops (ts_sys_init v demo_tss) = Some s \<Longrightarrow> ts_reach v demo_tss s"
  unfolding ts_reach_def by (rule ts_run_reach)

theorem ts_serializable_witness:
  "\<exists>s. ts_reach [0] demo_tss s \<and> tsys_log s = [TRead 10 [0], TWrite 10 [7], TRead 20 [7]] \<and>
     serial_log [0] (sort_key ev_ts (tsys_log s))"
proof -
  let ?ops = "[DoPrewrite 1, DoRead 1, DoRead 2, DoWrite 1 [7]]"
  have "map_option tsys_log (ts_run ?ops (ts_sys_init [0] demo_tss)) = Some [TRead 10 [0], TWrite 10 [7], TRead 20 [7]]"
    by code_simp
  then obtain s where s: "ts_run ?ops (ts_sys_init [0] demo_tss) = Some s"
    "tsys_log s = [TRead 10 [0], TWrite 10 [7], TRead 20 [7]]" by (auto simp: map_option_eq_Some)
  from ts_serializable [OF ts_demo_reach [OF s(1)]] s(2) ts_demo_reach [OF s(1)] show ?thesis by metis
qed

theorem ts_write_never_blocks_witness:
  "\<exists>s r' txns' ids. tsys_phase s 1 = THave WR \<and> ts_reach [0] demo_tss s \<and>
     ts_access False 1 W_REQ (Some [7]) (tsys_row s) (tsys_txns s) = Some (RCOK, r', txns', ids) \<and> rt_row r' = [7]"
proof -
  let ?ops = "[DoPrewrite 1, DoRead 1, DoRead 2]"
  have "map_option (\<lambda>s. tsys_phase s 1) (ts_run ?ops (ts_sys_init [0] demo_tss)) = Some (THave WR)" by code_simp
  then obtain s where s: "ts_run ?ops (ts_sys_init [0] demo_tss) = Some s" "tsys_phase s 1 = THave WR"
    by (auto simp: map_option_eq_Some)
  from ts_write_never_blocks [OF ts_demo_reach [OF s(1)] s(2), of "[7]"] s(2) ts_demo_reach [OF s(1)] show ?thesis by blast
qed

theorem ts_oldest_writer_runs_witness:
  "\<exists>s u. tsys_phase s 2 = TWait RD \<and> ts_reach [0] demo_tss s \<and> (tsys_phase s u = TPre \<or> tsys_phase s u = THave WR)"
proof -
  let ?ops = "[DoPrewrite 1, DoRead 2]"
  have "map_option (\<lambda>s. tsys_phase s 2) (ts_run ?ops (ts_sys_init [0] demo_tss)) = Some (TWait RD)" by code_simp
  then obtain s where s: "ts_run ?ops (ts_sys_init [0] demo_tss) = Some s" "tsys_phase s 2 = TWait RD"
    by (auto simp: map_option_eq_Some)
  from ts_oldest_writer_runs [OF ts_demo_reach [OF s(1)] s(2)] s(2) ts_demo_reach [OF s(1)] show ?thesis by blast
qed

end
