(* ===== verification/Occ.thy ===== *)
theory Occ
  imports Request_List
begin

text \<open>
  Optimistic concurrency control: \<^verbatim>\<open>concurrency_control/occ.cpp\<close> (central backward validation and
  the per-row variant) and \<^verbatim>\<open>row_occ.cpp\<close>. \<^verbatim>\<open>PER_ROW_VALID\<close> is an argument where it matters. A row
  pointer is a number. The two critical sections of \<^verbatim>\<open>central_validate\<close> and the unlocked check between
  them are separate definitions, so that validations of several transactions interleave in the
  transition system at the end. The value of \<^verbatim>\<open>glob_manager.get_ts\<close> is an argument.

  The theory shows what the check decides, that transactions which are past validation and not yet
  finished write disjoint rows, that the bubble sort of the per-row variant sorts, and that the
  history of committed write sets is never looked at when transaction numbers stay below the start
  timestamps, which loses updates.
\<close>

section \<open>State\<close>

type_synonym row_ptr = nat

record occ_access =
  oa_type :: access_t
  oa_row :: row_ptr

record occ_txn =
  ot_ptr :: txn_ptr
  start_timestamp :: ts_t
  ot_accesses :: "occ_access list"
  ot_row_cnt :: u64
  ot_write_cnt :: u64

record set_ent =
  se_tn :: u64
  se_txn :: txn_ptr
  se_rows :: "row_ptr list"

record opt_cc =
  tnc :: u64
  history :: "set_ent list"
  active :: "set_ent list"
  his_len :: u64
  active_len :: u64

definition occ_init :: opt_cc where
  "occ_init = \<lparr>tnc = 0, history = [], active = [], his_len = 0, active_len = 0\<rparr>"

section \<open>Central validation\<close>

text \<open>The row arrays hold \<^verbatim>\<open>set_size\<close> entries each, and the assertions at the end of \<^verbatim>\<open>get_rw_set\<close> say
  that the loop filled them. \<^verbatim>\<open>set_size\<close> has 32 bits. Reading an access out of range fails an assertion
  of \<^verbatim>\<open>Array\<close>.\<close>

definition get_rw_set :: "occ_txn \<Rightarrow> (set_ent \<times> set_ent) option" where
  "get_rw_set txn =
     (let wsize = (ucast (ot_write_cnt txn) :: u32);
          rsize = (ucast (ot_row_cnt txn - ot_write_cnt txn) :: u32);
          n = unat (wsize + rsize);
          accs = take n (ot_accesses txn);
          w = map oa_row (filter (\<lambda>a. oa_type a = WR) accs);
          r = map oa_row (filter (\<lambda>a. oa_type a \<noteq> WR) accs)
      in do {
        ASSERT (n \<le> length (ot_accesses txn));
        ASSERT (length w = unat wsize);
        ASSERT (length r = unat rsize);
        Some (\<lparr>se_tn = 0, se_txn = ot_ptr txn, se_rows = r\<rparr>, \<lparr>se_tn = 0, se_txn = ot_ptr txn, se_rows = w\<rparr>) })"

fun row_in :: "row_ptr \<Rightarrow> row_ptr list \<Rightarrow> bool" where
  "row_in x [] = False"
| "row_in x (y # ys) = (if x = y then True else row_in x ys)"

fun rows_disjoint :: "row_ptr list \<Rightarrow> row_ptr list \<Rightarrow> bool" where
  "rows_disjoint [] ys = True"
| "rows_disjoint (x # xs) ys = (if row_in x ys then False else rows_disjoint xs ys)"

definition test_valid :: "set_ent \<Rightarrow> set_ent \<Rightarrow> bool" where
  "test_valid set1 set2 = rows_disjoint (se_rows set1) (se_rows set2)"

text \<open>Lines 131 to 160: the first critical section. The stack of active write sets and the head of the
  history are copied before the own write set is pushed.\<close>

definition occ_enter :: "occ_txn \<Rightarrow> opt_cc \<Rightarrow> (set_ent \<times> set_ent \<times> set_ent list \<times> set_ent list \<times> opt_cc) option" where
  "occ_enter txn st = do {
     (rset, wset) \<leftarrow> get_rw_set txn;
     let readonly = (se_rows wset = []);
     let st' = (if \<not> readonly then st\<lparr>active_len := active_len st + 1, active := wset # active st\<rparr> else st);
     Some (rset, wset, active st, history st, st') }"

text \<open>Lines 169 to 201: the check outside the critical sections.\<close>

fun check_history :: "ts_t \<Rightarrow> set_ent \<Rightarrow> set_ent list \<Rightarrow> bool" where
  "check_history start_tn rset [] = True"
| "check_history start_tn rset (h # hs) =
     (if se_tn h > start_tn then (if \<not> test_valid h rset then False else check_history start_tn rset hs) else True)"

fun check_active :: "set_ent \<Rightarrow> set_ent \<Rightarrow> set_ent list \<Rightarrow> bool" where
  "check_active rset wset [] = True"
| "check_active rset wset (w # ws) =
     (if \<not> test_valid w rset then False
      else if \<not> test_valid w wset then False
      else check_active rset wset ws)"

definition occ_check :: "ts_t \<Rightarrow> ts_t \<Rightarrow> set_ent \<Rightarrow> set_ent \<Rightarrow> set_ent list \<Rightarrow> set_ent list \<Rightarrow> bool" where
  "occ_check start_tn finish_tn rset wset finish_active his =
     ((finish_tn > start_tn \<longrightarrow> check_history start_tn rset (dropWhile (\<lambda>h. se_tn h > finish_tn) his)) \<and>
      check_active rset wset finish_active)"

fun unlink_active :: "txn_ptr \<Rightarrow> set_ent list \<Rightarrow> set_ent list option" where
  "unlink_active t [] = None"
| "unlink_active t (a # as) = (if se_txn a = t then Some as else map_option (Cons a) (unlink_active t as))"

text \<open>Lines 222 to 236: the second critical section, for a transaction that failed.\<close>

definition occ_leave :: "txn_ptr \<Rightarrow> opt_cc \<Rightarrow> opt_cc" where
  "occ_leave t st =
     (case unlink_active t (active st) of
        Some as \<Rightarrow> st\<lparr>active := as, active_len := active_len st - 1\<rparr>
      | None \<Rightarrow> st)"

definition central_validate :: "occ_txn \<Rightarrow> ts_t \<Rightarrow> opt_cc \<Rightarrow> (RC \<times> opt_cc) option" where
  "central_validate txn finish_tn st = do {
     (rset, wset, finish_active, his, st) \<leftarrow> occ_enter txn st;
     Some (if occ_check (start_timestamp txn) finish_tn rset wset finish_active his then (RCOK, st)
           else (Abort, occ_leave (ot_ptr txn) st)) }"

definition central_finish :: "RC \<Rightarrow> occ_txn \<Rightarrow> opt_cc \<Rightarrow> opt_cc option" where
  "central_finish rc txn st = do {
     (rset, wset) \<leftarrow> get_rw_set txn;
     let readonly = (se_rows wset = []);
     if readonly then Some st
     else (case unlink_active (ot_ptr txn) (active st) of
             None \<Rightarrow> do { ASSERT (rc = Abort); Some st }
           | Some as \<Rightarrow>
               let st = st\<lparr>active := as, active_len := active_len st - 1\<rparr>
               in if rc = RCOK
                  then Some (st\<lparr>tnc := tnc st + 1, history := wset\<lparr>se_tn := tnc st + 1\<rparr> # history st,
                              his_len := his_len st + 1\<rparr>)
                  else Some st) }"

section \<open>Rows\<close>

text \<open>\<^verbatim>\<open>sem\<close> is the value of the row's semaphore. \<open>None\<close> is a caller that blocks in \<^verbatim>\<open>sem_wait\<close>, or a failed
  assertion.\<close>

record row_occ =
  ro_row :: row_bytes
  ro_wts :: ts_t
  ro_sem :: nat

definition row_occ_init :: "row_bytes \<Rightarrow> row_occ" where
  "row_occ_init row = \<lparr>ro_row = row, ro_wts = 0, ro_sem = 1\<rparr>"

definition sem_wait :: "row_occ \<Rightarrow> row_occ option" where
  "sem_wait r = (if ro_sem r > 0 then Some (r\<lparr>ro_sem := ro_sem r - 1\<rparr>) else None)"

definition sem_post :: "row_occ \<Rightarrow> row_occ" where
  "sem_post r = r\<lparr>ro_sem := ro_sem r + 1\<rparr>"

definition row_occ_access :: "ts_t \<Rightarrow> TsType \<Rightarrow> row_occ \<Rightarrow> (RC \<times> row_bytes option \<times> row_occ) option" where
  "row_occ_access start_ts ty r = do {
     r \<leftarrow> sem_wait r;
     ASSERT (ty = R_REQ);
     Some (if start_ts < ro_wts r then (Abort, None, sem_post r) else (RCOK, Some (ro_row r), sem_post r)) }"

definition occ_latch :: "row_occ \<Rightarrow> row_occ option" where
  "occ_latch r = sem_wait r"

definition occ_row_validate :: "ts_t \<Rightarrow> row_occ \<Rightarrow> bool" where
  "occ_row_validate ts r = (if ts < ro_wts r then False else True)"

definition occ_write :: "bool \<Rightarrow> row_bytes \<Rightarrow> ts_t \<Rightarrow> row_occ \<Rightarrow> row_occ option" where
  "occ_write per_row data ts r =
     (let r = r\<lparr>ro_row := data\<rparr>
      in if per_row then do { ASSERT (ts > ro_wts r); Some (r\<lparr>ro_wts := ts\<rparr>) } else Some r)"

definition occ_release :: "row_occ \<Rightarrow> row_occ" where
  "occ_release r = sem_post r"

text \<open>\<^verbatim>\<open>row_t::return_row\<close> under OCC: the semaphore is posted for every access, also for a row that the
  transaction has not latched.\<close>

definition occ_return_row :: "bool \<Rightarrow> access_t \<Rightarrow> row_bytes option \<Rightarrow> ts_t \<Rightarrow> row_occ \<Rightarrow> row_occ option" where
  "occ_return_row per_row ty row end_ts r = do {
     data \<leftarrow> row;
     r \<leftarrow> (if ty = WR then occ_write per_row data end_ts r else Some r);
     Some (occ_release r) }"

section \<open>Per-row validation\<close>

text \<open>The sort key of an access is the name of its table (as \<^verbatim>\<open>strcmp\<close> orders it, here a number) and the
  primary key of its row.\<close>

type_synonym row_key = "nat \<times> u64"

definition key_after :: "row_key \<Rightarrow> row_key \<Rightarrow> bool" where
  "key_after a b \<longleftrightarrow> fst a > fst b \<or> (fst a = fst b \<and> snd a > snd b)"

text \<open>Line 68: one pass of the inner loop over the first \<open>i + 1\<close> entries.\<close>

fun bubble_pass :: "(row_ptr \<Rightarrow> row_key) \<Rightarrow> nat \<Rightarrow> occ_access list \<Rightarrow> occ_access list" where
  "bubble_pass key (Suc i) (x # y # xs) =
     (if key_after (key (oa_row x)) (key (oa_row y)) then y # bubble_pass key i (x # xs)
      else x # bubble_pass key i (y # xs))"
| "bubble_pass key i xs = xs"

fun bubble_sort :: "(row_ptr \<Rightarrow> row_key) \<Rightarrow> nat \<Rightarrow> occ_access list \<Rightarrow> occ_access list" where
  "bubble_sort key 0 xs = xs"
| "bubble_sort key (Suc i) xs = bubble_sort key i (bubble_pass key (Suc i) xs)"

text \<open>Line 67: with no access the counter \<open>get_access_cnt() - 1\<close> wraps around and the first read of the
  loop fails the bounds assertion of \<^verbatim>\<open>Array\<close>.\<close>

definition sort_accesses :: "(row_ptr \<Rightarrow> row_key) \<Rightarrow> occ_access list \<Rightarrow> occ_access list option" where
  "sort_accesses key xs = do { ASSERT (xs \<noteq> []); Some (bubble_sort key (length xs - 1) xs) }"

text \<open>Lines 88 to 94: rows are latched in order until one fails.\<close>

fun latch_and_validate :: "ts_t \<Rightarrow> row_ptr list \<Rightarrow> (row_ptr \<Rightarrow> row_occ) \<Rightarrow> (bool \<times> (row_ptr \<Rightarrow> row_occ)) option" where
  "latch_and_validate ts [] rows = Some (True, rows)"
| "latch_and_validate ts (x # xs) rows = do {
     r \<leftarrow> occ_latch (rows x);
     let rows = rows(x := r);
     if occ_row_validate ts r then latch_and_validate ts xs rows else Some (False, rows) }"

definition per_row_validate ::
  "(row_ptr \<Rightarrow> row_key) \<Rightarrow> occ_txn \<Rightarrow> (row_ptr \<Rightarrow> row_occ) \<Rightarrow> (RC \<times> occ_txn \<times> (row_ptr \<Rightarrow> row_occ)) option" where
  "per_row_validate key txn rows = do {
     accs \<leftarrow> sort_accesses key (ot_accesses txn);
     (ok, rows) \<leftarrow> latch_and_validate (start_timestamp txn) (map oa_row accs) rows;
     Some (if ok then RCOK else Abort, txn\<lparr>ot_accesses := accs\<rparr>, rows) }"

section \<open>What the checks decide\<close>

lemma row_in_iff [simp]: "row_in x ys \<longleftrightarrow> x \<in> set ys"
  by (induction ys) auto

lemma rows_disjoint_iff: "rows_disjoint xs ys \<longleftrightarrow> set xs \<inter> set ys = {}"
  by (induction xs) auto

lemma test_valid_iff: "test_valid a b \<longleftrightarrow> set (se_rows a) \<inter> set (se_rows b) = {}"
  by (simp add: test_valid_def rows_disjoint_iff)

lemma test_valid_sym: "test_valid a b \<longleftrightarrow> test_valid b a"
  by (auto simp: test_valid_iff)

lemma check_active_iff: "check_active rset wset ws \<longleftrightarrow> (\<forall>w \<in> set ws. test_valid w rset \<and> test_valid w wset)"
  by (induction ws) auto

definition tn_desc :: "set_ent list \<Rightarrow> bool" where
  "tn_desc hs \<longleftrightarrow> sorted_wrt (\<lambda>a b. se_tn b \<le> se_tn a) hs"

lemma check_history_iff:
  "tn_desc hs \<Longrightarrow> check_history st rset hs \<longleftrightarrow> (\<forall>h \<in> set hs. st < se_tn h \<longrightarrow> test_valid h rset)"
  by (induction hs) (auto simp: tn_desc_def dest: leD order.strict_trans1)

lemma tn_desc_dropWhile:
  assumes "tn_desc hs"
  shows "tn_desc (dropWhile P hs)" "set (dropWhile (\<lambda>h. se_tn h > f) hs) = {h \<in> set hs. se_tn h \<le> f}"
  using assms by (induction hs) (auto simp: tn_desc_def not_less dest: order.trans)

text \<open>C17: The optimistic check accepts a transaction exactly when no write set committed after its start and up to its finish number meets its read set, and no write set in validation meets its read or write set.\<close>

theorem occ_check_iff:
  assumes "tn_desc his"
  shows "occ_check start_tn finish_tn rset wset acts his \<longleftrightarrow>
     (\<forall>h \<in> set his. start_tn < se_tn h \<and> se_tn h \<le> finish_tn \<longrightarrow> set (se_rows h) \<inter> set (se_rows rset) = {}) \<and>
     (\<forall>w \<in> set acts. set (se_rows w) \<inter> (set (se_rows rset) \<union> set (se_rows wset)) = {})"
proof -
  have "finish_tn > start_tn \<longrightarrow> check_history start_tn rset (dropWhile (\<lambda>h. se_tn h > finish_tn) his) \<longleftrightarrow>
      (\<forall>h \<in> set his. start_tn < se_tn h \<and> se_tn h \<le> finish_tn \<longrightarrow> test_valid h rset)"
    using tn_desc_dropWhile [OF assms] by (auto simp: check_history_iff)
  then show ?thesis
    by (auto simp: occ_check_def check_active_iff test_valid_iff dest: order.strict_trans2)
qed

section \<open>The bubble sort\<close>

definition key_le :: "(row_ptr \<Rightarrow> row_key) \<Rightarrow> occ_access \<Rightarrow> occ_access \<Rightarrow> bool" where
  "key_le key a b \<longleftrightarrow> \<not> key_after (key (oa_row a)) (key (oa_row b))"

lemma key_le_trans: "key_le key a b \<Longrightarrow> key_le key b c \<Longrightarrow> key_le key a c"
  by (auto simp: key_le_def key_after_def not_less)

lemma bubble_pass_spec:
  "i < length xs \<Longrightarrow> \<exists>ys m. bubble_pass key i xs = ys @ m # drop (Suc i) xs \<and> length ys = i \<and>
     (\<forall>y \<in> set ys. key_le key y m) \<and> mset (ys @ [m]) = mset (take (Suc i) xs)"
proof (induction key i xs rule: bubble_pass.induct)
  case (1 key i x y xs)
  define swap where "swap = key_after (key (oa_row x)) (key (oa_row y))"
  define a b where "a = (if swap then y else x)" and "b = (if swap then x else y)"
  have pass: "bubble_pass key (Suc i) (x # y # xs) = a # bubble_pass key i (b # xs)"
    by (simp add: a_def b_def swap_def)
  have ab: "key_le key a b" by (auto simp: a_def b_def swap_def key_le_def key_after_def)
  have "i < length (b # xs)" using "1.prems" by simp
  then obtain ys m where r: "bubble_pass key i (b # xs) = ys @ m # drop (Suc i) (b # xs)" "length ys = i"
    "\<forall>y \<in> set ys. key_le key y m" "mset (ys @ [m]) = mset (take (Suc i) (b # xs))"
    using "1.IH" by (cases swap) (auto simp: b_def swap_def)
  have "b \<in> set (ys @ [m])" using mset_eq_setD [OF r(4)] by auto
  with r(3) have bm: "b = m \<or> key_le key b m" by auto
  with ab have "key_le key a m" by (auto intro: key_le_trans)
  moreover have "mset ((a # ys) @ [m]) = mset (take (Suc (Suc i)) (x # y # xs))"
    using r(4) by (auto simp: a_def b_def)
  ultimately show ?case unfolding pass r(1) using r(2,3)
    by (intro exI [of _ "a # ys"] exI [of _ m]) auto
qed (auto intro!: exI [of _ "[]"] simp: neq_Nil_conv Suc_le_eq)

lemma bubble_sort_spec:
  "i < length xs \<Longrightarrow> sorted_wrt (key_le key) (drop (Suc i) xs) \<Longrightarrow>
   (\<And>x y. x \<in> set (take (Suc i) xs) \<Longrightarrow> y \<in> set (drop (Suc i) xs) \<Longrightarrow> key_le key x y) \<Longrightarrow>
   sorted_wrt (key_le key) (bubble_sort key i xs) \<and> mset (bubble_sort key i xs) = mset xs"
proof (induction i arbitrary: xs)
  case 0
  then show ?case by (cases xs) auto
next
  case (Suc i)
  obtain ys m where p: "bubble_pass key (Suc i) xs = ys @ m # drop (Suc (Suc i)) xs" "length ys = Suc i"
    "\<forall>y \<in> set ys. key_le key y m" "mset (ys @ [m]) = mset (take (Suc (Suc i)) xs)"
    using bubble_pass_spec [OF Suc.prems(1)] by blast
  let ?zs = "ys @ m # drop (Suc (Suc i)) xs"
  have set: "set ys \<union> {m} = set (take (Suc (Suc i)) xs)" using mset_eq_setD [OF p(4)] by auto
  have le: "key_le key x y" if "x \<in> set ys \<union> {m}" "y \<in> set (drop (Suc (Suc i)) xs)" for x y
    using Suc.prems(3) that unfolding set by blast
  have "sorted_wrt (key_le key) (bubble_sort key i ?zs) \<and> mset (bubble_sort key i ?zs) = mset ?zs"
    using Suc.prems(2) p(2,3) le by (intro Suc.IH) auto
  moreover have "mset ?zs = mset xs" using p(4) by (metis append_take_drop_id mset_append append.assoc append_Cons append_Nil)
  ultimately show ?case by (simp add: p(1))
qed

text \<open>Per-row validation latches the rows of a transaction in the order of table and primary key: the bubble sort returns a sorted permutation of the accesses, and fails only for a transaction without accesses.\<close>

theorem sort_accesses_sorts:
  "(sort_accesses key xs = None \<longleftrightarrow> xs = []) \<and>
   (\<forall>ys. sort_accesses key xs = Some ys \<longrightarrow> sorted_wrt (key_le key) ys \<and> mset ys = mset xs)"
  using bubble_sort_spec [of "length xs - 1" xs key] by (cases "xs = []") (auto simp: sort_accesses_def)

section \<open>Interleaved validations\<close>

datatype occ_phase =
    ORun
  | OCheck set_ent set_ent "set_ent list" "set_ent list"
  | OValid set_ent
  | OOut

record occ_sys =
  os_cc :: opt_cc
  os_phase :: "txn_ptr \<Rightarrow> occ_phase"

inductive occ_step :: "(txn_ptr \<Rightarrow> occ_txn) \<Rightarrow> occ_sys \<Rightarrow> occ_sys \<Rightarrow> bool" for T where
  enter: "os_phase s t = ORun \<Longrightarrow> occ_enter (T t) (os_cc s) = Some (rset, wset, acts, his, cc) \<Longrightarrow>
    occ_step T s \<lparr>os_cc = cc, os_phase = (os_phase s)(t := OCheck rset wset acts his)\<rparr>"
| pass: "os_phase s t = OCheck rset wset acts his \<Longrightarrow>
    occ_check (start_timestamp (T t)) finish_tn rset wset acts his \<Longrightarrow>
    occ_step T s (s\<lparr>os_phase := (os_phase s)(t := OValid wset)\<rparr>)"
| fail: "os_phase s t = OCheck rset wset acts his \<Longrightarrow>
    \<not> occ_check (start_timestamp (T t)) finish_tn rset wset acts his \<Longrightarrow>
    occ_step T s \<lparr>os_cc = occ_leave t (os_cc s), os_phase = (os_phase s)(t := OOut)\<rparr>"
| finish: "os_phase s t = OValid wset \<Longrightarrow> rc = RCOK \<or> rc = Abort \<Longrightarrow> central_finish rc (T t) (os_cc s) = Some cc \<Longrightarrow>
    occ_step T s \<lparr>os_cc = cc, os_phase = (os_phase s)(t := OOut)\<rparr>"

definition occ_sys_init :: occ_sys where
  "occ_sys_init = \<lparr>os_cc = occ_init, os_phase = (\<lambda>_. ORun)\<rparr>"

definition occ_reach :: "(txn_ptr \<Rightarrow> occ_txn) \<Rightarrow> occ_sys \<Rightarrow> bool" where
  "occ_reach T s \<longleftrightarrow> (occ_step T)\<^sup>*\<^sup>* occ_sys_init s"

lemma get_rw_set_txn: "get_rw_set txn = Some (r, w) \<Longrightarrow> se_txn w = ot_ptr txn \<and> se_txn r = ot_ptr txn"
  by (auto simp: get_rw_set_def Let_def)

lemma unlink_active_filter:
  "distinct (map se_txn as) \<Longrightarrow>
   unlink_active t as = (if t \<in> se_txn ` set as then Some (filter (\<lambda>a. se_txn a \<noteq> t) as) else None)"
proof (induction as)
  case (Cons a as)
  have "se_txn a \<notin> se_txn ` set as \<Longrightarrow> filter (\<lambda>b. se_txn b \<noteq> se_txn a) as = as"
    by (rule filter_True) (auto simp: image_iff)
  with Cons show ?case by auto
qed simp

text \<open>The entries pushed before \<open>w\<close> that are still active.\<close>

definition older :: "set_ent \<Rightarrow> set_ent list \<Rightarrow> set_ent list" where
  "older w as = tl (dropWhile (\<lambda>a. a \<noteq> w) as)"

lemma older_Cons [simp]: "older w (a # as) = (if a = w then as else older w as)"
  by (simp add: older_def)

lemma older_filter: "w \<in> set as \<Longrightarrow> P w \<Longrightarrow> set (older w (filter P as)) \<subseteq> set (older w as)"
  by (induction as) auto

lemma older_total: "a \<in> set as \<Longrightarrow> b \<in> set as \<Longrightarrow> a \<noteq> b \<Longrightarrow> a \<in> set (older b as) \<or> b \<in> set (older a as)"
  by (induction as) auto

lemma older_subset: "set (older w as) \<subseteq> set as"
  by (induction as) (auto simp: older_def)

definition occ_cc_ok :: "opt_cc \<Rightarrow> bool" where
  "occ_cc_ok cc \<longleftrightarrow> active_len cc = of_nat (length (active cc)) \<and> his_len cc = of_nat (length (history cc)) \<and>
     tnc cc = of_nat (length (history cc)) \<and>
     (length (history cc) < 2 ^ 64 \<longrightarrow> tn_desc (history cc) \<and> (\<forall>h \<in> set (history cc). se_tn h \<le> tnc cc))"

definition occ_act_ok :: "(txn_ptr \<Rightarrow> occ_txn) \<Rightarrow> set_ent list \<Rightarrow> (txn_ptr \<Rightarrow> occ_phase) \<Rightarrow> bool" where
  "occ_act_ok T as ph \<longleftrightarrow> distinct (map se_txn as) \<and> (\<forall>a \<in> set as. se_rows a \<noteq> []) \<and>
     (\<forall>a \<in> set as. (\<exists>r acts his. ph (se_txn a) = OCheck r a acts his) \<or> ph (se_txn a) = OValid a) \<and>
     (\<forall>t r w acts his. ph t = OCheck r w acts his \<longrightarrow>
        get_rw_set (T t) = Some (r, w) \<and> (se_rows w \<noteq> [] \<longrightarrow> w \<in> set as \<and> set (older w as) \<subseteq> set acts)) \<and>
     (\<forall>t w. ph t = OValid w \<longrightarrow>
        (\<exists>r. get_rw_set (T t) = Some (r, w)) \<and> (se_rows w \<noteq> [] \<longrightarrow> w \<in> set as \<and> (\<forall>a \<in> set (older w as). test_valid a w)))"

definition occ_inv :: "(txn_ptr \<Rightarrow> occ_txn) \<Rightarrow> occ_sys \<Rightarrow> bool" where
  "occ_inv T s \<longleftrightarrow> occ_cc_ok (os_cc s) \<and> occ_act_ok T (active (os_cc s)) (os_phase s)"

lemma occ_act_okD:
  assumes "occ_act_ok T as ph"
  shows "distinct (map se_txn as)"
    "a \<in> set as \<Longrightarrow> (\<exists>r acts his. ph (se_txn a) = OCheck r a acts his) \<or> ph (se_txn a) = OValid a"
    "ph t = OCheck r w acts his \<Longrightarrow> get_rw_set (T t) = Some (r, w)"
    "ph t = OCheck r w acts his \<Longrightarrow> se_rows w \<noteq> [] \<Longrightarrow> w \<in> set as"
    "ph t = OCheck r w acts his \<Longrightarrow> se_rows w \<noteq> [] \<Longrightarrow> set (older w as) \<subseteq> set acts"
    "ph t = OValid w \<Longrightarrow> \<exists>r. get_rw_set (T t) = Some (r, w)"
    "ph t = OValid w \<Longrightarrow> se_rows w \<noteq> [] \<Longrightarrow> w \<in> set as"
    "ph t = OValid w \<Longrightarrow> se_rows w \<noteq> [] \<Longrightarrow> a \<in> set (older w as) \<Longrightarrow> test_valid a w"
    "a \<in> set as \<Longrightarrow> se_rows a \<noteq> []"
  using assms unfolding occ_act_ok_def by blast+

lemma occ_act_push:
  assumes ok: "occ_act_ok T as ph" and t: "ph t = ORun" and rw: "get_rw_set (T t) = Some (r, w)" and w: "se_txn w = t"
  shows "occ_act_ok T (if se_rows w \<noteq> [] then w # as else as) (ph(t := OCheck r w as his))"
proof -
  note D = occ_act_okD [OF ok]
  have fresh: "se_txn a \<noteq> t" if "a \<in> set as" for a using D(2) [OF that] t by auto
  then have notin: "t \<notin> se_txn ` set as" by blast
  show ?thesis unfolding occ_act_ok_def
  proof (intro conjI allI ballI impI)
    show "distinct (map se_txn (if se_rows w \<noteq> [] then w # as else as))" using D(1) notin w by simp
    show "se_rows a \<noteq> []" if "a \<in> set (if se_rows w \<noteq> [] then w # as else as)" for a
      using that D(9) by (auto split: if_splits)
    show "(\<exists>r' acts his'. (ph(t := OCheck r w as his)) (se_txn a) = OCheck r' a acts his') \<or>
      (ph(t := OCheck r w as his)) (se_txn a) = OValid a" if "a \<in> set (if se_rows w \<noteq> [] then w # as else as)" for a
      using that D(2) [of a] fresh [of a] w by (auto split: if_splits)
  next
    fix u r' w' acts his'
    assume u: "(ph(t := OCheck r w as his)) u = OCheck r' w' acts his'"
    show "get_rw_set (T u) = Some (r', w')" using u D(3) [of u] rw by (auto split: if_splits)
    assume rows: "se_rows w' \<noteq> []"
    show "w' \<in> set (if se_rows w \<noteq> [] then w # as else as)"
      using u rows D(4) [of u] by (auto split: if_splits)
    show "set (older w' (if se_rows w \<noteq> [] then w # as else as)) \<subseteq> set acts"
    proof (cases "u = t")
      case False
      with u have "ph u = OCheck r' w' acts his'" by simp
      from D(4,5) [OF this rows] fresh [of w'] w show ?thesis by auto
    qed (use u rows in auto)
  next
    fix u w'
    assume u: "(ph(t := OCheck r w as his)) u = OValid w'"
    then have pu: "ph u = OValid w'" by (auto split: if_splits)
    show "\<exists>r. get_rw_set (T u) = Some (r, w')" by (rule D(6) [OF pu])
    assume rows: "se_rows w' \<noteq> []"
    show "w' \<in> set (if se_rows w \<noteq> [] then w # as else as)" using D(7) [OF pu rows] by auto
    fix a assume "a \<in> set (older w' (if se_rows w \<noteq> [] then w # as else as))"
    with D(7) [OF pu rows] fresh [of w'] w have "a \<in> set (older w' as)" by (auto split: if_splits)
    then show "test_valid a w'" by (rule D(8) [OF pu rows])
  qed
qed

lemma occ_act_pass:
  assumes ok: "occ_act_ok T as ph" and t: "ph t = OCheck r w acts his" and v: "\<forall>a \<in> set acts. test_valid a w"
    and T: "ot_ptr (T t) = t"
  shows "occ_act_ok T as (ph(t := OValid w))"
proof -
  note D = occ_act_okD [OF ok]
  have own: "a = w" if "a \<in> set as" "se_txn a = t" for a using D(2) [OF that(1)] that(2) t by auto
  show ?thesis unfolding occ_act_ok_def
  proof (intro conjI allI ballI impI)
    show "distinct (map se_txn as)" by (rule D(1))
    show "se_rows a \<noteq> []" if "a \<in> set as" for a using that by (rule D(9))
    show "(\<exists>r acts his. (ph(t := OValid w)) (se_txn a) = OCheck r a acts his) \<or> (ph(t := OValid w)) (se_txn a) = OValid a"
      if "a \<in> set as" for a using that D(2) [OF that] own [OF that] by auto
    show "get_rw_set (T u) = Some (r', w')" if "(ph(t := OValid w)) u = OCheck r' w' acts' his'" for u r' w' acts' his'
      using that D(3) [of u] by (auto split: if_splits)
    show "w' \<in> set as" "set (older w' as) \<subseteq> set acts'"
      if "(ph(t := OValid w)) u = OCheck r' w' acts' his'" "se_rows w' \<noteq> []" for u r' w' acts' his'
      using that D(4,5) [of u r' w' acts' his'] by (auto split: if_splits)
    show "\<exists>r. get_rw_set (T u) = Some (r, w')" if "(ph(t := OValid w)) u = OValid w'" for u w'
      using that D(3) [OF t] D(6) [of u w'] by (auto split: if_splits)
    show "w' \<in> set as" if "(ph(t := OValid w)) u = OValid w'" "se_rows w' \<noteq> []" for u w'
      using that D(4) [OF t] D(7) [of u w'] by (auto split: if_splits)
    show "test_valid a w'" if "(ph(t := OValid w)) u = OValid w'" "se_rows w' \<noteq> []" "a \<in> set (older w' as)" for u w' a
      using that D(5) [OF t] v D(8) [of u w' a] by (auto split: if_splits)
  qed
qed

lemma occ_act_drop:
  assumes ok: "occ_act_ok T as ph" and t: "\<And>u w r. u \<noteq> t \<Longrightarrow> get_rw_set (T u) = Some (r, w) \<Longrightarrow> se_txn w \<noteq> t"
  shows "occ_act_ok T (filter (\<lambda>a. se_txn a \<noteq> t) as) (ph(t := OOut))"
proof -
  note D = occ_act_okD [OF ok]
  let ?as = "filter (\<lambda>a. se_txn a \<noteq> t) as"
  show ?thesis unfolding occ_act_ok_def
  proof (intro conjI allI ballI impI)
    show "distinct (map se_txn ?as)" using D(1) by (rule distinct_map_filter)
    show "se_rows a \<noteq> []" if "a \<in> set ?as" for a using that D(9) by simp
    show "(\<exists>r acts his. (ph(t := OOut)) (se_txn a) = OCheck r a acts his) \<or> (ph(t := OOut)) (se_txn a) = OValid a"
      if "a \<in> set ?as" for a using that D(2) [of a] by auto
  next
    fix u r w acts his
    assume u: "(ph(t := OOut)) u = OCheck r w acts his"
    then have pu: "ph u = OCheck r w acts his" and "u \<noteq> t" by (auto split: if_splits)
    show rw: "get_rw_set (T u) = Some (r, w)" by (rule D(3) [OF pu])
    have wt: "se_txn w \<noteq> t" using \<open>u \<noteq> t\<close> rw by (rule t)
    assume rows: "se_rows w \<noteq> []"
    show "w \<in> set ?as" using D(4) [OF pu rows] wt by simp
    show "set (older w ?as) \<subseteq> set acts"
      using D(5) [OF pu rows] older_filter [OF D(4) [OF pu rows], of "\<lambda>a. se_txn a \<noteq> t"] wt by auto
  next
    fix u w
    assume u: "(ph(t := OOut)) u = OValid w"
    then have pu: "ph u = OValid w" and "u \<noteq> t" by (auto split: if_splits)
    show "\<exists>r. get_rw_set (T u) = Some (r, w)" by (rule D(6) [OF pu])
    then have wt: "se_txn w \<noteq> t" using t [OF \<open>u \<noteq> t\<close>] by blast
    assume rows: "se_rows w \<noteq> []"
    show "w \<in> set ?as" using D(7) [OF pu rows] wt by simp
    fix a assume "a \<in> set (older w ?as)"
    with older_filter [OF D(7) [OF pu rows], of "\<lambda>a. se_txn a \<noteq> t"] wt have "a \<in> set (older w as)" by auto
    then show "test_valid a w" by (rule D(8) [OF pu rows])
  qed
qed

lemma unlink_active_length: "unlink_active t as = Some as' \<Longrightarrow> length as = Suc (length as')"
  by (induction as arbitrary: as') (auto split: if_splits)

lemma occ_cc_unlink:
  assumes "occ_cc_ok cc" "unlink_active t (active cc) = Some as"
  shows "occ_cc_ok (cc\<lparr>active := as, active_len := active_len cc - 1\<rparr>)"
  using assms unlink_active_length [OF assms(2)] by (auto simp: occ_cc_ok_def)

lemma occ_cc_commit:
  assumes "occ_cc_ok cc"
  shows "occ_cc_ok (cc\<lparr>tnc := tnc cc + 1, history := w\<lparr>se_tn := tnc cc + 1\<rparr> # history cc, his_len := his_len cc + 1\<rparr>)"
proof -
  have le: "tnc cc \<le> tnc cc + 1" if "Suc (length (history cc)) < 2 ^ 64"
  proof -
    have "unat (tnc cc) = length (history cc)"
      using assms that by (simp add: occ_cc_ok_def unat_of_nat take_bit_nat_eq_self)
    with that have "tnc cc \<noteq> UINT64_MAX" using unat_UINT64_MAX by auto
    then show ?thesis using word_succ_greater [of "tnc cc"] by (simp add: less_UINT64_MAX)
  qed
  with assms show ?thesis
    by (auto simp: occ_cc_ok_def tn_desc_def intro: order.trans)
qed

lemma occ_step_inv:
  assumes T: "\<And>t. ot_ptr (T t) = t"
  shows "occ_step T s s' \<Longrightarrow> occ_inv T s \<Longrightarrow> occ_inv T s'"
proof (induction rule: occ_step.induct)
  case (enter s t rset wset acts his cc)
  from enter.hyps(2) have rw: "get_rw_set (T t) = Some (rset, wset)" "acts = active (os_cc s)"
    and cc: "cc = (if se_rows wset \<noteq> [] then os_cc s\<lparr>active_len := active_len (os_cc s) + 1, active := wset # active (os_cc s)\<rparr> else os_cc s)"
    by (auto simp: occ_enter_def bind_eq_Some_conv Let_def)
  have w: "se_txn wset = t" using get_rw_set_txn [OF rw(1)] T by simp
  have act: "active cc = (if se_rows wset \<noteq> [] then wset # active (os_cc s) else active (os_cc s))" by (simp add: cc)
  have "occ_act_ok T (active cc) ((os_phase s)(t := OCheck rset wset acts his))"
    unfolding act rw(2) using enter.prems enter.hyps(1) rw(1) w by (intro occ_act_push) (simp_all add: occ_inv_def)
  moreover have "occ_cc_ok cc" using enter.prems by (auto simp: cc occ_inv_def occ_cc_ok_def)
  ultimately show ?case by (simp add: occ_inv_def)
next
  case (pass s t rset wset acts his finish_tn)
  then have "\<forall>a \<in> set acts. test_valid a wset" by (simp add: occ_check_def check_active_iff)
  then have "occ_act_ok T (active (os_cc s)) ((os_phase s)(t := OValid wset))"
    using pass.prems pass.hyps(1) T by (intro occ_act_pass) (auto simp: occ_inv_def)
  with pass.prems show ?case by (simp add: occ_inv_def)
next
  case (fail s t rset wset acts his finish_tn)
  have ok: "occ_act_ok T (active (os_cc s)) (os_phase s)" "occ_cc_ok (os_cc s)" using fail.prems by (simp_all add: occ_inv_def)
  have "occ_act_ok T (filter (\<lambda>a. se_txn a \<noteq> t) (active (os_cc s))) ((os_phase s)(t := OOut))"
    using ok(1) by (rule occ_act_drop) (use T get_rw_set_txn in fastforce)
  moreover have "active (occ_leave t (os_cc s)) = filter (\<lambda>a. se_txn a \<noteq> t) (active (os_cc s))"
    by (auto simp: occ_leave_def unlink_active_filter [OF occ_act_okD(1) [OF ok(1)]] image_iff intro!: filter_True [symmetric])
  moreover have "occ_cc_ok (occ_leave t (os_cc s))"
    using ok(2) occ_cc_unlink [OF ok(2)] by (simp add: occ_leave_def split: option.split)
  ultimately show ?case by (simp add: occ_inv_def)
next
  case (finish s t wset rc cc)
  have ok: "occ_act_ok T (active (os_cc s)) (os_phase s)" "occ_cc_ok (os_cc s)" using finish.prems by (simp_all add: occ_inv_def)
  let ?f = "filter (\<lambda>a. se_txn a \<noteq> t) (active (os_cc s))"
  have drop: "occ_act_ok T ?f ((os_phase s)(t := OOut))"
    using ok(1) by (rule occ_act_drop) (use T get_rw_set_txn in fastforce)
  from occ_act_okD(6) [OF ok(1) finish.hyps(1)] obtain r where rw: "get_rw_set (T t) = Some (r, wset)" by blast
  have "active cc = ?f \<and> occ_cc_ok cc"
  proof (cases "se_rows wset = []")
    case True
    have "se_txn a \<noteq> t" if "a \<in> set (active (os_cc s))" for a
      using occ_act_okD(2,9) [OF ok(1) that] finish.hyps(1) True by auto
    then have "?f = active (os_cc s)" by (intro filter_True) auto
    moreover have "cc = os_cc s" using finish.hyps(3) rw True by (simp add: central_finish_def)
    ultimately show ?thesis using ok(2) by simp
  next
    case False
    with occ_act_okD(7) [OF ok(1) finish.hyps(1)] have "wset \<in> set (active (os_cc s))" by simp
    moreover have "se_txn wset = t" using get_rw_set_txn [OF rw] T by simp
    ultimately have un: "unlink_active t (active (os_cc s)) = Some ?f"
      by (auto simp: unlink_active_filter [OF occ_act_okD(1) [OF ok(1)]])
    define c1 where "c1 = os_cc s\<lparr>active := ?f, active_len := active_len (os_cc s) - 1\<rparr>"
    have c1: "occ_cc_ok c1" "active c1 = ?f" using occ_cc_unlink [OF ok(2) un] by (simp_all add: c1_def)
    have "central_finish rc (T t) (os_cc s) = Some (if rc = RCOK
        then c1\<lparr>tnc := tnc c1 + 1, history := wset\<lparr>se_tn := tnc c1 + 1\<rparr> # history c1, his_len := his_len c1 + 1\<rparr> else c1)"
      using False rw un T by (simp add: central_finish_def Let_def c1_def)
    with finish.hyps(3) have "cc = (if rc = RCOK
        then c1\<lparr>tnc := tnc c1 + 1, history := wset\<lparr>se_tn := tnc c1 + 1\<rparr> # history c1, his_len := his_len c1 + 1\<rparr> else c1)"
      by simp
    with c1 occ_cc_commit [OF c1(1)] show ?thesis by simp
  qed
  with drop show ?case by (simp add: occ_inv_def)
qed

lemma occ_reach_inv:
  assumes "\<And>t. ot_ptr (T t) = t" "occ_reach T s"
  shows "occ_inv T s"
  using assms(2) unfolding occ_reach_def
proof (induction rule: rtranclp_induct)
  case base
  show ?case by (simp add: occ_inv_def occ_sys_init_def occ_init_def occ_cc_ok_def occ_act_ok_def tn_desc_def)
next
  case (step s s')
  then show ?case by (rule_tac occ_step_inv [OF assms(1)])
qed

text \<open>C16: Transactions that have passed optimistic validation and are not finished never write the same row, however their validations interleave, and each of them can finish without a failed assertion.\<close>

theorem occ_validated_writers_disjoint:
  assumes T: "\<And>t. ot_ptr (T t) = t" and reach: "occ_reach T s"
    and t: "os_phase s t = OValid a" and u: "os_phase s u = OValid b" and "t \<noteq> u"
  shows "set (se_rows a) \<inter> set (se_rows b) = {} \<and> (\<exists>cc. central_finish RCOK (T t) (os_cc s) = Some cc)"
proof -
  have ok: "occ_act_ok T (active (os_cc s)) (os_phase s)" using occ_reach_inv [OF T reach] by (simp add: occ_inv_def)
  note D = occ_act_okD [OF ok]
  from D(6) [OF t] D(6) [OF u] obtain r r' where rw: "get_rw_set (T t) = Some (r, a)" "get_rw_set (T u) = Some (r', b)" by blast
  then have txn: "se_txn a = t" "se_txn b = u" using get_rw_set_txn T by metis+
  have "test_valid a b"
  proof (cases "se_rows a = [] \<or> se_rows b = []")
    case False
    then have "a \<in> set (older b (active (os_cc s))) \<or> b \<in> set (older a (active (os_cc s)))"
      using D(7) [OF t] D(7) [OF u] txn assms(5) by (intro older_total) auto
    then show ?thesis using False D(8) [OF t, of b] D(8) [OF u, of a] test_valid_sym by blast
  qed (auto simp: test_valid_iff)
  moreover have "\<exists>cc. central_finish RCOK (T t) (os_cc s) = Some cc"
  proof (cases "se_rows a = []")
    case False
    with D(7) [OF t] txn(1) have "t \<in> se_txn ` set (active (os_cc s))" by blast
    with rw(1) False T show ?thesis by (simp add: central_finish_def Let_def unlink_active_filter [OF D(1)])
  qed (use rw(1) in \<open>simp add: central_finish_def\<close>)
  ultimately show ?thesis by (simp add: test_valid_iff)
qed

text \<open>The committed write sets do not take part in central validation while transaction numbers stay below start timestamps: the history gets consecutive numbers from tnc, start timestamps come from the timestamp manager, and a validation with that history decides as it would without any.\<close>

lemma occ_history_ignored:
  assumes "tn_desc (history st)" and "\<forall>h \<in> set (history st). se_tn h \<le> start_timestamp txn"
  shows "map_option fst (central_validate txn finish_tn st) =
         map_option fst (central_validate txn finish_tn (st\<lparr>history := []\<rparr>))"
proof -
  have "occ_check (start_timestamp txn) finish_tn rset wset acts (history st) =
      occ_check (start_timestamp txn) finish_tn rset wset acts []" for rset wset acts
  proof -
    have "check_history (start_timestamp txn) rset (dropWhile (\<lambda>h. se_tn h > finish_tn) (history st))"
      using assms(2) tn_desc_dropWhile [OF assms(1)] by (auto simp: check_history_iff dest: leD)
    then show ?thesis by (simp add: occ_check_def)
  qed
  then show ?thesis by (cases "get_rw_set txn") (auto simp: central_validate_def occ_enter_def Let_def split: if_splits)
qed

text \<open>Under central validation every access raises the row's semaphore by one: reading takes and gives it back, and returning the row gives it back again, so after the first access two threads can hold the row at once.\<close>

theorem occ_semaphore_grows:
  assumes "row_occ_access ts R_REQ r = Some (rc, d, r1)" and "occ_return_row False ty row end_ts r1 = Some r2"
  shows "ro_sem r2 = ro_sem r + 1"
proof -
  have 1: "ro_sem r1 = ro_sem r"
    using assms(1) by (cases "ro_sem r > 0") (auto simp: row_occ_access_def sem_wait_def sem_post_def split: if_splits)
  have "ro_sem r2 = ro_sem r1 + 1"
    using assms(2) by (cases row; cases "ty = WR")
      (auto simp: occ_return_row_def occ_write_def occ_release_def sem_post_def)
  with 1 show ?thesis by simp
qed

section \<open>Concrete runs\<close>

definition demo_occ_txn :: "txn_ptr \<Rightarrow> occ_txn" where
  "demo_occ_txn t = \<lparr>ot_ptr = t, start_timestamp = 100,
     ot_accesses = [\<lparr>oa_type = RD, oa_row = 7\<rparr>, \<lparr>oa_type = WR, oa_row = t\<rparr>], ot_row_cnt = 2, ot_write_cnt = 1\<rparr>"

definition demo_occ :: opt_cc where
  "demo_occ = occ_init\<lparr>tnc := 1, history := [\<lparr>se_tn = 1, se_txn = 9, se_rows = [7]\<rparr>], his_len := 1\<rparr>"

theorem occ_check_iff_witness:
  "tn_desc (history demo_occ) \<and>
   \<not> occ_check 0 200 \<lparr>se_tn = 0, se_txn = 1, se_rows = [7]\<rparr> \<lparr>se_tn = 0, se_txn = 1, se_rows = []\<rparr> [] (history demo_occ)"
proof -
  have d: "tn_desc (history demo_occ)" by (simp add: demo_occ_def tn_desc_def)
  then show ?thesis by (simp add: occ_check_iff [OF d]) (simp add: demo_occ_def)
qed

theorem sort_accesses_sorts_witness:
  "\<exists>ys. sort_accesses (\<lambda>r. (0, of_nat r)) (ot_accesses (demo_occ_txn 3)) = Some ys \<and>
     sorted_wrt (key_le (\<lambda>r. (0, of_nat r))) ys \<and> map oa_row ys = [3, 7]"
proof -
  have "map_option (map oa_row) (sort_accesses (\<lambda>r. (0, of_nat r)) (ot_accesses (demo_occ_txn 3))) = Some [3, 7]"
    by code_simp
  then obtain ys where "sort_accesses (\<lambda>r. (0, of_nat r)) (ot_accesses (demo_occ_txn 3)) = Some ys" "map oa_row ys = [3, 7]"
    by (auto simp: map_option_eq_Some)
  with sort_accesses_sorts [of "\<lambda>r. (0, of_nat r)" "ot_accesses (demo_occ_txn 3)"] show ?thesis by metis
qed

theorem occ_semaphore_grows_witness:
  "\<exists>r1 r2. row_occ_access 100 R_REQ (row_occ_init [0]) = Some (RCOK, Some [0], r1) \<and>
     occ_return_row False WR (Some [5]) 0 r1 = Some r2 \<and> ro_sem r2 = 2 \<and> occ_latch r2 \<bind> occ_latch \<noteq> None"
proof -
  let ?r2 = "\<lparr>ro_row = [5], ro_wts = 0, ro_sem = 2\<rparr>"
  have a: "row_occ_access 100 R_REQ (row_occ_init [0]) = Some (RCOK, Some [0], row_occ_init [0])" by code_simp
  have b: "occ_return_row False WR (Some [5]) 0 (row_occ_init [0]) = Some ?r2" by code_simp
  have "ro_sem ?r2 = ro_sem (row_occ_init [0]) + 1" by (rule occ_semaphore_grows [OF a b])
  moreover have "occ_latch ?r2 \<bind> occ_latch \<noteq> None" by code_simp
  ultimately show ?thesis using a b by auto
qed

lemma demo_occ_enter:
  assumes "os_phase s t = ORun" "get_rw_set (T t) = Some (r, w)" "se_rows w \<noteq> []"
  shows "occ_step T s \<lparr>os_cc = os_cc s\<lparr>active_len := active_len (os_cc s) + 1, active := w # active (os_cc s)\<rparr>,
     os_phase = (os_phase s)(t := OCheck r w (active (os_cc s)) (history (os_cc s)))\<rparr>"
  using assms by (intro occ_step.enter) (simp_all add: occ_enter_def Let_def)

theorem occ_validated_writers_disjoint_witness:
  "\<exists>s a b. occ_reach demo_occ_txn s \<and> os_phase s 1 = OValid a \<and> os_phase s 2 = OValid b \<and>
     set (se_rows a) \<inter> set (se_rows b) = {}"
proof -
  let ?r = "\<lambda>t. \<lparr>se_tn = 0, se_txn = t, se_rows = [7]\<rparr>" and ?w = "\<lambda>t. \<lparr>se_tn = 0, se_txn = t, se_rows = [t]\<rparr>"
  have rw: "get_rw_set (demo_occ_txn t) = Some (?r t, ?w t)" for t
    by (simp add: get_rw_set_def demo_occ_txn_def)
  define s1 where "s1 = \<lparr>os_cc = occ_init\<lparr>active_len := 1, active := [?w 1]\<rparr>, os_phase = (\<lambda>_. ORun)(1 := OCheck (?r 1) (?w 1) [] [])\<rparr>"
  define s2 where "s2 = s1\<lparr>os_phase := (os_phase s1)(1 := OValid (?w 1))\<rparr>"
  define s3 where "s3 = \<lparr>os_cc = (os_cc s2)\<lparr>active_len := active_len (os_cc s2) + 1, active := ?w 2 # active (os_cc s2)\<rparr>,
    os_phase = (os_phase s2)(2 := OCheck (?r 2) (?w 2) (active (os_cc s2)) (history (os_cc s2)))\<rparr>"
  define s4 where "s4 = s3\<lparr>os_phase := (os_phase s3)(2 := OValid (?w 2))\<rparr>"
  have "occ_step demo_occ_txn occ_sys_init s1"
    using demo_occ_enter [of occ_sys_init 1, OF _ rw] by (simp add: s1_def occ_sys_init_def occ_init_def)
  moreover have "occ_step demo_occ_txn s1 s2"
    unfolding s2_def by (rule occ_step.pass [where finish_tn = 0 and rset = "?r 1" and acts = "[]" and his = "[]"])
      (simp_all add: s1_def occ_check_def demo_occ_txn_def)
  moreover have "occ_step demo_occ_txn s2 s3"
    unfolding s3_def by (rule demo_occ_enter [OF _ rw]) (simp_all add: s2_def s1_def)
  moreover have "occ_step demo_occ_txn s3 s4"
    unfolding s4_def by (rule occ_step.pass [where finish_tn = 0 and rset = "?r 2" and acts = "[?w 1]" and his = "[]"])
      (simp_all add: s3_def s2_def s1_def occ_init_def occ_check_def demo_occ_txn_def test_valid_def)
  ultimately have reach: "occ_reach demo_occ_txn s4" unfolding occ_reach_def
    by (meson rtranclp.rtrancl_into_rtrancl rtranclp.rtrancl_refl)
  have ph: "os_phase s4 1 = OValid (?w 1)" "os_phase s4 2 = OValid (?w 2)" by (simp_all add: s4_def s3_def s2_def)
  have "set (se_rows (?w 1)) \<inter> set (se_rows (?w 2)) = {}"
    using occ_validated_writers_disjoint [OF _ reach ph] by (simp add: demo_occ_txn_def)
  with reach ph show ?thesis by blast
qed

end
