(* ===== verification/Wire.thy ===== *)
theory Wire
  imports Deneva_Base
begin

text \<open>
  The byte level of messages: \<^verbatim>\<open>COPY_BUF\<close> and \<^verbatim>\<open>COPY_VAL\<close> of \<^verbatim>\<open>system/helper.h\<close> copy the memory of a
  variable to and from a buffer and advance a cursor. A writer is a function to a list of bytes (the
  bytes between the cursor before and after), a reader takes the bytes from the cursor on and returns
  the value and the bytes that are left, or \<open>None\<close> when the buffer ends too early. Integers are little
  endian, enumerations have four bytes, \<^verbatim>\<open>bool\<close> and \<^verbatim>\<open>char\<close> one, and structures are laid out
  with natural alignment, as on the x86-64 machines the program runs on.

  The locale \<open>wire\<close> is the contract between a writer and its reader; it is proved for every type
  that messages are made of, and gives the same contract for counted arrays.
\<close>

section \<open>Integers\<close>

primrec put_le :: "nat \<Rightarrow> nat \<Rightarrow> u8 list" where
  "put_le 0 n = []"
| "put_le (Suc k) n = of_nat (n mod 256) # put_le k (n div 256)"

primrec get_le :: "u8 list \<Rightarrow> nat" where
  "get_le [] = 0"
| "get_le (b # bs) = unat b + 256 * get_le bs"

definition get_bytes :: "nat \<Rightarrow> u8 list \<Rightarrow> (u8 list \<times> u8 list) option" where
  "get_bytes n bs = (if length bs < n then None else Some (take n bs, drop n bs))"

definition put_u64 :: "u64 \<Rightarrow> u8 list" where
  "put_u64 x = put_le 8 (unat x)"

definition get_u64 :: "u8 list \<Rightarrow> (u64 \<times> u8 list) option" where
  "get_u64 bs = do { (xs, bs) \<leftarrow> get_bytes 8 bs; Some (of_nat (get_le xs), bs) }"

definition put_u32 :: "u32 \<Rightarrow> u8 list" where
  "put_u32 x = put_le 4 (unat x)"

definition get_u32 :: "u8 list \<Rightarrow> (u32 \<times> u8 list) option" where
  "get_u32 bs = do { (xs, bs) \<leftarrow> get_bytes 4 bs; Some (of_nat (get_le xs), bs) }"

definition put_bool :: "bool \<Rightarrow> u8 list" where
  "put_bool b = [if b then 1 else 0]"

definition get_bool :: "u8 list \<Rightarrow> (bool \<times> u8 list) option" where
  "get_bool bs = do { (xs, bs) \<leftarrow> get_bytes 1 bs; Some (hd xs \<noteq> 0, bs) }"

section \<open>Enumerations and structures\<close>

definition RC_code :: "RC \<Rightarrow> u32" where
  "RC_code rc = (case rc of RCOK \<Rightarrow> 0 | Commit \<Rightarrow> 1 | Abort \<Rightarrow> 2 | WAIT \<Rightarrow> 3 | WAIT_REM \<Rightarrow> 4 | ERROR \<Rightarrow> 5
     | FINISH \<Rightarrow> 6 | NONE \<Rightarrow> 7)"

definition enum_of_code :: "('e \<times> u32) list \<Rightarrow> u32 \<Rightarrow> 'e option" where
  "enum_of_code tab c = map_option fst (List.find (\<lambda>(e, c'). c' = c) tab)"

definition all_RC :: "RC list" where
  "all_RC = [RCOK, Commit, Abort, WAIT, WAIT_REM, ERROR, FINISH, NONE]"

definition put_RC :: "RC \<Rightarrow> u8 list" where
  "put_RC rc = put_u32 (RC_code rc)"

definition get_RC :: "u8 list \<Rightarrow> (RC \<times> u8 list) option" where
  "get_RC bs = do {
     (c, bs) \<leftarrow> get_u32 bs;
     rc \<leftarrow> enum_of_code (map (\<lambda>rc. (rc, RC_code rc)) all_RC) c;
     Some (rc, bs) }"

definition access_code :: "access_t \<Rightarrow> u32" where
  "access_code a = (case a of RD \<Rightarrow> 0 | WR \<Rightarrow> 1 | XP \<Rightarrow> 2 | SCAN \<Rightarrow> 3)"

record ycsb_request =
  acctype :: access_t
  yr_key :: u64
  yr_value :: u8

text \<open>A request has 24 bytes; the padding bytes carry nothing and are written as zero here.\<close>

definition put_request :: "ycsb_request \<Rightarrow> u8 list" where
  "put_request r = put_u32 (access_code (acctype r)) @ replicate 4 0 @ put_u64 (yr_key r) @ [yr_value r] @ replicate 7 0"

definition get_request :: "u8 list \<Rightarrow> (ycsb_request \<times> u8 list) option" where
  "get_request bs = do {
     (c, bs) \<leftarrow> get_u32 bs;
     (pad, bs) \<leftarrow> get_bytes 4 bs;
     (key, bs) \<leftarrow> get_u64 bs;
     (v, bs) \<leftarrow> get_bytes 1 bs;
     (pad, bs) \<leftarrow> get_bytes 7 bs;
     a \<leftarrow> enum_of_code (map (\<lambda>a. (a, access_code a)) [RD, WR, XP, SCAN]) c;
     Some (\<lparr>acctype = a, yr_key = key, yr_value = hd v\<rparr>, bs) }"

record Item_no =
  ol_i_id :: u64
  ol_supply_w_id :: u64
  ol_quantity :: u64

definition put_item :: "Item_no \<Rightarrow> u8 list" where
  "put_item i = put_u64 (ol_i_id i) @ put_u64 (ol_supply_w_id i) @ put_u64 (ol_quantity i)"

definition get_item :: "u8 list \<Rightarrow> (Item_no \<times> u8 list) option" where
  "get_item bs = do {
     (a, bs) \<leftarrow> get_u64 bs;
     (b, bs) \<leftarrow> get_u64 bs;
     (c, bs) \<leftarrow> get_u64 bs;
     Some (\<lparr>ol_i_id = a, ol_supply_w_id = b, ol_quantity = c\<rparr>, bs) }"

section \<open>Counted arrays\<close>

text \<open>The loops that write and read the \<^verbatim>\<open>size()\<close> of an array and then its elements.\<close>

definition put_array :: "('a \<Rightarrow> u8 list) \<Rightarrow> 'a list \<Rightarrow> u8 list" where
  "put_array put xs = put_u64 (of_nat (length xs)) @ concat (map put xs)"

primrec get_elems :: "(u8 list \<Rightarrow> ('a \<times> u8 list) option) \<Rightarrow> nat \<Rightarrow> u8 list \<Rightarrow> ('a list \<times> u8 list) option" where
  "get_elems get 0 bs = Some ([], bs)"
| "get_elems get (Suc n) bs = do {
     (x, bs) \<leftarrow> get bs;
     (xs, bs) \<leftarrow> get_elems get n bs;
     Some (x # xs, bs) }"

definition get_array :: "(u8 list \<Rightarrow> ('a \<times> u8 list) option) \<Rightarrow> u8 list \<Rightarrow> ('a list \<times> u8 list) option" where
  "get_array get bs = do { (n, bs) \<leftarrow> get_u64 bs; get_elems get (unat n) bs }"

section \<open>The contract\<close>

locale wire =
  fixes put :: "'a \<Rightarrow> u8 list" and get :: "u8 list \<Rightarrow> ('a \<times> u8 list) option" and sz :: nat
  assumes get_put: "get (put x @ rest) = Some (x, rest)" and length_put: "length (put x) = sz"
begin

lemma get_elems_put: "get_elems get (length xs) (concat (map put xs) @ rest) = Some (xs, rest)"
  by (induction xs) (simp_all add: get_put)

lemma length_elems: "length (concat (map put xs)) = sz * length xs"
  by (induction xs) (simp_all add: length_put)

end

lemma length_put_le [simp]: "length (put_le k n) = k"
  by (induction k arbitrary: n) simp_all

lemma get_put_le: "n < 256 ^ k \<Longrightarrow> get_le (put_le k n) = n"
proof (induction k arbitrary: n)
  case (Suc k)
  then have "n div 256 < 256 ^ k" by (simp add: less_mult_imp_div_less mult.commute)
  moreover have "unat (of_nat (n mod 256) :: u8) = n mod 256" by (simp add: unat_of_nat take_bit_nat_eq_self)
  ultimately show ?case using Suc.IH by simp
qed simp

lemma get_bytes_append [simp]: "length xs = n \<Longrightarrow> get_bytes n (xs @ rest) = Some (xs, rest)"
  by (simp add: get_bytes_def)

interpretation u64w: wire put_u64 get_u64 8
proof
  fix x :: u64 and rest
  have "unat x < 256 ^ 8" using unat_lt_2_64 [of x] by simp
  then show "get_u64 (put_u64 x @ rest) = Some (x, rest)" by (simp add: get_u64_def put_u64_def get_put_le)
  show "length (put_u64 x) = 8" by (simp add: put_u64_def)
qed

interpretation u32w: wire put_u32 get_u32 4
proof
  fix x :: u32 and rest
  have "unat x < 256 ^ 4" by (rule less_le_trans [OF unsigned_less]) simp
  then show "get_u32 (put_u32 x @ rest) = Some (x, rest)" by (simp add: get_u32_def put_u32_def get_put_le)
  show "length (put_u32 x) = 4" by (simp add: put_u32_def)
qed

lemmas int_wire [simp] = u64w.get_put u64w.length_put u32w.get_put u32w.length_put

interpretation boolw: wire put_bool get_bool 1
  by unfold_locales (simp_all add: put_bool_def get_bool_def get_bytes_def)

interpretation RCw: wire put_RC get_RC 4
proof
  fix x :: RC and rest
  show "get_RC (put_RC x @ rest) = Some (x, rest)"
    by (cases x) (simp_all add: get_RC_def put_RC_def enum_of_code_def all_RC_def RC_code_def)
  show "length (put_RC x) = 4" by (simp add: put_RC_def)
qed

interpretation reqw: wire put_request get_request 24
proof
  fix x :: ycsb_request and rest
  have "get_bytes 4 (replicate 4 0 @ bs) = Some (replicate 4 0, bs)" for bs by simp
  moreover have "get_bytes 7 (replicate 7 0 @ bs) = Some (replicate 7 0, bs)" for bs by simp
  moreover have "get_bytes 1 (v # bs) = Some ([v], bs)" for v bs by (simp add: get_bytes_def)
  ultimately show "get_request (put_request x @ rest) = Some (x, rest)"
    by (cases "acctype x") (simp_all add: get_request_def put_request_def enum_of_code_def access_code_def)
  show "length (put_request x) = 24" by (simp add: put_request_def)
qed

interpretation itemw: wire put_item get_item 24
  by unfold_locales (simp_all add: get_item_def put_item_def)

lemmas wire_simps [simp] = boolw.get_put boolw.length_put RCw.get_put RCw.length_put
  reqw.get_put reqw.length_put itemw.get_put itemw.length_put

context wire
begin

lemma get_array_put: "length xs < 2 ^ 64 \<Longrightarrow> get_array get (put_array put xs @ rest) = Some (xs, rest)"
  by (simp add: get_array_def put_array_def unat_of_nat take_bit_nat_eq_self get_elems_put)

lemma length_array: "length (put_array put xs) = 8 + sz * length xs"
  by (simp add: put_array_def length_elems)

end

lemmas array_wire [simp] = u64w.get_array_put u64w.length_array reqw.get_array_put reqw.length_array
  itemw.get_array_put itemw.length_array

end
