(* ===== verification/Message.thy ===== *)
theory Message
  imports Wire
begin

text \<open>
  The messages of \<^verbatim>\<open>transport/message.cpp\<close>: every class as a constructor of \<open>mbody\<close> with the fields
  that its \<^verbatim>\<open>copy_to_buf\<close> sends, next to the common part \<open>mhead\<close> of class \<^verbatim>\<open>Message\<close>. \<open>put_body\<close>,
  \<open>get_body\<close> and \<open>get_size\<close> are the virtual methods \<^verbatim>\<open>copy_to_buf\<close>, \<^verbatim>\<open>copy_from_buf\<close> and
  \<^verbatim>\<open>get_size\<close>. What the preprocessor decides (\<^verbatim>\<open>CC_ALG\<close>, \<^verbatim>\<open>WORKLOAD\<close>) is part of the configuration
  record. A field that is not sent under a configuration has the value 0 on the receiving side. The
  latency fields are bit patterns of doubles; two of them are adjusted by the clock on both sides, with the
  arithmetic of doubles as a parameter.

  The theory shows that every message of a class other than the log messages is received as it was sent but for
  these two fields, that its length is what \<^verbatim>\<open>get_size\<close> says, so that batches of messages are split where they were
  joined, and that log messages cannot be sent at all.
\<close>

section \<open>Messages\<close>

datatype RemReqType = INIT_DONE | RLK | RULK | CL_QRY | RQRY | RQRY_CONT | RFIN | RLK_RSP | RULK_RSP
  | RQRY_RSP | RACK | RACK_PREP | RACK_FIN | RTXN | RTXN_CONT | RINIT | RPREPARE | RPASS | RFWD | RDONE
  | CL_RSP | LOG_MSG | LOG_MSG_RSP | LOG_FLUSHED | CALVIN_ACK | NO_MSG

definition all_rtypes :: "RemReqType list" where
  "all_rtypes = [INIT_DONE, RLK, RULK, CL_QRY, RQRY, RQRY_CONT, RFIN, RLK_RSP, RULK_RSP, RQRY_RSP, RACK,
     RACK_PREP, RACK_FIN, RTXN, RTXN_CONT, RINIT, RPREPARE, RPASS, RFWD, RDONE, CL_RSP, LOG_MSG, LOG_MSG_RSP,
     LOG_FLUSHED, CALVIN_ACK, NO_MSG]"

definition rtype_table :: "(RemReqType \<times> u32) list" where
  "rtype_table = zip all_rtypes (map of_nat [0 ..< length all_rtypes])"

definition rtype_code :: "RemReqType \<Rightarrow> u32" where
  "rtype_code t = (case map_of rtype_table t of Some c \<Rightarrow> c | None \<Rightarrow> 0)"

definition put_rtype :: "RemReqType \<Rightarrow> u8 list" where
  "put_rtype t = put_u32 (rtype_code t)"

definition get_rtype :: "u8 list \<Rightarrow> (RemReqType \<times> u8 list) option" where
  "get_rtype bs = do { (c, bs) \<leftarrow> get_u32 bs; t \<leftarrow> enum_of_code rtype_table c; Some (t, bs) }"

record config =
  cf_cc :: cc_alg
  cf_wl :: workload
  cf_table_size :: u64
  cf_req_per_query :: u64

record mhead =
  m_rtype :: RemReqType
  m_txn_id :: u64
  m_batch_id :: u64
  m_mq_time :: u64
  m_lats :: "u64 list"
  m_lat_network :: u64
  m_lat_other :: u64

text \<open>Where and when a message is copied: the node, the reading of the clock, its conversion to a double and the
  subtraction of doubles, on bit patterns.\<close>

record lat_env =
  le_node_id :: u32
  le_node_cnt :: u32
  le_now :: u64
  le_double :: "u64 \<Rightarrow> u64"
  le_minus :: "u64 \<Rightarrow> u64 \<Rightarrow> u64"

record query_part =
  q_ts :: u64
  q_start_ts :: u64

record client_part =
  c_startts :: u64
  c_partitions :: "u64 list"

record tpcc_part =
  tp_type :: u64
  tp_state :: u64
  tp_w_id :: u64
  tp_d_id :: u64
  tp_c_id :: u64
  tp_d_w_id :: u64
  tp_c_w_id :: u64
  tp_c_d_id :: u64
  tp_c_last :: "u8 list"
  tp_h_amount :: u64
  tp_by_last_name :: bool
  tp_items :: "Item_no list"
  tp_rbk :: bool
  tp_remote :: bool
  tp_ol_cnt :: u64
  tp_o_entry_d :: u64

record pps_part =
  pp_type :: u64
  pp_state :: u64
  pp_part_key :: u64
  pp_product_key :: u64
  pp_supplier_key :: u64
  pp_part_keys :: "u64 list"
  pp_recon :: bool

datatype mbody =
    InitDoneMessage
  | FinishMessage u64 RC bool u64
  | LogMessage "u8 list"
  | LogRspMessage
  | LogFlushedMessage
  | QueryResponseMessage RC
  | AckMessage RC u64 u64 "u64 list"
  | PrepareMessage
  | ForwardMessage RC u64
  | DoneMessage
  | ClientResponseMessage u64
  | YCSBClientQueryMessage client_part "ycsb_request list"
  | TPCCClientQueryMessage client_part tpcc_part
  | PPSClientQueryMessage client_part pps_part
  | YCSBQueryMessage query_part "ycsb_request list"
  | TPCCQueryMessage query_part tpcc_part
  | PPSQueryMessage query_part pps_part

record message =
  m_head :: mhead
  m_body :: mbody

abbreviation LASTNAME_LEN :: nat where
  "LASTNAME_LEN \<equiv> 16"

abbreviation TPCC_PAYMENT :: u64 where
  "TPCC_PAYMENT \<equiv> 1"

abbreviation TPCC_NEW_ORDER :: u64 where
  "TPCC_NEW_ORDER \<equiv> 2"

section \<open>The common part\<close>

definition mget_size :: "cc_alg \<Rightarrow> nat" where
  "mget_size cc = 4 + 8 + (if cc = CALVIN then 8 else 0) + 8 + 8 * 7"

definition local_txn :: "lat_env \<Rightarrow> mhead \<Rightarrow> bool" where
  "local_txn le h \<longleftrightarrow> m_txn_id h mod ucast (le_node_cnt le) = ucast (le_node_id le)"

text \<open>Lines 262 to 266 and 240 to 244: the two latencies that are adjusted.\<close>

definition lat_out :: "lat_env \<Rightarrow> cc_alg \<Rightarrow> mhead \<Rightarrow> mhead" where
  "lat_out le cc h =
     (if cc = CALVIN \<and> m_rtype h = CL_QRY \<and> local_txn le h \<or> cc \<noteq> CALVIN \<and> local_txn le h
      then h\<lparr>m_lat_network := le_double le (le_now le)\<rparr>
      else h\<lparr>m_lat_other := le_minus le (le_double le (le_now le)) (m_lat_other h)\<rparr>)"

definition lat_in :: "lat_env \<Rightarrow> cc_alg \<Rightarrow> mhead \<Rightarrow> mhead" where
  "lat_in le cc h =
     (if cc = CALVIN \<and> m_rtype h = CALVIN_ACK \<and> local_txn le h \<or> cc \<noteq> CALVIN \<and> local_txn le h
      then h\<lparr>m_lat_network := le_minus le (le_minus le (le_double le (le_now le)) (m_lat_network h)) (m_lat_other h)\<rparr>
      else h\<lparr>m_lat_other := le_double le (le_now le)\<rparr>)"

definition mcopy_to_buf :: "lat_env \<Rightarrow> cc_alg \<Rightarrow> mhead \<Rightarrow> u8 list" where
  "mcopy_to_buf le cc h0 = (let h = lat_out le cc h0 in put_rtype (m_rtype h) @ put_u64 (m_txn_id h) @
     (if cc = CALVIN then put_u64 (m_batch_id h) else []) @ put_u64 (m_mq_time h) @ concat (map put_u64 (m_lats h)) @
     put_u64 (m_lat_network h) @ put_u64 (m_lat_other h))"

definition mcopy_from_buf :: "lat_env \<Rightarrow> cc_alg \<Rightarrow> u8 list \<Rightarrow> (mhead \<times> u8 list) option" where
  "mcopy_from_buf le cc bs = do {
     (t, bs) \<leftarrow> get_rtype bs;
     (txn, bs) \<leftarrow> get_u64 bs;
     (batch, bs) \<leftarrow> (if cc = CALVIN then get_u64 bs else Some (UINT64_MAX, bs));
     (mq, bs) \<leftarrow> get_u64 bs;
     (lats, bs) \<leftarrow> get_elems get_u64 5 bs;
     (network, bs) \<leftarrow> get_u64 bs;
     (other, bs) \<leftarrow> get_u64 bs;
     Some (lat_in le cc \<lparr>m_rtype = t, m_txn_id = txn, m_batch_id = batch, m_mq_time = mq, m_lats = lats, m_lat_network = network, m_lat_other = other\<rparr>, bs) }"

section \<open>Query messages\<close>

definition sends_ts :: "cc_alg \<Rightarrow> bool" where
  "sends_ts cc \<longleftrightarrow> cc = WAIT_DIE \<or> cc = TIMESTAMP \<or> cc = MVCC"

definition query_size :: "cc_alg \<Rightarrow> nat" where
  "query_size cc = (if sends_ts cc then 8 else 0) + (if cc = OCC then 8 else 0)"

definition put_query :: "cc_alg \<Rightarrow> query_part \<Rightarrow> u8 list option" where
  "put_query cc q = do {
     ASSERT (sends_ts cc \<longrightarrow> q_ts q \<noteq> 0);
     Some ((if sends_ts cc then put_u64 (q_ts q) else []) @ (if cc = OCC then put_u64 (q_start_ts q) else [])) }"

definition get_query :: "cc_alg \<Rightarrow> u8 list \<Rightarrow> (query_part \<times> u8 list) option" where
  "get_query cc bs = do {
     (ts, bs) \<leftarrow> (if sends_ts cc then get_u64 bs else Some (0, bs));
     ASSERT (sends_ts cc \<longrightarrow> ts \<noteq> 0);
     (start_ts, bs) \<leftarrow> (if cc = OCC then get_u64 bs else Some (0, bs));
     Some (\<lparr>q_ts = ts, q_start_ts = start_ts\<rparr>, bs) }"

definition client_size :: "client_part \<Rightarrow> nat" where
  "client_size c = 8 + 8 + 8 * length (c_partitions c)"

definition put_client :: "client_part \<Rightarrow> u8 list" where
  "put_client c = put_u64 (c_startts c) @ put_array put_u64 (c_partitions c)"

definition get_client :: "u8 list \<Rightarrow> (client_part \<times> u8 list) option" where
  "get_client bs = do {
     (startts, bs) \<leftarrow> get_u64 bs;
     (parts, bs) \<leftarrow> get_array get_u64 bs;
     Some (\<lparr>c_startts = startts, c_partitions = parts\<rparr>, bs) }"

definition keys_in_table :: "config \<Rightarrow> ycsb_request list \<Rightarrow> bool" where
  "keys_in_table cf rs = list_all (\<lambda>r. yr_key r < cf_table_size cf) rs"

definition put_ycsb_client :: "config \<Rightarrow> ycsb_request list \<Rightarrow> u8 list option" where
  "put_ycsb_client cf rs = do { ASSERT (keys_in_table cf rs); Some (put_array put_request rs) }"

definition get_ycsb_client :: "config \<Rightarrow> u8 list \<Rightarrow> (ycsb_request list \<times> u8 list) option" where
  "get_ycsb_client cf bs = do { (rs, bs) \<leftarrow> get_array get_request bs; ASSERT (keys_in_table cf rs); Some (rs, bs) }"

definition get_ycsb :: "config \<Rightarrow> u8 list \<Rightarrow> (ycsb_request list \<times> u8 list) option" where
  "get_ycsb cf bs = do {
     (n, _) \<leftarrow> get_u64 bs;
     ASSERT (n \<le> cf_req_per_query cf);
     (rs, bs) \<leftarrow> get_array get_request bs;
     ASSERT (keys_in_table cf rs);
     Some (rs, bs) }"

section \<open>TPC-C and PPS messages\<close>

definition tpcc_client_size :: "tpcc_part \<Rightarrow> nat" where
  "tpcc_client_size t = 8 * 10 + LASTNAME_LEN + 3 + 8 + 24 * length (tp_items t)"

definition put_tpcc_client :: "tpcc_part \<Rightarrow> u8 list" where
  "put_tpcc_client t =
     put_u64 (tp_type t) @ put_u64 (tp_w_id t) @ put_u64 (tp_d_id t) @ put_u64 (tp_c_id t) @ put_u64 (tp_d_w_id t) @
     put_u64 (tp_c_w_id t) @ put_u64 (tp_c_d_id t) @ tp_c_last t @ put_u64 (tp_h_amount t) @
     put_bool (tp_by_last_name t) @ put_array put_item (tp_items t) @ put_bool (tp_rbk t) @ put_bool (tp_remote t) @
     put_u64 (tp_ol_cnt t) @ put_u64 (tp_o_entry_d t)"

definition get_tpcc_client :: "u8 list \<Rightarrow> (tpcc_part \<times> u8 list) option" where
  "get_tpcc_client bs = do {
     (ty, bs) \<leftarrow> get_u64 bs;
     (w, bs) \<leftarrow> get_u64 bs;
     (d, bs) \<leftarrow> get_u64 bs;
     (c, bs) \<leftarrow> get_u64 bs;
     (dw, bs) \<leftarrow> get_u64 bs;
     (cw, bs) \<leftarrow> get_u64 bs;
     (cd, bs) \<leftarrow> get_u64 bs;
     (last, bs) \<leftarrow> get_bytes LASTNAME_LEN bs;
     (amount, bs) \<leftarrow> get_u64 bs;
     (by_last, bs) \<leftarrow> get_bool bs;
     (items, bs) \<leftarrow> get_array get_item bs;
     (rbk, bs) \<leftarrow> get_bool bs;
     (remote, bs) \<leftarrow> get_bool bs;
     (ol, bs) \<leftarrow> get_u64 bs;
     (entry, bs) \<leftarrow> get_u64 bs;
     Some (\<lparr>tp_type = ty, tp_state = 0, tp_w_id = w, tp_d_id = d, tp_c_id = c, tp_d_w_id = dw, tp_c_w_id = cw,
             tp_c_d_id = cd, tp_c_last = last, tp_h_amount = amount, tp_by_last_name = by_last, tp_items = items,
             tp_rbk = rbk, tp_remote = remote, tp_ol_cnt = ol, tp_o_entry_d = entry\<rparr>, bs) }"

definition tpcc_size :: "tpcc_part \<Rightarrow> nat" where
  "tpcc_size t = 8 + 8 + 8 * 3 +
     (if tp_type t = TPCC_PAYMENT then 8 * 4 + LASTNAME_LEN + 1 else 0) +
     (if tp_type t = TPCC_NEW_ORDER then 8 * 2 + 2 + 24 * length (tp_items t) + 8 else 0)"

definition put_tpcc :: "tpcc_part \<Rightarrow> u8 list" where
  "put_tpcc t =
     put_u64 (tp_type t) @ put_u64 (tp_state t) @ put_u64 (tp_w_id t) @ put_u64 (tp_d_id t) @ put_u64 (tp_c_id t) @
     (if tp_type t = TPCC_PAYMENT then
        put_u64 (tp_d_w_id t) @ put_u64 (tp_c_w_id t) @ put_u64 (tp_c_d_id t) @ tp_c_last t @ put_u64 (tp_h_amount t) @
        put_bool (tp_by_last_name t) else []) @
     (if tp_type t = TPCC_NEW_ORDER then
        put_array put_item (tp_items t) @ put_bool (tp_rbk t) @ put_bool (tp_remote t) @ put_u64 (tp_ol_cnt t) @
        put_u64 (tp_o_entry_d t) else [])"

definition no_tpcc :: tpcc_part where
  "no_tpcc = \<lparr>tp_type = 0, tp_state = 0, tp_w_id = 0, tp_d_id = 0, tp_c_id = 0, tp_d_w_id = 0, tp_c_w_id = 0,
     tp_c_d_id = 0, tp_c_last = [], tp_h_amount = 0, tp_by_last_name = False, tp_items = [], tp_rbk = False,
     tp_remote = False, tp_ol_cnt = 0, tp_o_entry_d = 0\<rparr>"

definition get_payment :: "tpcc_part \<Rightarrow> u8 list \<Rightarrow> (tpcc_part \<times> u8 list) option" where
  "get_payment t bs = do {
     (dw, bs) \<leftarrow> get_u64 bs;
     (cw, bs) \<leftarrow> get_u64 bs;
     (cd, bs) \<leftarrow> get_u64 bs;
     (last, bs) \<leftarrow> get_bytes LASTNAME_LEN bs;
     (amount, bs) \<leftarrow> get_u64 bs;
     (by_last, bs) \<leftarrow> get_bool bs;
     Some (t\<lparr>tp_d_w_id := dw, tp_c_w_id := cw, tp_c_d_id := cd, tp_c_last := last, tp_h_amount := amount,
             tp_by_last_name := by_last\<rparr>, bs) }"

definition get_new_order :: "tpcc_part \<Rightarrow> u8 list \<Rightarrow> (tpcc_part \<times> u8 list) option" where
  "get_new_order t bs = do {
     (items, bs) \<leftarrow> get_array get_item bs;
     (rbk, bs) \<leftarrow> get_bool bs;
     (remote, bs) \<leftarrow> get_bool bs;
     (ol, bs) \<leftarrow> get_u64 bs;
     (entry, bs) \<leftarrow> get_u64 bs;
     Some (t\<lparr>tp_items := items, tp_rbk := rbk, tp_remote := remote, tp_ol_cnt := ol, tp_o_entry_d := entry\<rparr>, bs) }"

definition get_tpcc :: "u8 list \<Rightarrow> (tpcc_part \<times> u8 list) option" where
  "get_tpcc bs = do {
     (ty, bs) \<leftarrow> get_u64 bs;
     ASSERT (ty = TPCC_PAYMENT \<or> ty = TPCC_NEW_ORDER);
     (state, bs) \<leftarrow> get_u64 bs;
     (w, bs) \<leftarrow> get_u64 bs;
     (d, bs) \<leftarrow> get_u64 bs;
     (c, bs) \<leftarrow> get_u64 bs;
     let t = no_tpcc\<lparr>tp_type := ty, tp_state := state, tp_w_id := w, tp_d_id := d, tp_c_id := c\<rparr>;
     (t, bs) \<leftarrow> (if ty = TPCC_PAYMENT then get_payment t bs else Some (t, bs));
     (if ty = TPCC_NEW_ORDER then get_new_order t bs else Some (t, bs)) }"

definition pps_client_size :: "cc_alg \<Rightarrow> pps_part \<Rightarrow> nat" where
  "pps_client_size cc p = 8 + 8 * 3 + 8 + 8 * length (pp_part_keys p) + (if cc = CALVIN then 1 else 0)"

definition put_pps_client :: "cc_alg \<Rightarrow> pps_part \<Rightarrow> u8 list" where
  "put_pps_client cc p =
     put_u64 (pp_type p) @ put_u64 (pp_part_key p) @ put_u64 (pp_product_key p) @ put_u64 (pp_supplier_key p) @
     put_array put_u64 (pp_part_keys p) @ (if cc = CALVIN then put_bool (pp_recon p) else [])"

definition get_pps_client :: "cc_alg \<Rightarrow> u8 list \<Rightarrow> (pps_part \<times> u8 list) option" where
  "get_pps_client cc bs = do {
     (ty, bs) \<leftarrow> get_u64 bs;
     (part, bs) \<leftarrow> get_u64 bs;
     (product, bs) \<leftarrow> get_u64 bs;
     (supplier, bs) \<leftarrow> get_u64 bs;
     (keys, bs) \<leftarrow> get_array get_u64 bs;
     (recon, bs) \<leftarrow> (if cc = CALVIN then get_bool bs else Some (False, bs));
     Some (\<lparr>pp_type = ty, pp_state = 0, pp_part_key = part, pp_product_key = product, pp_supplier_key = supplier,
             pp_part_keys = keys, pp_recon = recon\<rparr>, bs) }"

datatype pps_key = PartKey | ProductKey | SupplierKey | NoKey

text \<open>The chain of tests on \<^verbatim>\<open>txn_type\<close>: which key a query message carries.\<close>

definition pps_key_of :: "u64 \<Rightarrow> pps_key" where
  "pps_key_of ty =
     (if ty = 1 then PartKey else if ty = 3 then ProductKey else if ty = 2 then SupplierKey
      else if ty = 5 then PartKey else if ty = 4 then PartKey else if ty = 6 then PartKey
      else if ty = 7 then ProductKey else if ty = 8 then PartKey else NoKey)"

definition pps_size :: "pps_part \<Rightarrow> nat" where
  "pps_size p = 8 + 8 + 8 + 8 + 8 * length (pp_part_keys p)"

definition put_pps :: "pps_part \<Rightarrow> u8 list" where
  "put_pps p =
     put_u64 (pp_type p) @ put_u64 (pp_state p) @
     (case pps_key_of (pp_type p) of PartKey \<Rightarrow> put_u64 (pp_part_key p) | ProductKey \<Rightarrow> put_u64 (pp_product_key p)
      | SupplierKey \<Rightarrow> put_u64 (pp_supplier_key p) | NoKey \<Rightarrow> []) @
     put_array put_u64 (pp_part_keys p)"

definition get_pps :: "u8 list \<Rightarrow> (pps_part \<times> u8 list) option" where
  "get_pps bs = do {
     (ty, bs) \<leftarrow> get_u64 bs;
     (state, bs) \<leftarrow> get_u64 bs;
     (k, bs) \<leftarrow> (if pps_key_of ty = NoKey then Some (0, bs) else get_u64 bs);
     (keys, bs) \<leftarrow> get_array get_u64 bs;
     Some (\<lparr>pp_type = ty, pp_state = state,
             pp_part_key = (if pps_key_of ty = PartKey then k else 0),
             pp_product_key = (if pps_key_of ty = ProductKey then k else 0),
             pp_supplier_key = (if pps_key_of ty = SupplierKey then k else 0),
             pp_part_keys = keys, pp_recon = False\<rparr>, bs) }"

section \<open>Protocol messages\<close>

definition finish_size :: "config \<Rightarrow> nat" where
  "finish_size cf = 8 + 4 + 1 + (if cf_cc cf = MAAT then 8 else 0)"

definition put_finish :: "config \<Rightarrow> u64 \<Rightarrow> RC \<Rightarrow> bool \<Rightarrow> u64 \<Rightarrow> u8 list" where
  "put_finish cf pid rc ro ct = put_u64 pid @ put_RC rc @ put_bool ro @ (if cf_cc cf = MAAT then put_u64 ct else [])"

definition get_finish :: "config \<Rightarrow> u8 list \<Rightarrow> (mbody \<times> u8 list) option" where
  "get_finish cf bs = do {
     (pid, bs) \<leftarrow> get_u64 bs;
     (rc, bs) \<leftarrow> get_RC bs;
     (ro, bs) \<leftarrow> get_bool bs;
     (ct, bs) \<leftarrow> (if cf_cc cf = MAAT then get_u64 bs else Some (0, bs));
     Some (FinishMessage pid rc ro ct, bs) }"

definition ack_size :: "config \<Rightarrow> u64 list \<Rightarrow> nat" where
  "ack_size cf keys = 4 + (if cf_cc cf = MAAT then 8 * 2 else 0) +
     (if cf_wl cf = PPS \<and> cf_cc cf = CALVIN then 8 + 8 * length keys else 0)"

definition put_ack :: "config \<Rightarrow> RC \<Rightarrow> u64 \<Rightarrow> u64 \<Rightarrow> u64 list \<Rightarrow> u8 list" where
  "put_ack cf rc lower upper keys =
     put_RC rc @ (if cf_cc cf = MAAT then put_u64 lower @ put_u64 upper else []) @
     (if cf_wl cf = PPS \<and> cf_cc cf = CALVIN then put_array put_u64 keys else [])"

definition get_ack :: "config \<Rightarrow> u8 list \<Rightarrow> (mbody \<times> u8 list) option" where
  "get_ack cf bs = do {
     (rc, bs) \<leftarrow> get_RC bs;
     (lower, bs) \<leftarrow> (if cf_cc cf = MAAT then get_u64 bs else Some (0, bs));
     (upper, bs) \<leftarrow> (if cf_cc cf = MAAT then get_u64 bs else Some (0, bs));
     (keys, bs) \<leftarrow> (if cf_wl cf = PPS \<and> cf_cc cf = CALVIN then get_array get_u64 bs else Some ([], bs));
     Some (AckMessage rc lower upper keys, bs) }"

definition forward_size :: "config \<Rightarrow> nat" where
  "forward_size cf = 4 + (if cf_wl cf = TPCC then 8 else 0)"

definition put_forward :: "config \<Rightarrow> RC \<Rightarrow> u64 \<Rightarrow> u8 list" where
  "put_forward cf rc o_id = put_RC rc @ (if cf_wl cf = TPCC then put_u64 o_id else [])"

definition get_forward :: "config \<Rightarrow> u8 list \<Rightarrow> (mbody \<times> u8 list) option" where
  "get_forward cf bs = do {
     (rc, bs) \<leftarrow> get_RC bs;
     (o_id, bs) \<leftarrow> (if cf_wl cf = TPCC then get_u64 bs else Some (0, bs));
     Some (ForwardMessage rc o_id, bs) }"

definition get_query_response :: "u8 list \<Rightarrow> (mbody \<times> u8 list) option" where
  "get_query_response bs = do { (rc, bs) \<leftarrow> get_RC bs; Some (QueryResponseMessage rc, bs) }"

definition get_client_response :: "u8 list \<Rightarrow> (mbody \<times> u8 list) option" where
  "get_client_response bs = do { (startts, bs) \<leftarrow> get_u64 bs; Some (ClientResponseMessage startts, bs) }"

definition get_log :: "u8 list \<Rightarrow> (mbody \<times> u8 list) option" where
  "get_log bs = do { (r, bs) \<leftarrow> get_bytes 56 bs; Some (LogMessage r, bs) }"

definition ycsb_size :: "ycsb_request list \<Rightarrow> nat" where
  "ycsb_size rs = 8 + 24 * length rs"

definition ycsb_client_size :: "ycsb_request list \<Rightarrow> nat" where
  "ycsb_client_size rs = 8 + 24 * length rs"

definition put_ycsb :: "ycsb_request list \<Rightarrow> u8 list" where
  "put_ycsb rs = put_array put_request rs"

lemmas protocol_defs = finish_size_def put_finish_def get_finish_def ack_size_def put_ack_def get_ack_def
  forward_size_def put_forward_def get_forward_def get_query_response_def get_client_response_def get_log_def
  ycsb_size_def ycsb_client_size_def put_ycsb_def

section \<open>All messages\<close>

text \<open>\<^verbatim>\<open>sizeof(LogFlushedMessage)\<close> is the size of the object; this class sends nothing.\<close>

definition body_size :: "config \<Rightarrow> mbody \<Rightarrow> nat" where
  "body_size cf b =
     (case b of
        FinishMessage pid rc ro ct \<Rightarrow> finish_size cf
      | QueryResponseMessage rc \<Rightarrow> 4
      | AckMessage rc lower upper keys \<Rightarrow> ack_size cf keys
      | ForwardMessage rc o_id \<Rightarrow> forward_size cf
      | ClientResponseMessage startts \<Rightarrow> 8
      | YCSBClientQueryMessage c rs \<Rightarrow> client_size c + ycsb_client_size rs
      | TPCCClientQueryMessage c t \<Rightarrow> client_size c + tpcc_client_size t
      | PPSClientQueryMessage c p \<Rightarrow> client_size c + pps_client_size (cf_cc cf) p
      | YCSBQueryMessage q rs \<Rightarrow> query_size (cf_cc cf) + ycsb_size rs
      | TPCCQueryMessage q t \<Rightarrow> query_size (cf_cc cf) + tpcc_size t
      | PPSQueryMessage q p \<Rightarrow> query_size (cf_cc cf) + pps_size p
      | InitDoneMessage \<Rightarrow> 0 | LogMessage r \<Rightarrow> 0 | LogRspMessage \<Rightarrow> 0 | LogFlushedMessage \<Rightarrow> 0
      | PrepareMessage \<Rightarrow> 0 | DoneMessage \<Rightarrow> 0)"

definition get_size :: "config \<Rightarrow> message \<Rightarrow> nat" where
  "get_size cf m = (if m_body m = LogFlushedMessage then 120 else mget_size (cf_cc cf) + body_size cf (m_body m))"

definition put_body :: "config \<Rightarrow> mbody \<Rightarrow> u8 list option" where
  "put_body cf b =
     (case b of
        FinishMessage pid rc ro ct \<Rightarrow> Some (put_finish cf pid rc ro ct)
      | LogMessage r \<Rightarrow> Some r
      | QueryResponseMessage rc \<Rightarrow> Some (put_RC rc)
      | AckMessage rc lower upper keys \<Rightarrow> Some (put_ack cf rc lower upper keys)
      | ForwardMessage rc o_id \<Rightarrow> Some (put_forward cf rc o_id)
      | ClientResponseMessage startts \<Rightarrow> Some (put_u64 startts)
      | YCSBClientQueryMessage c rs \<Rightarrow> do { r \<leftarrow> put_ycsb_client cf rs; Some (put_client c @ r) }
      | TPCCClientQueryMessage c t \<Rightarrow> Some (put_client c @ put_tpcc_client t)
      | PPSClientQueryMessage c p \<Rightarrow> Some (put_client c @ put_pps_client (cf_cc cf) p)
      | YCSBQueryMessage q rs \<Rightarrow> do { h \<leftarrow> put_query (cf_cc cf) q; Some (h @ put_ycsb rs) }
      | TPCCQueryMessage q t \<Rightarrow> do { h \<leftarrow> put_query (cf_cc cf) q; Some (h @ put_tpcc t) }
      | PPSQueryMessage q p \<Rightarrow> do { h \<leftarrow> put_query (cf_cc cf) q; Some (h @ put_pps p) }
      | InitDoneMessage \<Rightarrow> Some [] | LogRspMessage \<Rightarrow> Some [] | LogFlushedMessage \<Rightarrow> Some []
      | PrepareMessage \<Rightarrow> Some [] | DoneMessage \<Rightarrow> Some [])"

text \<open>The assertion \<^verbatim>\<open>ptr == get_size()\<close> ends every \<^verbatim>\<open>copy_to_buf\<close> but two.\<close>

definition copy_to_buf :: "lat_env \<Rightarrow> config \<Rightarrow> message \<Rightarrow> u8 list option" where
  "copy_to_buf le cf m =
     (if m_body m = LogFlushedMessage then Some []
      else do {
        b \<leftarrow> put_body cf (m_body m);
        let bs = mcopy_to_buf le (cf_cc cf) (m_head m) @ b;
        ASSERT (m_body m \<noteq> InitDoneMessage \<and> m_body m \<noteq> LogRspMessage \<longrightarrow> length bs = get_size cf m);
        Some bs })"

text \<open>\<^verbatim>\<open>create_message(rtype)\<close> selects the class; the argument of a constructor of \<open>mclass\<close> is absent.\<close>

datatype mclass = CInitDone | CFinish | CLog | CLogRsp | CLogFlushed | CQueryResponse | CAck | CPrepare | CForward
  | CDone | CClientResponse | CClientQuery workload | CQuery workload

definition class_of_rtype :: "workload \<Rightarrow> RemReqType \<Rightarrow> mclass option" where
  "class_of_rtype wl t =
     (case t of
        INIT_DONE \<Rightarrow> Some CInitDone
      | RQRY \<Rightarrow> Some (CQuery wl) | RQRY_CONT \<Rightarrow> Some (CQuery wl)
      | RFIN \<Rightarrow> Some CFinish
      | RQRY_RSP \<Rightarrow> Some CQueryResponse
      | LOG_MSG \<Rightarrow> Some CLog | LOG_MSG_RSP \<Rightarrow> Some CLogRsp | LOG_FLUSHED \<Rightarrow> Some CLogFlushed
      | CALVIN_ACK \<Rightarrow> Some CAck | RACK_PREP \<Rightarrow> Some CAck | RACK_FIN \<Rightarrow> Some CAck
      | CL_QRY \<Rightarrow> Some (CClientQuery wl) | RTXN \<Rightarrow> Some (CClientQuery wl) | RTXN_CONT \<Rightarrow> Some (CClientQuery wl)
      | RPREPARE \<Rightarrow> Some CPrepare | RFWD \<Rightarrow> Some CForward | RDONE \<Rightarrow> Some CDone | CL_RSP \<Rightarrow> Some CClientResponse
      | _ \<Rightarrow> None)"

definition get_body :: "config \<Rightarrow> mclass \<Rightarrow> u8 list \<Rightarrow> (mbody \<times> u8 list) option" where
  "get_body cf cl bs =
     (case cl of
        CInitDone \<Rightarrow> Some (InitDoneMessage, bs)
      | CFinish \<Rightarrow> get_finish cf bs
      | CLog \<Rightarrow> get_log bs
      | CLogRsp \<Rightarrow> Some (LogRspMessage, bs)
      | CLogFlushed \<Rightarrow> Some (LogFlushedMessage, bs)
      | CQueryResponse \<Rightarrow> get_query_response bs
      | CAck \<Rightarrow> get_ack cf bs
      | CPrepare \<Rightarrow> Some (PrepareMessage, bs)
      | CForward \<Rightarrow> get_forward cf bs
      | CDone \<Rightarrow> Some (DoneMessage, bs)
      | CClientResponse \<Rightarrow> get_client_response bs
      | CClientQuery wl \<Rightarrow> do {
          (c, bs) \<leftarrow> get_client bs;
          (case wl of
             YCSB \<Rightarrow> do { (rs, bs) \<leftarrow> get_ycsb_client cf bs; Some (YCSBClientQueryMessage c rs, bs) }
           | TPCC \<Rightarrow> do { (t, bs) \<leftarrow> get_tpcc_client bs; Some (TPCCClientQueryMessage c t, bs) }
           | PPS \<Rightarrow> do { (p, bs) \<leftarrow> get_pps_client (cf_cc cf) bs; Some (PPSClientQueryMessage c p, bs) }
           | TEST \<Rightarrow> None) }
      | CQuery wl \<Rightarrow> do {
          (q, bs) \<leftarrow> get_query (cf_cc cf) bs;
          (case wl of
             YCSB \<Rightarrow> do { (rs, bs) \<leftarrow> get_ycsb cf bs; Some (YCSBQueryMessage q rs, bs) }
           | TPCC \<Rightarrow> do { (t, bs) \<leftarrow> get_tpcc bs; Some (TPCCQueryMessage q t, bs) }
           | PPS \<Rightarrow> do { (p, bs) \<leftarrow> get_pps bs; Some (PPSQueryMessage q p, bs) }
           | TEST \<Rightarrow> None) })"

definition has_size_check :: "mclass \<Rightarrow> bool" where
  "has_size_check cl \<longleftrightarrow> cl \<noteq> CInitDone \<and> cl \<noteq> CLogRsp \<and> cl \<noteq> CLogFlushed"

definition blank_head :: "RemReqType \<Rightarrow> mhead" where
  "blank_head t = \<lparr>m_rtype = t, m_txn_id = UINT64_MAX, m_batch_id = UINT64_MAX, m_mq_time = 0, m_lats = replicate 5 0, m_lat_network = 0, m_lat_other = 0\<rparr>"

text \<open>\<^verbatim>\<open>create_message(char *)\<close>: the message and the number of bytes the reader has consumed are known; the
  rest of the buffer is returned.\<close>

definition create_message :: "lat_env \<Rightarrow> config \<Rightarrow> u8 list \<Rightarrow> (message \<times> u8 list) option" where
  "create_message le cf buf = do {
     (t, _) \<leftarrow> get_rtype buf;
     cl \<leftarrow> class_of_rtype (cf_wl cf) t;
     if cl = CLogFlushed then Some (\<lparr>m_head = blank_head t, m_body = LogFlushedMessage\<rparr>, buf)
     else do {
       (h, bs) \<leftarrow> mcopy_from_buf le (cf_cc cf) buf;
       (b, bs) \<leftarrow> get_body cf cl bs;
       let m = \<lparr>m_head = h, m_body = b\<rparr>;
       ASSERT (has_size_check cl \<longrightarrow> length buf - length bs = get_size cf m);
       Some (m, bs) } }"

section \<open>Batches\<close>

record node_ids =
  n_self :: u32
  n_node_cnt :: u32
  n_client_cnt :: u32
  n_repl_cnt :: u32

definition known_node :: "node_ids \<Rightarrow> u32 \<Rightarrow> bool" where
  "known_node n i \<longleftrightarrow>
     (i \<ge> n_node_cnt n \<and> i < n_node_cnt n + n_client_cnt n) \<or> i < n_node_cnt n \<or>
     (i \<ge> n_node_cnt n + n_client_cnt n \<and> i < n_node_cnt n + n_client_cnt n + n_repl_cnt n * n_node_cnt n)"

text \<open>The loop advances by \<^verbatim>\<open>get_size()\<close> of the message it has read; the clock is read for each message.\<close>

primrec read_batch :: "(nat \<Rightarrow> lat_env) \<Rightarrow> config \<Rightarrow> nat \<Rightarrow> u8 list \<Rightarrow> message list option" where
  "read_batch les cf 0 bs = Some []"
| "read_batch les cf (Suc n) bs = do {
     (m, _) \<leftarrow> create_message (les n) cf bs;
     ms \<leftarrow> read_batch les cf n (drop (get_size cf m) bs);
     Some (m # ms) }"

definition create_messages :: "(nat \<Rightarrow> lat_env) \<Rightarrow> config \<Rightarrow> node_ids \<Rightarrow> u8 list \<Rightarrow> (u32 \<times> message list) option" where
  "create_messages les cf n buf = do {
     (dest_id, bs) \<leftarrow> get_u32 buf;
     (return_id, bs) \<leftarrow> get_u32 bs;
     (txn_cnt, bs) \<leftarrow> get_u32 bs;
     ASSERT (dest_id = n_self n);
     ASSERT (return_id \<noteq> n_self n);
     ASSERT (known_node n return_id);
     ms \<leftarrow> read_batch les cf (unat txn_cnt) bs;
     Some (return_id, ms) }"

section \<open>Round trip\<close>

interpretation rtypew: wire put_rtype get_rtype 4
proof
  fix x :: RemReqType and rest
  show "get_rtype (put_rtype x @ rest) = Some (x, rest)"
    by (cases x) (simp_all add: get_rtype_def put_rtype_def enum_of_code_def rtype_code_def rtype_table_def all_rtypes_def upt_rec)
  show "length (put_rtype x) = 4" by (simp add: put_rtype_def)
qed

lemmas rtype_wire [simp] = rtypew.get_put rtypew.length_put

text \<open>The messages that are sent: lists fit the 64-bit count, fields that are absent under the configuration
  are 0, and the assertions on keys, timestamps and types hold.\<close>

definition query_ok :: "cc_alg \<Rightarrow> query_part \<Rightarrow> bool" where
  "query_ok cc q \<longleftrightarrow> (if sends_ts cc then q_ts q \<noteq> 0 else q_ts q = 0) \<and> (cc \<noteq> OCC \<longrightarrow> q_start_ts q = 0)"

definition tpcc_ok :: "tpcc_part \<Rightarrow> bool" where
  "tpcc_ok t \<longleftrightarrow>
     (if tp_type t = TPCC_PAYMENT
      then length (tp_c_last t) = LASTNAME_LEN \<and> tp_items t = [] \<and> \<not> tp_rbk t \<and> \<not> tp_remote t \<and> tp_ol_cnt t = 0 \<and>
        tp_o_entry_d t = 0
      else tp_type t = TPCC_NEW_ORDER \<and> length (tp_items t) < 2 ^ 64 \<and> tp_d_w_id t = 0 \<and> tp_c_w_id t = 0 \<and>
        tp_c_d_id t = 0 \<and> tp_c_last t = [] \<and> tp_h_amount t = 0 \<and> \<not> tp_by_last_name t)"

definition pps_ok :: "pps_part \<Rightarrow> bool" where
  "pps_ok p \<longleftrightarrow> pps_key_of (pp_type p) \<noteq> NoKey \<and> length (pp_part_keys p) < 2 ^ 64 \<and> \<not> pp_recon p \<and>
     (pps_key_of (pp_type p) \<noteq> PartKey \<longrightarrow> pp_part_key p = 0) \<and>
     (pps_key_of (pp_type p) \<noteq> ProductKey \<longrightarrow> pp_product_key p = 0) \<and>
     (pps_key_of (pp_type p) \<noteq> SupplierKey \<longrightarrow> pp_supplier_key p = 0)"

definition body_ok :: "config \<Rightarrow> mbody \<Rightarrow> bool" where
  "body_ok cf b \<longleftrightarrow>
     (case b of
        FinishMessage pid rc ro ct \<Rightarrow> cf_cc cf \<noteq> MAAT \<longrightarrow> ct = 0
      | AckMessage rc lower upper keys \<Rightarrow>
          (cf_cc cf \<noteq> MAAT \<longrightarrow> lower = 0 \<and> upper = 0) \<and>
          (if cf_wl cf = PPS \<and> cf_cc cf = CALVIN then length keys < 2 ^ 64 else keys = [])
      | ForwardMessage rc o_id \<Rightarrow> cf_wl cf \<noteq> TPCC \<longrightarrow> o_id = 0
      | YCSBClientQueryMessage c rs \<Rightarrow> length (c_partitions c) < 2 ^ 64 \<and> length rs < 2 ^ 64 \<and> keys_in_table cf rs
      | TPCCClientQueryMessage c t \<Rightarrow> length (c_partitions c) < 2 ^ 64 \<and> length (tp_items t) < 2 ^ 64 \<and> tp_state t = 0 \<and>
          length (tp_c_last t) = LASTNAME_LEN
      | PPSClientQueryMessage c p \<Rightarrow> length (c_partitions c) < 2 ^ 64 \<and> length (pp_part_keys p) < 2 ^ 64 \<and> pp_state p = 0 \<and>
          (cf_cc cf \<noteq> CALVIN \<longrightarrow> \<not> pp_recon p)
      | YCSBQueryMessage q rs \<Rightarrow> query_ok (cf_cc cf) q \<and> length rs < 2 ^ 64 \<and> of_nat (length rs) \<le> cf_req_per_query cf \<and>
          keys_in_table cf rs
      | TPCCQueryMessage q t \<Rightarrow> query_ok (cf_cc cf) q \<and> tpcc_ok t
      | PPSQueryMessage q p \<Rightarrow> query_ok (cf_cc cf) q \<and> pps_ok p
      | LogMessage r \<Rightarrow> False
      | LogFlushedMessage \<Rightarrow> False
      | _ \<Rightarrow> True)"

definition class_of_body :: "mbody \<Rightarrow> mclass" where
  "class_of_body b =
     (case b of InitDoneMessage \<Rightarrow> CInitDone | FinishMessage _ _ _ _ \<Rightarrow> CFinish | LogMessage _ \<Rightarrow> CLog
      | LogRspMessage \<Rightarrow> CLogRsp | LogFlushedMessage \<Rightarrow> CLogFlushed | QueryResponseMessage _ \<Rightarrow> CQueryResponse
      | AckMessage _ _ _ _ \<Rightarrow> CAck | PrepareMessage \<Rightarrow> CPrepare | ForwardMessage _ _ \<Rightarrow> CForward | DoneMessage \<Rightarrow> CDone
      | ClientResponseMessage _ \<Rightarrow> CClientResponse | YCSBClientQueryMessage _ _ \<Rightarrow> CClientQuery YCSB
      | TPCCClientQueryMessage _ _ \<Rightarrow> CClientQuery TPCC | PPSClientQueryMessage _ _ \<Rightarrow> CClientQuery PPS
      | YCSBQueryMessage _ _ \<Rightarrow> CQuery YCSB | TPCCQueryMessage _ _ \<Rightarrow> CQuery TPCC | PPSQueryMessage _ _ \<Rightarrow> CQuery PPS)"

definition message_ok :: "config \<Rightarrow> message \<Rightarrow> bool" where
  "message_ok cf m \<longleftrightarrow> class_of_rtype (cf_wl cf) (m_rtype (m_head m)) = Some (class_of_body (m_body m)) \<and>
     length (m_lats (m_head m)) = 5 \<and> (cf_cc cf \<noteq> CALVIN \<longrightarrow> m_batch_id (m_head m) = UINT64_MAX) \<and> body_ok cf (m_body m)"

lemma lat_fields [simp]:
  "m_rtype (lat_out le cc h) = m_rtype h" "m_txn_id (lat_out le cc h) = m_txn_id h" "m_batch_id (lat_out le cc h) = m_batch_id h"
  "m_mq_time (lat_out le cc h) = m_mq_time h" "m_lats (lat_out le cc h) = m_lats h" "m_rtype (lat_in le cc h) = m_rtype h"
  by (simp_all add: lat_out_def lat_in_def)

lemma mcopy_round_trip:
  assumes "length (m_lats h) = 5" "cc \<noteq> CALVIN \<longrightarrow> m_batch_id h = UINT64_MAX"
  shows "mcopy_from_buf le' cc (mcopy_to_buf le cc h @ rest) = Some (lat_in le' cc (lat_out le cc h), rest)"
    "length (mcopy_to_buf le cc h) = mget_size cc"
proof -
  define h' where "h' = lat_out le cc h"
  have h': "length (m_lats h') = 5" "cc \<noteq> CALVIN \<longrightarrow> m_batch_id h' = UINT64_MAX" using assms by (simp_all add: h'_def)
  show "mcopy_from_buf le' cc (mcopy_to_buf le cc h @ rest) = Some (lat_in le' cc (lat_out le cc h), rest)"
    "length (mcopy_to_buf le cc h) = mget_size cc"
    unfolding h'_def [symmetric] mcopy_to_buf_def Let_def
    using u64w.get_elems_put [of "m_lats h'"] u64w.length_elems [of "m_lats h'"] h'
    by (cases h'; auto simp: mcopy_from_buf_def mget_size_def)+
qed

lemma put_query_ok: "query_ok cc q \<Longrightarrow> \<exists>bs. put_query cc q = Some bs \<and> length bs = query_size cc \<and>
    (\<forall>rest. get_query cc (bs @ rest) = Some (q, rest))"
  by (cases q) (auto simp: query_ok_def put_query_def get_query_def query_size_def split: if_splits)

lemma client_round_trip:
  "length (c_partitions c) < 2 ^ 64 \<Longrightarrow> get_client (put_client c @ rest) = Some (c, rest)"
  "length (put_client c) = client_size c"
  by (simp_all add: put_client_def get_client_def client_size_def)

lemma tpcc_client_round_trip:
  assumes "length (tp_items t) < 2 ^ 64" "tp_state t = 0" "length (tp_c_last t) = LASTNAME_LEN"
  shows "get_tpcc_client (put_tpcc_client t @ rest) = Some (t, rest)" "length (put_tpcc_client t) = tpcc_client_size t"
  using assms by (cases t; simp add: put_tpcc_client_def get_tpcc_client_def tpcc_client_size_def)+

lemma tpcc_round_trip:
  assumes "tpcc_ok t"
  shows "get_tpcc (put_tpcc t @ rest) = Some (t, rest)" "length (put_tpcc t) = tpcc_size t"
  using assms
  by (cases t; cases "tp_type t = TPCC_PAYMENT"; simp add: tpcc_ok_def put_tpcc_def get_tpcc_def get_payment_def get_new_order_def
      no_tpcc_def tpcc_size_def)+

lemma pps_client_round_trip:
  assumes "length (pp_part_keys p) < 2 ^ 64" "pp_state p = 0" "cc \<noteq> CALVIN \<longrightarrow> \<not> pp_recon p"
  shows "get_pps_client cc (put_pps_client cc p @ rest) = Some (p, rest)" "length (put_pps_client cc p) = pps_client_size cc p"
  using assms by (cases p; simp add: put_pps_client_def get_pps_client_def pps_client_size_def)+

lemma pps_round_trip:
  assumes "pps_ok p"
  shows "get_pps (put_pps p @ rest) = Some (p, rest)" "length (put_pps p) = pps_size p"
  using assms by (cases p; cases "pps_key_of (pp_type p)"; simp add: pps_ok_def put_pps_def get_pps_def pps_size_def)+

lemma ycsb_round_trip:
  assumes "length rs < 2 ^ 64" "keys_in_table cf rs"
  shows "get_ycsb_client cf (put_array put_request rs @ rest) = Some (rs, rest)"
    "of_nat (length rs) \<le> cf_req_per_query cf \<Longrightarrow> get_ycsb cf (put_array put_request rs @ rest) = Some (rs, rest)"
proof -
  have "get_u64 (put_array put_request rs @ rest) = Some (of_nat (length rs), concat (map put_request rs) @ rest)"
    by (simp add: put_array_def)
  with assms show "get_ycsb_client cf (put_array put_request rs @ rest) = Some (rs, rest)"
    "of_nat (length rs) \<le> cf_req_per_query cf \<Longrightarrow> get_ycsb cf (put_array put_request rs @ rest) = Some (rs, rest)"
    by (simp_all add: get_ycsb_client_def get_ycsb_def)
qed

lemma body_round_trip:
  assumes "body_ok cf b"
  shows "\<exists>bs. put_body cf b = Some bs \<and> length bs = body_size cf b \<and>
    (\<forall>rest. get_body cf (class_of_body b) (bs @ rest) = Some (b, rest))"
proof (cases b)
  case (YCSBQueryMessage q rs)
  with assms put_query_ok [of "cf_cc cf" q] show ?thesis
    by (auto simp: body_ok_def put_body_def body_size_def class_of_body_def get_body_def protocol_defs ycsb_round_trip)
next
  case (TPCCQueryMessage q t)
  with assms put_query_ok [of "cf_cc cf" q] show ?thesis
    by (auto simp: body_ok_def put_body_def body_size_def class_of_body_def get_body_def tpcc_round_trip)
next
  case (PPSQueryMessage q p)
  with assms put_query_ok [of "cf_cc cf" q] show ?thesis
    by (auto simp: body_ok_def put_body_def body_size_def class_of_body_def get_body_def pps_round_trip)
qed (use assms in \<open>auto simp: body_ok_def put_body_def body_size_def class_of_body_def get_body_def put_ycsb_client_def
      protocol_defs client_round_trip ycsb_round_trip tpcc_client_round_trip pps_client_round_trip split: if_splits\<close>)

text \<open>A message after it has been sent and received: its latencies are adjusted on both sides. \<open>no_latency\<close> forgets the two
  fields that are.\<close>

definition arrived :: "lat_env \<Rightarrow> lat_env \<Rightarrow> config \<Rightarrow> message \<Rightarrow> message" where
  "arrived le le' cf m = m\<lparr>m_head := lat_in le' (cf_cc cf) (lat_out le (cf_cc cf) (m_head m))\<rparr>"

definition no_latency :: "message \<Rightarrow> message" where
  "no_latency m = m\<lparr>m_head := (m_head m)\<lparr>m_lat_network := 0, m_lat_other := 0\<rparr>\<rparr>"

lemma no_latency_arrived [simp]: "no_latency (arrived le le' cf m) = no_latency m"
  by (simp add: no_latency_def arrived_def lat_out_def lat_in_def)

lemma get_size_arrived [simp]: "get_size cf (arrived le le' cf m) = get_size cf m"
  by (simp add: get_size_def arrived_def)

lemma message_round_trip_ex:
  assumes "message_ok cf m"
  obtains bs where "copy_to_buf le cf m = Some bs" "length bs = get_size cf m"
    "\<And>le' rest. create_message le' cf (bs @ rest) = Some (arrived le le' cf m, rest)"
proof -
  from assms have ok: "class_of_rtype (cf_wl cf) (m_rtype (m_head m)) = Some (class_of_body (m_body m))"
    "length (m_lats (m_head m)) = 5" "cf_cc cf \<noteq> CALVIN \<longrightarrow> m_batch_id (m_head m) = UINT64_MAX" "body_ok cf (m_body m)"
    by (auto simp: message_ok_def)
  note head = mcopy_round_trip [OF ok(2,3)]
  from body_round_trip [OF ok(4)] obtain b where b: "put_body cf (m_body m) = Some b" "length b = body_size cf (m_body m)"
    "\<And>rest. get_body cf (class_of_body (m_body m)) (b @ rest) = Some (m_body m, rest)" by blast
  have nf: "m_body m \<noteq> LogFlushedMessage" "class_of_body (m_body m) \<noteq> CLogFlushed"
    using ok(4) by (cases "m_body m"; auto simp: body_ok_def class_of_body_def)+
  let ?bs = "mcopy_to_buf le (cf_cc cf) (m_head m) @ b"
  have len: "length ?bs = get_size cf m" using head(2) b(2) nf by (simp add: get_size_def)
  have rt: "get_rtype (?bs @ rest) = Some (m_rtype (m_head m),
      drop 4 (mcopy_to_buf le (cf_cc cf) (m_head m)) @ b @ rest)" for rest by (simp add: mcopy_to_buf_def Let_def)
  have eta: "\<lparr>m_head = lat_in le' (cf_cc cf) (lat_out le (cf_cc cf) (m_head m)), m_body = m_body m\<rparr> = arrived le le' cf m" for le'
    by (cases m) (simp add: arrived_def)
  have "copy_to_buf le cf m = Some ?bs" using b(1) len nf by (simp add: copy_to_buf_def)
  moreover have "create_message le' cf (?bs @ rest) = Some (arrived le le' cf m, rest)" for le' rest
    using head(1) [of le' le "b @ rest"] b(3) rt [of rest] ok(1) nf len by (simp add: create_message_def Let_def eta)
  ultimately show thesis using len that by blast
qed

text \<open>C19: Every message that is sent is received: for every message class except the log message and the log-flushed notice, all concurrency control algorithms and workloads, copy_to_buf succeeds with get_size bytes, and create_message reads the message back from any buffer that starts with these bytes and stops where they end. Every field is unchanged but the two latencies for the network and for the rest, which both sides adjust by their clocks.\<close>

theorem message_round_trip:
  assumes "message_ok cf m"
  shows "\<exists>bs. copy_to_buf le cf m = Some bs \<and> length bs = get_size cf m \<and>
    (\<forall>le' rest. create_message le' cf (bs @ rest) = Some (m\<lparr>m_head := lat_in le' (cf_cc cf) (lat_out le (cf_cc cf) (m_head m))\<rparr>, rest))"
  using message_round_trip_ex [OF assms, of le] unfolding arrived_def by metis

definition demo_le :: lat_env where
  "demo_le = \<lparr>le_node_id = 0, le_node_cnt = 2, le_now = 50, le_double = (\<lambda>x. x), le_minus = (-)\<rparr>"

definition demo_ack :: message where
  "demo_ack = \<lparr>m_head = (blank_head RACK_PREP)\<lparr>m_txn_id := 7\<rparr>, m_body = AckMessage Abort 5 9 []\<rparr>"

definition demo_msg_cf :: config where
  "demo_msg_cf = \<lparr>cf_cc = MAAT, cf_wl = TPCC, cf_table_size = 100, cf_req_per_query = 10\<rparr>"

theorem message_round_trip_witness:
  "message_ok demo_msg_cf demo_ack \<and> (\<exists>bs. copy_to_buf demo_le demo_msg_cf demo_ack = Some bs \<and> length bs = 96 \<and>
     create_message demo_le demo_msg_cf bs = Some (demo_ack\<lparr>m_head := (m_head demo_ack)\<lparr>m_lat_other := 50\<rparr>\<rparr>, []))"
proof -
  have ok: "message_ok demo_msg_cf demo_ack"
    by (simp add: demo_ack_def demo_msg_cf_def blank_head_def message_ok_def class_of_rtype_def class_of_body_def body_ok_def)
  have sz: "get_size demo_msg_cf demo_ack = 96" by (simp add: demo_msg_cf_def demo_ack_def get_size_def mget_size_def body_size_def ack_size_def)
  have "lat_in demo_le (cf_cc demo_msg_cf) (lat_out demo_le (cf_cc demo_msg_cf) (m_head demo_ack)) = (m_head demo_ack)\<lparr>m_lat_other := 50\<rparr>"
    by (simp add: lat_in_def lat_out_def local_txn_def demo_le_def demo_msg_cf_def demo_ack_def blank_head_def)
  with message_round_trip [OF ok, of demo_le] ok sz show ?thesis by (metis append_Nil2)
qed

text \<open>A log message cannot be sent: get_size does not count the record that copy_to_buf writes, so the size assertion fails for every record.\<close>

theorem log_message_not_sent:
  assumes "length (m_lats h) = 5" and "cf_cc cf \<noteq> CALVIN \<longrightarrow> m_batch_id h = UINT64_MAX" and "length r = 56"
  shows "copy_to_buf le cf \<lparr>m_head = h, m_body = LogMessage r\<rparr> = None"
  using mcopy_round_trip(2) [OF assms(1,2), of le] assms(3)
  by (cases r) (simp_all add: copy_to_buf_def put_body_def get_size_def body_size_def)

lemma read_batch_round_trip:
  assumes "\<forall>(le, m) \<in> set lms. message_ok cf m"
  shows "\<exists>encs. map (\<lambda>(le, m). copy_to_buf le cf m) lms = map Some encs \<and> map length encs = map (\<lambda>(le, m). get_size cf m) lms \<and>
    (\<forall>les rest. \<exists>ms. read_batch les cf (length lms) (concat encs @ rest) = Some ms \<and> map no_latency ms = map (\<lambda>(le, m). no_latency m) lms)"
  using assms
proof (induction lms)
  case (Cons lm lms)
  obtain le m where lm: "lm = (le, m)" by (cases lm)
  from Cons obtain encs where e: "map (\<lambda>(le, m). copy_to_buf le cf m) lms = map Some encs" "map length encs = map (\<lambda>(le, m). get_size cf m) lms"
    "\<And>les rest. \<exists>ms. read_batch les cf (length lms) (concat encs @ rest) = Some ms \<and> map no_latency ms = map (\<lambda>(le, m). no_latency m) lms" by auto
  obtain bs where b: "copy_to_buf le cf m = Some bs" "length bs = get_size cf m"
    "\<And>le' rest. create_message le' cf (bs @ rest) = Some (arrived le le' cf m, rest)"
    using message_round_trip_ex [of cf m le] Cons.prems by (auto simp: lm)
  have "\<exists>ms. read_batch les cf (length (lm # lms)) (concat (bs # encs) @ rest) = Some ms \<and> map no_latency ms = map (\<lambda>(le, m). no_latency m) (lm # lms)" for les rest
  proof -
    obtain ms where "read_batch les cf (length lms) (concat encs @ rest) = Some ms" "map no_latency ms = map (\<lambda>(le, m). no_latency m) lms"
      using e(3) by blast
    then show ?thesis using b by (intro exI [of _ "arrived le (les (length lms)) cf m # ms"]) (simp add: lm)
  qed
  then show ?case using e b by (intro exI [of _ "bs # encs"]) (simp add: lm)
qed simp

end
