(* ===== verification/Msg_Thread.thy ===== *)
theory Msg_Thread
  imports Message
begin

text \<open>
  The sending thread of \<^verbatim>\<open>transport/msg_thread.cpp\<close>, which collects messages per destination in an
  \<^verbatim>\<open>mbuf\<close> and sends a buffer when it is full or old. A buffer has a header of three 32-bit words in front
  of its messages, so its \<^verbatim>\<open>ptr\<close> is 12 plus the length of \<open>mb_data\<close>. What \<^verbatim>\<open>tport_man.send_msg\<close> has been
  given is the list \<open>mt_sent\<close>. Whether the time limit of a buffer has expired is an argument, as is the clock.

  The theory shows that no message is lost, repeated or reordered between the queue and the receiver.
\<close>

section \<open>Buffers\<close>

record mbuf =
  mb_data :: "u8 list"
  mb_cnt :: u64

record msg_thread =
  mt_buffer :: "nat \<Rightarrow> mbuf"
  mt_sent :: "(nat \<times> u8 list) list"

definition mbuf_reset :: mbuf where
  "mbuf_reset = \<lparr>mb_data = [], mb_cnt = 0\<rparr>"

definition mbuf_fits :: "nat \<Rightarrow> nat \<Rightarrow> mbuf \<Rightarrow> bool" where
  "mbuf_fits msg_size s mb \<longleftrightarrow> (12 + length (mb_data mb)) + s \<le> msg_size"

definition mbuf_ready :: "bool \<Rightarrow> mbuf \<Rightarrow> bool" where
  "mbuf_ready expired mb = (if mb_cnt mb = 0 then False else expired)"

section \<open>The thread\<close>

definition mt_init :: msg_thread where
  "mt_init = \<lparr>mt_buffer = (\<lambda>_. mbuf_reset), mt_sent = []\<rparr>"

definition send_batch :: "u32 \<Rightarrow> nat \<Rightarrow> msg_thread \<Rightarrow> msg_thread option" where
  "send_batch self dest st = do {
     let mb = mt_buffer st dest;
     ASSERT (mb_cnt mb > 0);
     let bytes = put_u32 (of_nat dest) @ put_u32 self @ put_u32 (ucast (mb_cnt mb)) @ mb_data mb;
     Some \<lparr>mt_buffer = (mt_buffer st)(dest := mbuf_reset), mt_sent = mt_sent st @ [(dest, bytes)]\<rparr> }"

fun send_ready :: "u32 \<Rightarrow> (nat \<Rightarrow> bool) \<Rightarrow> nat list \<Rightarrow> msg_thread \<Rightarrow> msg_thread option" where
  "send_ready self expired [] st = Some st"
| "send_ready self expired (d # ds) st = do {
     st \<leftarrow> (if mbuf_ready (expired d) (mt_buffer st d) then send_batch self d st else Some st);
     send_ready self expired ds st }"

definition check_and_send_batches :: "cc_alg \<Rightarrow> nat \<Rightarrow> u32 \<Rightarrow> (nat \<Rightarrow> bool) \<Rightarrow> msg_thread \<Rightarrow> msg_thread option" where
  "check_and_send_batches cc total_cnt self expired st =
     (let buffer_cnt = (if cc = CALVIN then total_cnt + 1 else total_cnt)
      in send_ready self expired [0 ..< buffer_cnt] st)"

definition mt_run ::
  "config \<Rightarrow> nat \<Rightarrow> nat \<Rightarrow> u32 \<Rightarrow> (nat \<Rightarrow> bool) \<Rightarrow> lat_env \<Rightarrow> (nat \<times> message) option \<Rightarrow> msg_thread \<Rightarrow> msg_thread option" where
  "mt_run cf msg_size total_cnt self expired le inp st =
     (case inp of
        None \<Rightarrow> check_and_send_batches (cf_cc cf) total_cnt self expired st
      | Some (dest, m) \<Rightarrow> do {
          ASSERT (dest < total_cnt);
          ASSERT (of_nat dest \<noteq> self);
          st \<leftarrow> (if \<not> mbuf_fits msg_size (get_size cf m) (mt_buffer st dest) then send_batch self dest st else Some st);
          bs \<leftarrow> copy_to_buf le cf m;
          let mb = mt_buffer st dest;
          check_and_send_batches (cf_cc cf) total_cnt self expired
            (st\<lparr>mt_buffer := (mt_buffer st)(dest := \<lparr>mb_data = mb_data mb @ bs, mb_cnt = mb_cnt mb + 1\<rparr>)\<rparr>) })"

type_synonym mt_input = "(nat \<Rightarrow> bool) \<times> lat_env \<times> (nat \<times> message) option"

fun mt_exec :: "config \<Rightarrow> nat \<Rightarrow> nat \<Rightarrow> u32 \<Rightarrow> mt_input list \<Rightarrow> msg_thread \<Rightarrow> msg_thread option" where
  "mt_exec cf msg_size total_cnt self [] st = Some st"
| "mt_exec cf msg_size total_cnt self ((expired, le, inp) # ins) st =
     mt_run cf msg_size total_cnt self expired le inp st \<bind> mt_exec cf msg_size total_cnt self ins"

section \<open>Delivery\<close>

text \<open>A message is kept with the circumstances in which it is copied.\<close>

type_synonym sent_msg = "lat_env \<times> message"

definition enc :: "config \<Rightarrow> sent_msg list \<Rightarrow> u8 list" where
  "enc cf ms = concat (map (\<lambda>(le, m). the (copy_to_buf le cf m)) ms)"

definition batch_bytes :: "config \<Rightarrow> u32 \<Rightarrow> nat \<Rightarrow> sent_msg list \<Rightarrow> u8 list" where
  "batch_bytes cf self d ms = put_u32 (of_nat d) @ put_u32 self @ put_u32 (of_nat (length ms)) @ enc cf ms"

definition sent_to :: "nat \<Rightarrow> msg_thread \<Rightarrow> u8 list list" where
  "sent_to d st = map snd (filter (\<lambda>x. fst x = d) (mt_sent st))"

definition holds :: "config \<Rightarrow> nat \<Rightarrow> mbuf \<Rightarrow> sent_msg list \<Rightarrow> bool" where
  "holds cf msg_size mb ms \<longleftrightarrow> mb_data mb = enc cf ms \<and> mb_cnt mb = of_nat (length ms) \<and> length (enc cf ms) \<le> msg_size"

definition delivered :: "config \<Rightarrow> nat \<Rightarrow> u32 \<Rightarrow> msg_thread \<Rightarrow> nat \<Rightarrow> sent_msg list \<Rightarrow> bool" where
  "delivered cf msg_size self st d ms \<longleftrightarrow>
     (\<exists>bss pend. ms = concat bss @ pend \<and> sent_to d st = map (batch_bytes cf self d) bss \<and>
        (\<forall>bs \<in> set bss. length bs < 2 ^ 32) \<and> holds cf msg_size (mt_buffer st d) pend)"

definition mt_inv :: "config \<Rightarrow> nat \<Rightarrow> u32 \<Rightarrow> msg_thread \<Rightarrow> (nat \<Rightarrow> sent_msg list) \<Rightarrow> bool" where
  "mt_inv cf msg_size self st hist \<longleftrightarrow>
     (\<forall>d. (\<forall>m \<in> set (hist d). message_ok cf (snd m)) \<and> delivered cf msg_size self st d (hist d))"

lemma mt_inv_obtain:
  assumes "mt_inv cf msg_size self st hist"
  obtains bss pend where "hist d = concat bss @ pend" "sent_to d st = map (batch_bytes cf self d) bss"
    "\<forall>bs \<in> set bss. length bs < 2 ^ 32" "holds cf msg_size (mt_buffer st d) pend"
    "\<forall>bs \<in> set bss. \<forall>m \<in> set bs. message_ok cf (snd m)" "\<forall>m \<in> set pend. message_ok cf (snd m)"
proof -
  from assms have ok: "\<forall>m \<in> set (hist d). message_ok cf (snd m)" and "delivered cf msg_size self st d (hist d)"
    unfolding mt_inv_def by blast+
  then obtain bss pend where "hist d = concat bss @ pend" "sent_to d st = map (batch_bytes cf self d) bss"
    "\<forall>bs \<in> set bss. length bs < 2 ^ 32" "holds cf msg_size (mt_buffer st d) pend"
    unfolding delivered_def by blast
  with ok that [of bss pend] show thesis by (simp add: ball_Un)
qed

lemma enc_length: "\<forall>m \<in> set ms. message_ok cf (snd m) \<Longrightarrow> length ms \<le> length (enc cf ms)"
proof (induction ms)
  case (Cons lm ms)
  obtain le m where lm: "lm = (le, m)" by (cases lm)
  obtain bs where bs: "copy_to_buf le cf m = Some bs" "length bs = get_size cf m"
    by (rule message_round_trip_ex [of cf m le]) (use Cons.prems in \<open>auto simp: lm\<close>)
  then have "1 \<le> length bs" by (simp add: get_size_def mget_size_def)
  with Cons bs(1) show ?case by (simp add: enc_def lm)
qed (simp add: enc_def)

lemma enc_read:
  assumes "\<forall>m \<in> set ms. message_ok cf (snd m)"
  shows "\<exists>ms'. read_batch les cf (length ms) (enc cf ms) = Some ms' \<and> map no_latency ms' = map (\<lambda>(le, m). no_latency m) ms"
proof -
  have "\<forall>(le, m) \<in> set ms. message_ok cf m" using assms by auto
  from read_batch_round_trip [OF this] obtain encs where e: "map (\<lambda>(le, m). copy_to_buf le cf m) ms = map Some encs"
    "\<And>rest. \<exists>ms'. read_batch les cf (length ms) (concat encs @ rest) = Some ms' \<and> map no_latency ms' = map (\<lambda>(le, m). no_latency m) ms" by blast
  have "map (\<lambda>(le, m). the (copy_to_buf le cf m)) ms = map the (map (\<lambda>(le, m). copy_to_buf le cf m) ms)" by (simp add: split_beta)
  also have "\<dots> = encs" unfolding e(1) by (simp add: comp_def)
  finally show ?thesis using e(2) [of "[]"] by (simp add: enc_def)
qed

lemma holds_nonempty:
  assumes "holds cf msg_size mb ms" "\<forall>m \<in> set ms. message_ok cf (snd m)" "msg_size < 2 ^ 32"
  shows "length ms < 2 ^ 32" "mb_cnt mb = 0 \<longleftrightarrow> ms = []" "ucast (mb_cnt mb) = (of_nat (length ms) :: u32)"
proof -
  show len: "length ms < 2 ^ 32" using assms enc_length [OF assms(2)] by (simp add: holds_def)
  then show "mb_cnt mb = 0 \<longleftrightarrow> ms = []" using assms(1) by (auto simp: holds_def of_nat_word_eq_0)
  show "ucast (mb_cnt mb) = (of_nat (length ms) :: u32)"
    using assms(1) by (simp add: holds_def)
qed

lemma send_batch_inv:
  assumes inv: "mt_inv cf msg_size self st hist" and ms: "msg_size < 2 ^ 32" and ne: "mb_cnt (mt_buffer st d) \<noteq> 0"
  obtains st' where "send_batch self d st = Some st'" "mt_inv cf msg_size self st' hist" "mt_buffer st' d = mbuf_reset"
proof -
  define st' where "st' = \<lparr>mt_buffer = (mt_buffer st)(d := mbuf_reset), mt_sent = mt_sent st @
    [(d, put_u32 (of_nat d) @ put_u32 self @ put_u32 (ucast (mb_cnt (mt_buffer st d))) @ mb_data (mt_buffer st d))]\<rparr>"
  have "send_batch self d st = Some st'" using ne by (simp add: send_batch_def st'_def word_gt_0 Let_def)
  moreover have "delivered cf msg_size self st' e (hist e)" for e
  proof (cases "e = d")
    case True
    from inv obtain bss pend where p: "hist d = concat bss @ pend" "sent_to d st = map (batch_bytes cf self d) bss"
      "\<forall>bs \<in> set bss. length bs < 2 ^ 32" "holds cf msg_size (mt_buffer st d) pend"
      and ok: "\<forall>m \<in> set pend. message_ok cf (snd m)" by (rule mt_inv_obtain)
    note h = holds_nonempty [OF p(4) ok ms]
    have "sent_to d st' = map (batch_bytes cf self d) (bss @ [pend])"
      using p(2,4) h(3) by (simp add: sent_to_def st'_def batch_bytes_def holds_def)
    moreover have "holds cf msg_size (mt_buffer st' d) []" by (simp add: st'_def holds_def mbuf_reset_def enc_def)
    ultimately show ?thesis using True p(1,3) h(1)
      unfolding delivered_def by (intro exI [of _ "bss @ [pend]"] exI [of _ "[]"]) auto
  next
    case False
    then have "sent_to e st' = sent_to e st" "mt_buffer st' e = mt_buffer st e" by (simp_all add: sent_to_def st'_def)
    with inv show ?thesis by (simp add: mt_inv_def delivered_def)
  qed
  ultimately show thesis using inv that by (simp add: mt_inv_def st'_def)
qed

lemma send_ready_inv:
  assumes "mt_inv cf msg_size self st hist" "msg_size < 2 ^ 32"
  shows "\<exists>st'. send_ready self expired ds st = Some st' \<and> mt_inv cf msg_size self st' hist"
  using assms(1)
proof (induction ds arbitrary: st)
  case (Cons d ds)
  show ?case
  proof (cases "mbuf_ready (expired d) (mt_buffer st d)")
    case True
    then have "mb_cnt (mt_buffer st d) \<noteq> 0" by (auto simp: mbuf_ready_def)
    from send_batch_inv [OF Cons.prems assms(2) this] obtain st' where "send_batch self d st = Some st'"
      "mt_inv cf msg_size self st' hist" by blast
    with True Cons.IH show ?thesis by simp
  qed (use Cons in simp)
qed simp

definition accept :: "(nat \<Rightarrow> sent_msg list) \<Rightarrow> lat_env \<Rightarrow> (nat \<times> message) option \<Rightarrow> nat \<Rightarrow> sent_msg list" where
  "accept hist le inp = (case inp of None \<Rightarrow> hist | Some (d, m) \<Rightarrow> hist(d := hist d @ [(le, m)]))"

definition input_ok :: "config \<Rightarrow> nat \<Rightarrow> nat \<Rightarrow> u32 \<Rightarrow> (nat \<times> message) option \<Rightarrow> bool" where
  "input_ok cf msg_size total_cnt self inp \<longleftrightarrow>
     (case inp of None \<Rightarrow> True
      | Some (d, m) \<Rightarrow> d < total_cnt \<and> of_nat d \<noteq> self \<and> message_ok cf m \<and> 12 + get_size cf m \<le> msg_size)"

lemma mt_append_inv:
  assumes inv: "mt_inv cf msg_size self st hist" and m: "message_ok cf m" "copy_to_buf le cf m = Some bs"
    and fits: "length (mb_data (mt_buffer st d)) + length bs \<le> msg_size"
  shows "mt_inv cf msg_size self (st\<lparr>mt_buffer := (mt_buffer st)(d := \<lparr>mb_data = mb_data (mt_buffer st d) @ bs,
      mb_cnt = mb_cnt (mt_buffer st d) + 1\<rparr>)\<rparr>) (hist(d := hist d @ [(le, m)]))" (is "mt_inv _ _ _ ?st _")
proof -
  from inv obtain bss pend where p: "hist d = concat bss @ pend" "sent_to d st = map (batch_bytes cf self d) bss"
    "\<forall>bs \<in> set bss. length bs < 2 ^ 32" "holds cf msg_size (mt_buffer st d) pend"
    by (rule mt_inv_obtain)
  have sent: "sent_to e ?st = sent_to e st" for e by (simp add: sent_to_def)
  have "holds cf msg_size (mt_buffer ?st d) (pend @ [(le, m)])" using p(4) fits m(2) by (simp add: holds_def enc_def)
  then have "delivered cf msg_size self ?st d (hist d @ [(le, m)])"
    unfolding delivered_def sent using p(1-3) by (intro exI [of _ bss] exI [of _ "pend @ [(le, m)]"]) simp
  moreover have "delivered cf msg_size self ?st e (hist e)" if "e \<noteq> d" for e
    using inv that unfolding delivered_def sent by (simp add: mt_inv_def delivered_def)
  ultimately show ?thesis using inv m(1) by (simp add: mt_inv_def)
qed

lemma mt_run_inv:
  assumes inv: "mt_inv cf msg_size self st hist" and ms: "msg_size < 2 ^ 32" and ok: "input_ok cf msg_size total_cnt self inp"
  shows "\<exists>st'. mt_run cf msg_size total_cnt self expired le inp st = Some st' \<and> mt_inv cf msg_size self st' (accept hist le inp)"
proof (cases inp)
  case None
  then show ?thesis using send_ready_inv [OF inv ms] by (simp add: mt_run_def check_and_send_batches_def accept_def Let_def)
next
  case (Some dm)
  then obtain d m where inp: "inp = Some (d, m)" by (cases dm) auto
  with ok have d: "d < total_cnt" "of_nat d \<noteq> self" and m: "message_ok cf m" and sz: "12 + get_size cf m \<le> msg_size"
    by (auto simp: input_ok_def)
  obtain bs where bs: "copy_to_buf le cf m = Some bs" "length bs = get_size cf m" using m by (metis message_round_trip_ex)
  obtain st1 where st1: "(if \<not> mbuf_fits msg_size (get_size cf m) (mt_buffer st d) then send_batch self d st else Some st) = Some st1"
    "mt_inv cf msg_size self st1 hist" "length (mb_data (mt_buffer st1 d)) + length bs \<le> msg_size"
  proof (cases "mbuf_fits msg_size (get_size cf m) (mt_buffer st d)")
    case True
    with inv bs(2) that [of st] show ?thesis by (simp add: mbuf_fits_def)
  next
    case False
    from inv obtain pend where pend: "holds cf msg_size (mt_buffer st d) pend" "\<forall>m \<in> set pend. message_ok cf (snd m)"
      by (rule mt_inv_obtain)
    have "pend \<noteq> []" using False sz pend(1) by (auto simp: mbuf_fits_def holds_def enc_def)
    then have "mb_cnt (mt_buffer st d) \<noteq> 0" using holds_nonempty(2) [OF pend ms] by simp
    from send_batch_inv [OF inv ms this] obtain st1 where "send_batch self d st = Some st1" "mt_inv cf msg_size self st1 hist"
      "mt_buffer st1 d = mbuf_reset" by blast
    with False sz bs(2) that [of st1] show ?thesis by (simp add: mbuf_reset_def)
  qed
  from send_ready_inv [OF mt_append_inv [OF st1(2) m bs(1) st1(3)] ms] d st1(1) bs(1) inp show ?thesis
    by (simp add: mt_run_def check_and_send_batches_def accept_def Let_def)
qed

definition inputs_to :: "nat \<Rightarrow> mt_input list \<Rightarrow> sent_msg list" where
  "inputs_to d ins = concat (map (\<lambda>(_, le, inp). case inp of Some (e, m) \<Rightarrow> if e = d then [(le, m)] else [] | None \<Rightarrow> []) ins)"

lemma mt_exec_inv:
  assumes "mt_inv cf msg_size self st hist" "msg_size < 2 ^ 32" "\<forall>(x, le, inp) \<in> set ins. input_ok cf msg_size total_cnt self inp"
  shows "\<exists>st'. mt_exec cf msg_size total_cnt self ins st = Some st' \<and> mt_inv cf msg_size self st' (\<lambda>d. hist d @ inputs_to d ins)"
  using assms(1,3)
proof (induction ins arbitrary: st hist)
  case (Cons a ins)
  obtain x le inp where a: "a = (x, le, inp)" by (cases a) auto
  with Cons.prems have ok: "input_ok cf msg_size total_cnt self inp" by auto
  from mt_run_inv [OF Cons.prems(1) assms(2) ok] obtain st1 where st1: "mt_run cf msg_size total_cnt self x le inp st = Some st1"
    "mt_inv cf msg_size self st1 (accept hist le inp)" by blast
  have "(\<lambda>d. accept hist le inp d @ inputs_to d ins) = (\<lambda>d. hist d @ inputs_to d (a # ins))"
    by (auto simp: accept_def inputs_to_def a fun_eq_iff split: option.splits)
  with Cons.IH [OF st1(2)] Cons.prems(2) st1(1) a show ?case by auto
qed (simp add: inputs_to_def)

text \<open>C18: No message is lost, repeated or reordered on its way: whatever the message thread is given and whenever its buffers expire, it runs without a failed assertion, the batches it has sent to a node, followed by what is still buffered, are exactly the messages for that node in the order they were queued, and every batch is accepted there by create_messages, which returns its messages in order with all fields as they were queued but the two latencies that both sides adjust.\<close>

theorem message_thread_delivers:
  assumes ms: "msg_size < 2 ^ 32" and ins: "\<forall>(x, le, inp) \<in> set ins. input_ok cf msg_size total_cnt self inp"
    and n: "n_self n = of_nat d" "self \<noteq> of_nat d" "known_node n self"
  shows "\<exists>st bss pend. mt_exec cf msg_size total_cnt self ins mt_init = Some st \<and>
     concat bss @ pend = inputs_to d ins \<and> length pend = unat (mb_cnt (mt_buffer st d)) \<and>
     list_all2 (\<lambda>bytes bs. \<forall>les. \<exists>ms. create_messages les cf n bytes = Some (self, ms) \<and> map no_latency ms = map (\<lambda>(le, m). no_latency m) bs)
       (sent_to d st) bss"
proof -
  have "mt_inv cf msg_size self mt_init (\<lambda>_. [])"
    by (simp add: mt_inv_def delivered_def mt_init_def sent_to_def holds_def mbuf_reset_def enc_def)
  from mt_exec_inv [OF this ms ins] obtain st where st: "mt_exec cf msg_size total_cnt self ins mt_init = Some st"
    "mt_inv cf msg_size self st (\<lambda>d. inputs_to d ins)" by auto
  from st(2) obtain bss pend where p: "inputs_to d ins = concat bss @ pend" "sent_to d st = map (batch_bytes cf self d) bss"
    "\<forall>bs \<in> set bss. length bs < 2 ^ 32" "holds cf msg_size (mt_buffer st d) pend"
    and ok: "\<forall>bs \<in> set bss. \<forall>m \<in> set bs. message_ok cf (snd m)" "\<forall>m \<in> set pend. message_ok cf (snd m)"
    by (rule mt_inv_obtain [where d = d])
  have "\<exists>ms. create_messages les cf n (batch_bytes cf self d bs) = Some (self, ms) \<and> map no_latency ms = map (\<lambda>(le, m). no_latency m) bs"
    if bs: "bs \<in> set bss" for bs les
  proof -
    have "unat (of_nat (length bs) :: u32) = length bs" using p(3) bs by (simp add: unat_of_nat take_bit_nat_eq_self)
    moreover obtain ms where "read_batch les cf (length bs) (enc cf bs) = Some ms" "map no_latency ms = map (\<lambda>(le, m). no_latency m) bs"
      using enc_read [of bs cf les] ok(1) bs by blast
    ultimately show ?thesis using n by (simp add: create_messages_def batch_bytes_def)
  qed
  then have "list_all2 (\<lambda>bytes bs. \<forall>les. \<exists>ms. create_messages les cf n bytes = Some (self, ms) \<and> map no_latency ms = map (\<lambda>(le, m). no_latency m) bs)
       (sent_to d st) bss" unfolding p(2) list_all2_map1 by (simp add: list_all2_same)
  moreover have "length pend = unat (mb_cnt (mt_buffer st d))"
    using p(4) holds_nonempty(1) [OF p(4) ok(2) ms] by (simp add: holds_def unat_of_nat take_bit_nat_eq_self)
  ultimately show ?thesis using st(1) p(1) by (intro exI [of _ st] exI [of _ bss] exI [of _ pend]) simp
qed

definition demo_done :: message where
  "demo_done = \<lparr>m_head = blank_head RDONE, m_body = DoneMessage\<rparr>"

definition demo_ids :: node_ids where
  "demo_ids = \<lparr>n_self = 1, n_node_cnt = 2, n_client_cnt = 1, n_repl_cnt = 0\<rparr>"

theorem message_thread_delivers_witness:
  "\<exists>st bss pend. mt_exec demo_msg_cf 4096 3 0 [(\<lambda>_. False, demo_le, Some (1, demo_done)), (\<lambda>_. True, demo_le, None)] mt_init = Some st \<and>
     concat bss @ pend = [(demo_le, demo_done)] \<and> length pend = unat (mb_cnt (mt_buffer st 1)) \<and>
     list_all2 (\<lambda>bytes bs. \<forall>les. \<exists>ms. create_messages les demo_msg_cf demo_ids bytes = Some (0, ms) \<and> map no_latency ms = map (\<lambda>(le, m). no_latency m) bs)
       (sent_to 1 st) bss"
proof -
  let ?ins = "[(\<lambda>_ :: nat. False, demo_le, Some (1 :: nat, demo_done)), (\<lambda>_. True, demo_le, None)]"
  have "message_ok demo_msg_cf demo_done"
    by (simp add: demo_msg_cf_def demo_done_def message_ok_def class_of_rtype_def class_of_body_def body_ok_def blank_head_def)
  moreover have "get_size demo_msg_cf demo_done = 76" by (simp add: demo_msg_cf_def demo_done_def get_size_def mget_size_def body_size_def)
  ultimately have ins: "\<forall>(x, le, inp) \<in> set ?ins. input_ok demo_msg_cf 4096 3 0 inp" by (simp add: input_ok_def)
  have inp: "inputs_to 1 ?ins = [(demo_le, demo_done)]" by (simp add: inputs_to_def)
  have d: "n_self demo_ids = of_nat 1" "(0 :: u32) \<noteq> of_nat 1" "known_node demo_ids 0" "4096 < (2 ^ 32 :: nat)"
    by (simp_all add: known_node_def demo_ids_def)
  show ?thesis using message_thread_delivers [OF d(4) ins d(1-3)] unfolding inp .
qed

end
