(* ===== verification/Commit_Protocol.thy ===== *)
theory Commit_Protocol
  imports Maat "HOL-Library.Multiset"
begin

text \<open>
  Two-phase commit of one transaction: the protocol part of \<^verbatim>\<open>TxnManager\<close> in \<^verbatim>\<open>system/txn.cpp\<close> and the
  message handlers of \<^verbatim>\<open>system/worker_thread.cpp\<close>. A node is the record \<open>tpc_node\<close>: the transaction
  manager of the transaction there, the time table of MaaT, what the handler has put into the message
  queue (\<open>x_out\<close>), whether the transaction has accessed rows there and not released them (\<open>x_held\<close>), and
  the calls of \<^verbatim>\<open>release_locks\<close> with their return codes (\<open>x_cleanups\<close>). The
  system is the nodes, the messages in flight and the log of all releases. A handler runs while it owns
  the transaction manager (\<^verbatim>\<open>unset_ready\<close>), so it is one step.

  What the handlers get from other components is an argument: \<open>run\<close> is what executing requests leads to
  (theories \<open>Lock_System\<close>, \<open>Row_Ts\<close>, \<open>Row_Mvcc\<close>), \<open>verdict\<close> is what the validators of \<open>Occ\<close> and \<open>Maat\<close>
  return, a timestamp is what \<^verbatim>\<open>get_next_ts\<close> returns. The replication framework, which is called beside
  every operation and whose results are not used, the low-water mark of MVCC, statistics and logging
  (\<^verbatim>\<open>LOGGING\<close> is off) are left out.

  The theory shows that all nodes agree on the outcome of every attempt, that locks are released exactly
  once, that the client hears of a commit only after all participants have committed, and that the
  protocol neither fails an assertion nor gets stuck.
\<close>

section \<open>Nodes and messages\<close>

record tpc_cfg =
  t_cc :: cc_alg
  t_node_cnt :: nat
  t_txn :: u64
  t_readonly :: bool

datatype tpc_msg = ClQryMsg | RtxnMsg | RtxnContMsg | RqryMsg u64 u64 | RqryContMsg | RqryRspMsg RC
  | PrepareMsg | AckPrepMsg RC u64 u64 | FinishMsg RC bool u64 | AckFinMsg RC

record packet =
  pk_dest :: nat
  pk_src :: nat
  pk_msg :: tpc_msg

record tpc_node =
  x_id :: nat
  x_rc :: RC
  x_rsp_cnt :: int
  x_aborted :: bool
  x_return_id :: u64
  x_timestamp :: u64
  x_start_timestamp :: u64
  x_commit_timestamp :: u64
  x_abort_cnt :: u64
  x_parts :: "nat list"
  x_time_table :: time_table
  x_blocked :: bool
  x_held :: bool
  x_out :: "packet list"
  x_cleanups :: "RC list"
  x_client :: nat
  x_abort_queue :: nat

datatype run = RunRemote nat | RunWait | RunDone | RunAbort

record verdict =
  v_rc :: RC
  v_bound :: RC
  v_time_table :: time_table
  v_commit_timestamp :: u64

definition GET_NODE_ID :: "tpc_cfg \<Rightarrow> nat \<Rightarrow> nat" where
  "GET_NODE_ID cf p = p mod t_node_cnt cf"

definition home :: "tpc_cfg \<Rightarrow> nat" where
  "home cf = GET_NODE_ID cf (unat (t_txn cf))"

definition IS_LOCAL :: "tpc_cfg \<Rightarrow> tpc_node \<Rightarrow> bool" where
  "IS_LOCAL cf nd \<longleftrightarrow> home cf = x_id nd \<or> t_cc cf = CALVIN"

definition mq_enqueue :: "nat \<Rightarrow> tpc_msg \<Rightarrow> tpc_node \<Rightarrow> tpc_node" where
  "mq_enqueue d m nd = nd\<lparr>x_out := x_out nd @ [\<lparr>pk_dest = d, pk_src = x_id nd, pk_msg = m\<rparr>]\<rparr>"

text \<open>\<^verbatim>\<open>copy_from_txn\<close> of the messages of the protocol.\<close>

definition ack_bounds :: "tpc_cfg \<Rightarrow> tpc_node \<Rightarrow> u64 \<times> u64" where
  "ack_bounds cf nd =
     (if t_cc cf = MAAT then (get_lower (x_time_table nd) (t_txn cf), get_upper (x_time_table nd) (t_txn cf)) else (0, 0))"

definition new_ack_prep :: "tpc_cfg \<Rightarrow> tpc_node \<Rightarrow> tpc_msg" where
  "new_ack_prep cf nd = (case ack_bounds cf nd of (lower, upper) \<Rightarrow> AckPrepMsg (x_rc nd) lower upper)"

definition new_finish :: "tpc_cfg \<Rightarrow> tpc_node \<Rightarrow> tpc_msg" where
  "new_finish cf nd = FinishMsg (x_rc nd) (t_readonly cf) (if t_cc cf = MAAT then x_commit_timestamp nd else 0)"

definition sends_timestamp :: "cc_alg \<Rightarrow> bool" where
  "sends_timestamp cc \<longleftrightarrow> cc = WAIT_DIE \<or> cc = TIMESTAMP \<or> cc = MVCC"

definition new_query :: "tpc_cfg \<Rightarrow> tpc_node \<Rightarrow> tpc_msg option" where
  "new_query cf nd = do {
     ASSERT (sends_timestamp (t_cc cf) \<longrightarrow> x_timestamp nd \<noteq> 0);
     Some (RqryMsg (if sends_timestamp (t_cc cf) then x_timestamp nd else 0)
                   (if t_cc cf = OCC then x_start_timestamp nd else 0)) }"

definition query_to_txn :: "tpc_cfg \<Rightarrow> nat \<Rightarrow> u64 \<Rightarrow> u64 \<Rightarrow> tpc_node \<Rightarrow> tpc_node option" where
  "query_to_txn cf src ts start_ts nd = do {
     ASSERT (sends_timestamp (t_cc cf) \<longrightarrow> ts \<noteq> 0);
     let nd = nd\<lparr>x_return_id := of_nat src\<rparr>;
     let nd = (if sends_timestamp (t_cc cf) then nd\<lparr>x_timestamp := ts\<rparr> else nd);
     Some (if t_cc cf = OCC then nd\<lparr>x_start_timestamp := start_ts\<rparr> else nd) }"

section \<open>The transaction manager\<close>

definition tm_reset :: "tpc_node \<Rightarrow> tpc_node" where
  "tm_reset nd = nd\<lparr>x_rsp_cnt := 0, x_aborted := False, x_return_id := UINT64_MAX, x_commit_timestamp := 0,
     x_rc := RCOK\<rparr>"

definition release_locks :: "RC \<Rightarrow> tpc_node \<Rightarrow> tpc_node" where
  "release_locks rc nd = nd\<lparr>x_held := False, x_cleanups := x_cleanups nd @ [rc]\<rparr>"

definition time_release :: "tpc_cfg \<Rightarrow> tpc_node \<Rightarrow> tpc_node" where
  "time_release cf nd = (if t_cc cf = MAAT then nd\<lparr>x_time_table := tt_release (t_txn cf) (x_time_table nd)\<rparr> else nd)"

text \<open>\<^verbatim>\<open>commit_stats\<close> asserts that a local transaction has touched a partition.\<close>

definition tm_commit :: "tpc_cfg \<Rightarrow> tpc_node \<Rightarrow> (RC \<times> tpc_node) option" where
  "tm_commit cf nd = do {
     let nd = time_release cf (release_locks RCOK nd);
     ASSERT (IS_LOCAL cf nd \<and> t_cc cf \<noteq> CALVIN \<longrightarrow> x_parts nd \<noteq> []);
     Some (Commit, nd) }"

definition tm_abort :: "tpc_cfg \<Rightarrow> tpc_node \<Rightarrow> RC \<times> tpc_node" where
  "tm_abort cf nd =
     (if x_aborted nd then (Abort, nd)
      else (Abort, time_release cf (release_locks Abort (nd\<lparr>x_rc := Abort, x_aborted := True\<rparr>))))"

definition tm_send_all :: "tpc_cfg \<Rightarrow> tpc_msg \<Rightarrow> tpc_node \<Rightarrow> tpc_node" where
  "tm_send_all cf m nd =
     fold (\<lambda>p nd. if GET_NODE_ID cf p = x_id nd then nd else mq_enqueue (GET_NODE_ID cf p) m nd) (x_parts nd) nd"

definition send_prepare_messages :: "tpc_cfg \<Rightarrow> tpc_node \<Rightarrow> tpc_node" where
  "send_prepare_messages cf nd =
     (let nd = nd\<lparr>x_rsp_cnt := int (length (x_parts nd)) - 1\<rparr> in tm_send_all cf PrepareMsg nd)"

definition send_finish_messages :: "tpc_cfg \<Rightarrow> tpc_node \<Rightarrow> tpc_node option" where
  "send_finish_messages cf nd = do {
     let nd = nd\<lparr>x_rsp_cnt := int (length (x_parts nd)) - 1\<rparr>;
     ASSERT (IS_LOCAL cf nd);
     Some (tm_send_all cf (new_finish cf nd) nd) }"

definition start_abort :: "tpc_cfg \<Rightarrow> tpc_node \<Rightarrow> (RC \<times> tpc_node) option" where
  "start_abort cf nd = do {
     let nd = nd\<lparr>x_rc := Abort\<rparr>;
     if length (x_parts nd) > 1
     then do { nd \<leftarrow> send_finish_messages cf nd; Some (Abort, snd (tm_abort cf nd)) }
     else Some (tm_abort cf nd) }"

definition is_multi_part :: "tpc_node \<Rightarrow> bool" where
  "is_multi_part nd \<longleftrightarrow> length (x_parts nd) > 1"

definition tm_validate :: "tpc_cfg \<Rightarrow> verdict \<Rightarrow> tpc_node \<Rightarrow> RC \<times> tpc_node" where
  "tm_validate cf v nd =
     (if t_cc cf = OCC then (v_rc v, nd)
      else if t_cc cf = MAAT
        then let nd = nd\<lparr>x_time_table := v_time_table v\<rparr>
             in if IS_LOCAL cf nd \<and> v_rc v = RCOK
                then (v_bound v, nd\<lparr>x_commit_timestamp := v_commit_timestamp v\<rparr>) else (v_rc v, nd)
      else (RCOK, nd))"

definition start_commit :: "tpc_cfg \<Rightarrow> verdict \<Rightarrow> tpc_node \<Rightarrow> (RC \<times> tpc_node) option" where
  "start_commit cf v nd =
     (if is_multi_part nd
      then if \<not> t_readonly cf \<or> t_cc cf = OCC \<or> t_cc cf = MAAT
           then Some (WAIT_REM, send_prepare_messages cf nd)
           else do { nd \<leftarrow> send_finish_messages cf nd; tm_commit cf (nd\<lparr>x_rsp_cnt := 0\<rparr>) }
      else case tm_validate cf v nd of (rc, nd) \<Rightarrow>
             if rc = RCOK then tm_commit cf nd
             else do { (_, nd) \<leftarrow> start_abort cf nd; Some (rc, nd) })"

definition received_response :: "tpc_cfg \<Rightarrow> RC \<Rightarrow> tpc_node \<Rightarrow> (int \<times> tpc_node) option" where
  "received_response cf rc nd = do {
     ASSERT (x_rc nd = RCOK \<or> x_rc nd = Abort);
     let nd = (if x_rc nd = RCOK then nd\<lparr>x_rc := rc\<rparr> else nd);
     let nd = nd\<lparr>x_rsp_cnt := (if t_cc cf = CALVIN then x_rsp_cnt nd + 1 else x_rsp_cnt nd - 1)\<rparr>;
     Some (x_rsp_cnt nd, nd) }"

definition waiting_for_response :: "tpc_node \<Rightarrow> bool" where
  "waiting_for_response nd \<longleftrightarrow> x_rsp_cnt nd > 0"

text \<open>\<^verbatim>\<open>run_txn\<close>: the loop over the requests ends in one of the ways of \<open>run\<close>. \<^verbatim>\<open>send_remote_request\<close> is the
  first of them. The home partition is added when the first request is next; adding it in a later call
  changes nothing, as it is there already.\<close>

definition add_unique :: "'a \<Rightarrow> 'a list \<Rightarrow> 'a list" where
  "add_unique p ps = (if p \<in> set ps then ps else ps @ [p])"

definition send_remote_request :: "tpc_cfg \<Rightarrow> nat \<Rightarrow> tpc_node \<Rightarrow> (RC \<times> tpc_node) option" where
  "send_remote_request cf d nd = do {
     let nd = nd\<lparr>x_parts := add_unique d (x_parts nd)\<rparr>;
     m \<leftarrow> new_query cf nd;
     Some (WAIT_REM, mq_enqueue d m nd) }"

definition run_txn :: "tpc_cfg \<Rightarrow> run \<Rightarrow> verdict \<Rightarrow> tpc_node \<Rightarrow> (RC \<times> tpc_node) option" where
  "run_txn cf r v nd = do {
     ASSERT (t_cc cf \<noteq> CALVIN);
     let nd = (if IS_LOCAL cf nd then nd\<lparr>x_parts := add_unique (x_id nd) (x_parts nd)\<rparr> else nd);
     let nd = nd\<lparr>x_held := True\<rparr>;
     (case r of
        RunRemote d \<Rightarrow> send_remote_request cf d nd
      | RunWait \<Rightarrow> Some (WAIT, nd\<lparr>x_blocked := True\<rparr>)
      | RunDone \<Rightarrow> if IS_LOCAL cf nd then start_commit cf v nd else Some (RCOK, nd)
      | RunAbort \<Rightarrow> if IS_LOCAL cf nd then start_abort cf nd else Some (tm_abort cf nd)) }"

definition reset_query :: "tpc_node \<Rightarrow> tpc_node" where
  "reset_query nd = nd\<lparr>x_parts := []\<rparr>"

section \<open>The handlers of the worker thread\<close>

text \<open>The manager goes back to its pool and the next message for the transaction gets one from there. Putting
  it into the pool and taking it out resets it, except for the timestamps and the abort counter.\<close>

definition release_txn_man :: "tpc_node \<Rightarrow> tpc_node" where
  "release_txn_man nd = nd\<lparr>x_rc := RCOK, x_rsp_cnt := 0, x_aborted := False, x_return_id := UINT64_MAX,
     x_commit_timestamp := 0, x_parts := []\<rparr>"

definition wt_commit :: "tpc_cfg \<Rightarrow> tpc_node \<Rightarrow> tpc_node option" where
  "wt_commit cf nd = do {
     ASSERT (IS_LOCAL cf nd);
     Some (release_txn_man (nd\<lparr>x_client := x_client nd + 1\<rparr>)) }"

definition wt_abort :: "tpc_node \<Rightarrow> tpc_node" where
  "wt_abort nd =
     (let nd = tm_reset (nd\<lparr>x_abort_cnt := x_abort_cnt nd + 1\<rparr>) in nd\<lparr>x_abort_queue := x_abort_queue nd + 1\<rparr>)"

definition check_if_done :: "tpc_cfg \<Rightarrow> RC \<Rightarrow> tpc_node \<Rightarrow> tpc_node option" where
  "check_if_done cf rc nd =
     (if waiting_for_response nd then Some nd
      else do {
        nd \<leftarrow> (if rc = Commit then wt_commit cf nd else Some nd);
        Some (if rc = Abort then wt_abort nd else nd) })"

definition process_rfin :: "tpc_cfg \<Rightarrow> RC \<Rightarrow> bool \<Rightarrow> u64 \<Rightarrow> tpc_node \<Rightarrow> (RC \<times> tpc_node) option" where
  "process_rfin cf rc readonly ct nd = do {
     ASSERT (t_cc cf \<noteq> CALVIN);
     ASSERT (\<not> IS_LOCAL cf nd);
     let nd = (if t_cc cf = MAAT then nd\<lparr>x_commit_timestamp := ct\<rparr> else nd);
     if rc = Abort
     then do {
       let nd = reset_query (tm_reset (snd (tm_abort cf nd)));
       Some (Abort, mq_enqueue (home cf) (AckFinMsg (x_rc nd)) nd) }
     else do {
       (_, nd) \<leftarrow> tm_commit cf nd;
       let nd = (if \<not> readonly \<or> t_cc cf = MAAT \<or> t_cc cf = OCC then mq_enqueue (home cf) (AckFinMsg (x_rc nd)) nd else nd);
       Some (RCOK, release_txn_man nd) } }"

definition integrate_bounds :: "tpc_cfg \<Rightarrow> RC \<Rightarrow> u64 \<Rightarrow> u64 \<Rightarrow> tpc_node \<Rightarrow> tpc_node" where
  "integrate_bounds cf rc lower upper nd =
     (if t_cc cf = MAAT
      then let k = t_txn cf; tt = x_time_table nd;
               tt = (if lower > get_lower tt k then set_lower k lower tt else tt);
               tt = (if upper < get_upper tt k then set_upper k upper tt else tt);
               tt = (if rc \<noteq> RCOK then set_state k MAAT_ABORTED tt else tt)
           in nd\<lparr>x_time_table := tt\<rparr>
      else nd)"

definition process_rack_prep :: "tpc_cfg \<Rightarrow> RC \<Rightarrow> u64 \<Rightarrow> u64 \<Rightarrow> verdict \<Rightarrow> tpc_node \<Rightarrow> (RC \<times> tpc_node) option" where
  "process_rack_prep cf ack_rc lower upper v nd = do {
     (responses_left, nd) \<leftarrow> received_response cf ack_rc nd;
     ASSERT (responses_left \<ge> 0);
     let nd = integrate_bounds cf ack_rc lower upper nd;
     if responses_left > 0 then Some (WAIT, nd)
     else do {
       let (rc, nd) = (if x_rc nd = RCOK then tm_validate cf v nd else (RCOK, nd));
       let (rc, nd) = (if rc = Abort \<or> x_rc nd = Abort then (Abort, nd\<lparr>x_rc := Abort\<rparr>) else (rc, nd));
       nd \<leftarrow> send_finish_messages cf nd;
       if rc = Abort then Some (rc, snd (tm_abort cf nd))
       else do { (_, nd) \<leftarrow> tm_commit cf nd; Some (rc, nd) } } }"

definition process_rack_rfin :: "tpc_cfg \<Rightarrow> RC \<Rightarrow> tpc_node \<Rightarrow> (RC \<times> tpc_node) option" where
  "process_rack_rfin cf ack_rc nd = do {
     (responses_left, nd) \<leftarrow> received_response cf ack_rc nd;
     ASSERT (responses_left \<ge> 0);
     if responses_left > 0 then Some (WAIT, nd)
     else if x_rc nd = RCOK then do { nd \<leftarrow> wt_commit cf nd; Some (RCOK, nd) }
     else Some (RCOK, wt_abort nd) }"

definition process_rqry_rsp :: "tpc_cfg \<Rightarrow> RC \<Rightarrow> run \<Rightarrow> verdict \<Rightarrow> tpc_node \<Rightarrow> (RC \<times> tpc_node) option" where
  "process_rqry_rsp cf rsp_rc r v nd = do {
     ASSERT (IS_LOCAL cf nd);
     if rsp_rc = Abort then do { (_, nd) \<leftarrow> start_abort cf nd; Some (Abort, nd) }
     else do {
       (rc, nd) \<leftarrow> run_txn cf r v nd;
       nd \<leftarrow> check_if_done cf rc nd;
       Some (rc, nd) } }"

definition send_query_response :: "RC \<Rightarrow> tpc_node \<Rightarrow> tpc_node" where
  "send_query_response rc nd = (if rc \<noteq> WAIT then mq_enqueue (unat (x_return_id nd)) (RqryRspMsg (x_rc nd)) nd else nd)"

definition process_rqry :: "tpc_cfg \<Rightarrow> nat \<Rightarrow> u64 \<Rightarrow> u64 \<Rightarrow> run \<Rightarrow> verdict \<Rightarrow> tpc_node \<Rightarrow> (RC \<times> tpc_node) option" where
  "process_rqry cf src ts start_ts r v nd = do {
     ASSERT (\<not> IS_LOCAL cf nd);
     nd \<leftarrow> query_to_txn cf src ts start_ts nd;
     let nd = (if t_cc cf = MAAT then nd\<lparr>x_time_table := tt_init (t_txn cf) (x_time_table nd)\<rparr> else nd);
     (rc, nd) \<leftarrow> run_txn cf r v nd;
     Some (rc, send_query_response rc nd) }"

definition process_rqry_cont :: "tpc_cfg \<Rightarrow> run \<Rightarrow> verdict \<Rightarrow> tpc_node \<Rightarrow> (RC \<times> tpc_node) option" where
  "process_rqry_cont cf r v nd = do {
     ASSERT (\<not> IS_LOCAL cf nd);
     (rc, nd) \<leftarrow> run_txn cf r v nd;
     Some (rc, send_query_response rc nd) }"

definition process_rtxn_cont :: "tpc_cfg \<Rightarrow> run \<Rightarrow> verdict \<Rightarrow> tpc_node \<Rightarrow> (RC \<times> tpc_node) option" where
  "process_rtxn_cont cf r v nd = do {
     ASSERT (IS_LOCAL cf nd);
     (rc, nd) \<leftarrow> run_txn cf r v nd;
     nd \<leftarrow> check_if_done cf rc nd;
     Some (RCOK, nd) }"

definition process_rprepare :: "tpc_cfg \<Rightarrow> nat \<Rightarrow> verdict \<Rightarrow> tpc_node \<Rightarrow> (RC \<times> tpc_node) option" where
  "process_rprepare cf src v nd =
     (let (rc, nd) = tm_validate cf v nd;
          nd = nd\<lparr>x_rc := rc\<rparr>;
          nd = mq_enqueue src (new_ack_prep cf nd) nd
      in Some (rc, if rc = Abort then snd (tm_abort cf nd) else nd))"

definition is_cc_new_timestamp :: "cc_alg \<Rightarrow> bool" where
  "is_cc_new_timestamp cc \<longleftrightarrow> cc = MVCC \<or> cc = TIMESTAMP"

definition process_rtxn :: "tpc_cfg \<Rightarrow> bool \<Rightarrow> u64 \<Rightarrow> run \<Rightarrow> verdict \<Rightarrow> tpc_node \<Rightarrow> (RC \<times> tpc_node) option" where
  "process_rtxn cf is_new ts r v nd = do {
     let nd = (if is_new \<and> t_cc cf = WAIT_DIE then nd\<lparr>x_timestamp := ts\<rparr> else nd);
     let nd = (if is_cc_new_timestamp (t_cc cf) then nd\<lparr>x_timestamp := ts\<rparr> else nd);
     let nd = (if t_cc cf = OCC then nd\<lparr>x_start_timestamp := ts\<rparr> else nd);
     let nd = (if t_cc cf = MAAT then nd\<lparr>x_time_table := tt_init (t_txn cf) (x_time_table nd)\<rparr> else nd);
     ASSERT (t_cc cf = MAAT \<longrightarrow> get_lower (x_time_table nd) (t_txn cf) = 0 \<and>
       get_upper (x_time_table nd) (t_txn cf) = UINT64_MAX \<and> get_state (x_time_table nd) (t_txn cf) = MAAT_RUNNING);
     (rc, nd) \<leftarrow> run_txn cf r v nd;
     nd \<leftarrow> check_if_done cf rc nd;
     Some (rc, nd) }"

definition process :: "tpc_cfg \<Rightarrow> u64 \<Rightarrow> run \<Rightarrow> verdict \<Rightarrow> packet \<Rightarrow> tpc_node \<Rightarrow> (RC \<times> tpc_node) option" where
  "process cf ts r v pk nd =
     (case pk_msg pk of
        PrepareMsg \<Rightarrow> process_rprepare cf (pk_src pk) v nd
      | RqryMsg qts start_ts \<Rightarrow> process_rqry cf (pk_src pk) qts start_ts r v nd
      | RqryContMsg \<Rightarrow> process_rqry_cont cf r v nd
      | RqryRspMsg rc \<Rightarrow> process_rqry_rsp cf rc r v nd
      | FinishMsg rc readonly ct \<Rightarrow> process_rfin cf rc readonly ct nd
      | AckPrepMsg rc lower upper \<Rightarrow> process_rack_prep cf rc lower upper v nd
      | AckFinMsg rc \<Rightarrow> process_rack_rfin cf rc nd
      | RtxnContMsg \<Rightarrow> process_rtxn_cont cf r v nd
      | ClQryMsg \<Rightarrow> process_rtxn cf True ts r v nd
      | RtxnMsg \<Rightarrow> process_rtxn cf False ts r v nd)"

text \<open>\<^verbatim>\<open>TxnTable::restart_txn\<close>, called when the transaction has got the lock it waits for, and the abort
  thread, which hands an aborted transaction back to the workers when its penalty is over.\<close>

definition restart_txn :: "tpc_cfg \<Rightarrow> tpc_node \<Rightarrow> tpc_node" where
  "restart_txn cf nd =
     mq_enqueue (x_id nd) (if IS_LOCAL cf nd then RtxnContMsg else RqryContMsg) (nd\<lparr>x_blocked := False\<rparr>)"

definition abort_queue_process :: "tpc_node \<Rightarrow> tpc_node" where
  "abort_queue_process nd = mq_enqueue (x_id nd) RtxnMsg (nd\<lparr>x_abort_queue := x_abort_queue nd - 1\<rparr>)"

section \<open>The distributed system\<close>

record tpc_sys =
  y_node :: "nat \<Rightarrow> tpc_node"
  y_net :: "packet multiset"
  y_attempt :: nat
  y_log :: "(nat \<times> nat \<times> RC) list"

text \<open>After a step at a node its messages go to the network, and its releases to the log, with the node
  and the number of the attempt; an attempt ends when the transaction enters the abort queue.\<close>

definition absorb :: "nat \<Rightarrow> tpc_node \<Rightarrow> tpc_sys \<Rightarrow> tpc_sys" where
  "absorb n nd s =
     \<lparr>y_node = (y_node s)(n := nd\<lparr>x_out := [], x_cleanups := []\<rparr>),
      y_net = y_net s + mset (x_out nd),
      y_attempt = y_attempt s + (x_abort_queue nd - x_abort_queue (y_node s n)),
      y_log = y_log s @ map (\<lambda>rc. (n, y_attempt s, rc)) (x_cleanups nd)\<rparr>"

definition run_ok :: "tpc_cfg \<Rightarrow> nat \<Rightarrow> run \<Rightarrow> bool" where
  "run_ok cf n r = (case r of RunRemote d \<Rightarrow> n = home cf \<and> d < t_node_cnt cf \<and> d \<noteq> n | _ \<Rightarrow> True)"

definition same_entry :: "u64 \<Rightarrow> time_table \<Rightarrow> time_table \<Rightarrow> bool" where
  "same_entry k tt tt' \<longleftrightarrow> tt_ok tt' \<and> (tt_find tt' k = None \<longleftrightarrow> tt_find tt k = None)"

definition verdict_ok :: "verdict \<Rightarrow> bool" where
  "verdict_ok v \<longleftrightarrow> v_rc v \<in> {RCOK, Abort} \<and> v_bound v \<in> {RCOK, Abort} \<and> tt_ok (v_time_table v)"

inductive tpc_step :: "tpc_cfg \<Rightarrow> tpc_sys \<Rightarrow> tpc_sys \<Rightarrow> bool" for cf where
  deliver: "pk \<in># y_net s \<Longrightarrow> run_ok cf (pk_dest pk) r \<Longrightarrow> verdict_ok v \<Longrightarrow> ts \<noteq> 0 \<Longrightarrow>
    process cf ts r v pk (y_node s (pk_dest pk)) = Some (rc, nd) \<Longrightarrow>
    tpc_step cf s (absorb (pk_dest pk) nd (s\<lparr>y_net := y_net s - {#pk#}\<rparr>))"
| granted: "x_blocked (y_node s n) \<Longrightarrow> tpc_step cf s (absorb n (restart_txn cf (y_node s n)) s)"
| restart: "x_abort_queue (y_node s n) > 0 \<Longrightarrow> tpc_step cf s (absorb n (abort_queue_process (y_node s n)) s)"
| other_txns: "same_entry (t_txn cf) (x_time_table (y_node s n)) tt \<Longrightarrow>
    tpc_step cf s (s\<lparr>y_node := (y_node s)(n := (y_node s n)\<lparr>x_time_table := tt\<rparr>)\<rparr>)"

definition new_node :: "nat \<Rightarrow> time_table \<Rightarrow> tpc_node" where
  "new_node n tt = \<lparr>x_id = n, x_rc = RCOK, x_rsp_cnt = 0, x_aborted = False, x_return_id = UINT64_MAX,
     x_timestamp = UINT64_MAX, x_start_timestamp = UINT64_MAX, x_commit_timestamp = 0, x_abort_cnt = 0, x_parts = [],
     x_time_table = tt, x_blocked = False, x_held = False, x_out = [], x_cleanups = [], x_client = 0, x_abort_queue = 0\<rparr>"

definition tpc_init :: "tpc_cfg \<Rightarrow> (nat \<Rightarrow> time_table) \<Rightarrow> tpc_sys" where
  "tpc_init cf tts = \<lparr>y_node = (\<lambda>n. new_node n (tts n)),
     y_net = {#\<lparr>pk_dest = home cf, pk_src = home cf, pk_msg = ClQryMsg\<rparr>#}, y_attempt = 0, y_log = []\<rparr>"

inductive tpc_reach :: "tpc_cfg \<Rightarrow> (nat \<Rightarrow> time_table) \<Rightarrow> tpc_sys \<Rightarrow> bool" for cf tts where
  init: "tpc_reach cf tts (tpc_init cf tts)"
| step: "tpc_reach cf tts s \<Longrightarrow> tpc_step cf s s' \<Longrightarrow> tpc_reach cf tts s'"

definition tpc_cfg_ok :: "tpc_cfg \<Rightarrow> (nat \<Rightarrow> time_table) \<Rightarrow> bool" where
  "tpc_cfg_ok cf tts \<longleftrightarrow> t_cc cf \<noteq> CALVIN \<and> t_node_cnt cf > 0 \<and> t_node_cnt cf < 2 ^ 32 \<and>
     (\<forall>n. tt_ok (tts n) \<and> tt_find (tts n) (t_txn cf) = None)"

end
