(* ===== verification/Atomic_Commit.thy ===== *)
theory Atomic_Commit
  imports Commit_Protocol
begin

text \<open>
  Two-phase commit is correct. The invariant describes the progress of the home node (\<open>hstat\<close>) and of every
  participant (\<open>rstat\<close>), and with it the messages in flight, the state of the transaction managers and
  the releases of the current attempt. It is kept by every handler; agreement, exactly-once release, the
  guarantee to the client and progress follow from it.
\<close>

section \<open>The invariant\<close>

datatype rstat = Idle | Queried u64 u64 | Blocked | Resumed | Answered RC | Asked | Voted RC u64 u64 | Counted RC
  | Told RC u64 | Acked RC | Fin RC

datatype hstat = HStart bool | HRunning | HBlocked | HResumed | HWaiting | HFailing | HPreparing | HFinishing RC | HDone | HQueued

abbreviation pack :: "nat \<Rightarrow> nat \<Rightarrow> tpc_msg \<Rightarrow> packet" where
  "pack d src m \<equiv> \<lparr>pk_dest = d, pk_src = src, pk_msg = m\<rparr>"

fun rmsgs :: "tpc_cfg \<Rightarrow> nat \<Rightarrow> rstat \<Rightarrow> packet multiset" where
  "rmsgs cf r (Queried ts start_ts) = {#pack r (home cf) (RqryMsg ts start_ts)#}"
| "rmsgs cf r Resumed = {#pack r r RqryContMsg#}"
| "rmsgs cf r (Answered rc) = {#pack (home cf) r (RqryRspMsg rc)#}"
| "rmsgs cf r Asked = {#pack r (home cf) PrepareMsg#}"
| "rmsgs cf r (Voted rc lower upper) = {#pack (home cf) r (AckPrepMsg rc lower upper)#}"
| "rmsgs cf r (Told d ct) = {#pack r (home cf) (FinishMsg d (t_readonly cf) ct)#}"
| "rmsgs cf r (Acked d) = {#pack (home cf) r (AckFinMsg RCOK)#}"
| "rmsgs cf r _ = {#}"

fun hmsgs :: "tpc_cfg \<Rightarrow> hstat \<Rightarrow> packet multiset" where
  "hmsgs cf (HStart b) = {#pack (home cf) (home cf) (if b then ClQryMsg else RtxnMsg)#}"
| "hmsgs cf HResumed = {#pack (home cf) (home cf) RtxnContMsg#}"
| "hmsgs cf _ = {#}"

definition clean :: "tpc_node \<Rightarrow> bool" where
  "clean nd \<longleftrightarrow> x_rc nd = RCOK \<and> \<not> x_aborted nd \<and> \<not> x_blocked nd"

definition dead :: "tpc_node \<Rightarrow> bool" where
  "dead nd \<longleftrightarrow> x_rc nd = Abort \<and> x_aborted nd \<and> \<not> x_blocked nd \<and> \<not> x_held nd"

definition voted_ok :: "RC \<Rightarrow> tpc_node \<Rightarrow> RC set \<Rightarrow> bool" where
  "voted_ok rc nd rel \<longleftrightarrow> (rc = RCOK \<and> clean nd \<and> rel = {}) \<or> (rc = Abort \<and> dead nd \<and> rel = {Abort})"

fun stat_ok :: "tpc_cfg \<Rightarrow> tpc_node \<Rightarrow> RC set \<Rightarrow> rstat \<Rightarrow> bool" where
  "stat_ok cf nd rel (Queried ts _) \<longleftrightarrow> clean nd \<and> rel = {} \<and> (sends_timestamp (t_cc cf) \<longrightarrow> ts \<noteq> 0)"
| "stat_ok cf nd rel Blocked \<longleftrightarrow> x_rc nd = RCOK \<and> \<not> x_aborted nd \<and> x_blocked nd \<and> x_return_id nd = of_nat (home cf) \<and> rel = {}"
| "stat_ok cf nd rel Resumed \<longleftrightarrow> clean nd \<and> x_return_id nd = of_nat (home cf) \<and> rel = {}"
| "stat_ok cf nd rel (Answered rc) \<longleftrightarrow> voted_ok rc nd rel"
| "stat_ok cf nd rel (Voted rc _ _) \<longleftrightarrow> voted_ok rc nd rel"
| "stat_ok cf nd rel (Counted rc) \<longleftrightarrow> voted_ok rc nd rel"
| "stat_ok cf nd rel (Told d _) \<longleftrightarrow> (clean nd \<and> rel = {}) \<or> (d = Abort \<and> dead nd \<and> rel = {Abort})"
| "stat_ok cf nd rel (Acked d) \<longleftrightarrow> clean nd \<and> \<not> x_held nd \<and> rel = {d}"
| "stat_ok cf nd rel (Fin d) \<longleftrightarrow> clean nd \<and> \<not> x_held nd \<and> rel = {d}"
| "stat_ok cf nd rel _ \<longleftrightarrow> clean nd \<and> rel = {}"

definition absent :: "tpc_cfg \<Rightarrow> tpc_node \<Rightarrow> bool" where
  "absent cf nd \<longleftrightarrow> (t_cc cf = MAAT \<longrightarrow> tt_find (x_time_table nd) (t_txn cf) = None)"

fun home_ok :: "tpc_cfg \<Rightarrow> tpc_node \<Rightarrow> RC set \<Rightarrow> hstat \<Rightarrow> bool" where
  "home_ok cf nd rel (HStart b) \<longleftrightarrow> clean nd \<and> x_rsp_cnt nd = 0 \<and> rel = {} \<and> absent cf nd"
| "home_ok cf nd rel HBlocked \<longleftrightarrow> x_rc nd = RCOK \<and> \<not> x_aborted nd \<and> x_blocked nd \<and> x_rsp_cnt nd = 0 \<and> rel = {}"
| "home_ok cf nd rel HPreparing \<longleftrightarrow> \<not> x_aborted nd \<and> \<not> x_blocked nd \<and> rel = {}"
| "home_ok cf nd rel (HFinishing d) \<longleftrightarrow> x_rc nd = d \<and> d \<in> {RCOK, Abort} \<and> \<not> x_blocked nd \<and> \<not> x_held nd \<and> rel = {d} \<and>
     (d = Abort \<longrightarrow> absent cf nd)"
| "home_ok cf nd rel HDone \<longleftrightarrow> clean nd \<and> \<not> x_held nd \<and> rel = {RCOK}"
| "home_ok cf nd rel HQueued \<longleftrightarrow> clean nd \<and> x_rsp_cnt nd = 0 \<and> \<not> x_held nd \<and> rel = {} \<and> absent cf nd"
| "home_ok cf nd rel _ \<longleftrightarrow> clean nd \<and> x_rsp_cnt nd = 0 \<and> rel = {}"

definition acks_finish :: "tpc_cfg \<Rightarrow> bool" where
  "acks_finish cf \<longleftrightarrow> \<not> t_readonly cf \<or> t_cc cf = MAAT \<or> t_cc cf = OCC"

fun querying :: "rstat \<Rightarrow> bool" where
  "querying (Queried _ _) = True"
| "querying Blocked = True"
| "querying Resumed = True"
| "querying (Answered _) = True"
| "querying _ = False"

fun preparing :: "rstat \<Rightarrow> bool" where
  "preparing Asked = True"
| "preparing (Voted _ _ _) = True"
| "preparing (Counted _) = True"
| "preparing _ = False"

fun counted :: "rstat \<Rightarrow> bool" where
  "counted (Counted _) = True"
| "counted _ = False"

fun finishing :: "RC \<Rightarrow> rstat \<Rightarrow> bool" where
  "finishing d (Told d' _) \<longleftrightarrow> d = d'"
| "finishing d (Acked d') \<longleftrightarrow> d = d'"
| "finishing d (Fin d') \<longleftrightarrow> d = d'"
| "finishing d _ = False"

fun compat :: "tpc_cfg \<Rightarrow> tpc_node \<Rightarrow> hstat \<Rightarrow> (nat \<Rightarrow> rstat) \<Rightarrow> nat set \<Rightarrow> bool" where
  "compat cf nd HWaiting st R \<longleftrightarrow> (\<exists>r \<in> R. querying (st r) \<and> (\<forall>x \<in> R - {r}. st x = Idle))"
| "compat cf nd HFailing st R \<longleftrightarrow> (\<forall>r \<in> R. st r = Idle \<or> st r = Counted Abort)"
| "compat cf nd HPreparing st R \<longleftrightarrow> (\<forall>r \<in> R. preparing (st r)) \<and> x_rsp_cnt nd = int (card {r \<in> R. \<not> counted (st r)}) \<and>
     x_rsp_cnt nd > 0 \<and> x_rc nd = (if \<exists>r \<in> R. st r = Counted Abort then Abort else RCOK) \<and> acks_finish cf"
| "compat cf nd (HFinishing d) st R \<longleftrightarrow> (\<forall>r \<in> R. finishing d (st r)) \<and> x_rsp_cnt nd = int (card {r \<in> R. st r \<noteq> Fin d}) \<and>
     x_rsp_cnt nd > 0 \<and> (d = Abort \<or> acks_finish cf)"
| "compat cf nd HDone st R \<longleftrightarrow> (\<forall>r \<in> R. st r = Fin RCOK \<or> (\<exists>ct. st r = Told RCOK ct) \<and> \<not> acks_finish cf)"
| "compat cf nd _ st R \<longleftrightarrow> (\<forall>r \<in> R. st r = Idle)"

definition node_ok :: "nat \<Rightarrow> tpc_node \<Rightarrow> bool" where
  "node_ok n nd \<longleftrightarrow> x_id nd = n \<and> x_out nd = [] \<and> x_cleanups nd = [] \<and> tt_ok (x_time_table nd)"

definition parts_ok :: "tpc_cfg \<Rightarrow> tpc_node \<Rightarrow> hstat \<Rightarrow> nat set \<Rightarrow> bool" where
  "parts_ok cf nd hs R \<longleftrightarrow> distinct (x_parts nd) \<and> set (x_parts nd) \<subseteq> {..<t_node_cnt cf} \<and> R \<subseteq> {..<t_node_cnt cf} - {home cf} \<and>
     x_timestamp nd \<noteq> 0 \<and> (hs \<noteq> HDone \<longrightarrow> R = set (x_parts nd) - {home cf}) \<and>
     (hs \<in> {HBlocked, HResumed, HWaiting, HFailing, HPreparing} \<or> (\<exists>d. hs = HFinishing d) \<longrightarrow> home cf \<in> set (x_parts nd)) \<and>
     x_client nd = (if hs = HDone then 1 else 0) \<and> x_abort_queue nd = (if hs = HQueued then 1 else 0)"

definition rel :: "tpc_sys \<Rightarrow> nat \<Rightarrow> RC set" where
  "rel s n = {rc. (n, y_attempt s, rc) \<in> set (y_log s)}"

definition log_ok :: "tpc_sys \<Rightarrow> bool" where
  "log_ok s \<longleftrightarrow> (\<forall>n b rc. (n, b, rc) \<in> set (y_log s) \<longrightarrow> b \<le> y_attempt s \<and> (b < y_attempt s \<longrightarrow> rc = Abort)) \<and>
     distinct (map (\<lambda>(n, b, _). (n, b)) (y_log s))"

definition tpc_inv :: "tpc_cfg \<Rightarrow> hstat \<Rightarrow> (nat \<Rightarrow> rstat) \<Rightarrow> nat set \<Rightarrow> tpc_sys \<Rightarrow> bool" where
  "tpc_inv cf hs st R s \<longleftrightarrow> (\<forall>n. node_ok n (y_node s n)) \<and> log_ok s \<and>
     parts_ok cf (y_node s (home cf)) hs R \<and>
     y_net s = hmsgs cf hs + (\<Sum>r \<in> R. rmsgs cf r (st r)) \<and>
     home_ok cf (y_node s (home cf)) (rel s (home cf)) hs \<and>
     compat cf (y_node s (home cf)) hs st R \<and>
     (\<forall>r \<in> R. stat_ok cf (y_node s r) (rel s r) (st r)) \<and>
     (\<forall>n. n \<notin> R \<longrightarrow> n \<noteq> home cf \<longrightarrow> clean (y_node s n) \<and> \<not> x_held (y_node s n) \<and> rel s n = {}) \<and>
     (\<forall>n. n \<noteq> home cf \<longrightarrow> x_abort_queue (y_node s n) = 0 \<and> x_client (y_node s n) = 0)"

lemma rel_absorb:
  assumes "x_abort_queue nd \<le> x_abort_queue (y_node s n)"
  shows "rel (absorb n nd s) m = (if m = n then rel s n \<union> set (x_cleanups nd) else rel s m)"
  using assms by (auto simp: rel_def absorb_def)

lemma rel_next:
  assumes "log_ok s" "x_abort_queue nd > x_abort_queue (y_node s n)"
  shows "rel (absorb n nd s) m = {}"
proof -
  have "y_attempt s < y_attempt (absorb n nd s)" using assms(2) by (simp add: absorb_def)
  moreover have "b \<le> y_attempt s" if "(n', b, rc) \<in> set (y_log (absorb n nd s))" for n' b rc
    using assms(1) that by (auto simp: log_ok_def absorb_def)
  ultimately show ?thesis unfolding rel_def by (metis (mono_tags, lifting) Collect_empty_eq leD)
qed

lemma log_ok_absorb:
  assumes ok: "log_ok s" and c: "x_cleanups nd = [] \<or> (\<exists>rc. x_cleanups nd = [rc] \<and> rel s n = {})"
    and a: "x_abort_queue nd > x_abort_queue (y_node s n) \<longrightarrow> (\<forall>m. rel s m \<subseteq> {Abort}) \<and> set (x_cleanups nd) \<subseteq> {Abort}"
  shows "log_ok (absorb n nd s)"
proof -
  have "n' \<noteq> n \<or> b \<noteq> y_attempt s" if "x_cleanups nd \<noteq> []" "(n', b, rc') \<in> set (y_log s)" for n' b rc'
    using c that by (auto simp: rel_def)
  moreover have "rc' = Abort" if e: "(n', b, rc') \<in> set (y_log s)" and b: "b < y_attempt (absorb n nd s)" for n' b rc'
  proof (cases "b < y_attempt s")
    case False
    with e ok have "b = y_attempt s" by (fastforce simp: log_ok_def)
    with e b a show ?thesis by (auto simp: absorb_def rel_def)
  qed (use ok e in \<open>auto simp: log_ok_def\<close>)
  moreover have "b \<le> y_attempt (absorb n nd s)" if "(n', b, rc') \<in> set (y_log s)" for n' b rc'
    using ok that by (fastforce simp: log_ok_def absorb_def)
  moreover have "rc' = Abort" if "rc' \<in> set (x_cleanups nd)" "y_attempt s < y_attempt (absorb n nd s)" for rc'
    using that a by (auto simp: absorb_def)
  moreover have "distinct (map (\<lambda>(n, b, _). (n, b)) (y_log (absorb n nd s)))"
    using ok c by (auto simp: log_ok_def absorb_def rel_def)
  ultimately show ?thesis unfolding log_ok_def by (auto simp: absorb_def)
qed

lemma net_update:
  assumes "finite R" "r \<in> R" "net = h + (\<Sum>x \<in> R. f x (st x))"
  shows "net - f r (st r) + (m :: 'a multiset) = h + (\<Sum>x \<in> R - {r}. f x (st x)) + m"
proof -
  have "net = f r (st r) + (h + (\<Sum>x \<in> R - {r}. f x (st x)))"
    unfolding assms(3) sum.remove [OF assms(1,2)] by (rule add.left_commute)
  then show ?thesis by simp
qed

lemma sum_fun_upd:
  assumes "finite R" "r \<in> R"
  shows "(\<Sum>x \<in> R. f x ((st(r := q)) x)) = (\<Sum>x \<in> R - {r}. f x (st x)) + (f r q :: 'a multiset)"
proof -
  have "(\<Sum>x \<in> R - {r}. f x ((st(r := q)) x)) = (\<Sum>x \<in> R - {r}. f x (st x))" by (rule sum.cong) auto
  then show ?thesis unfolding sum.remove [OF assms] by (simp add: add.commute)
qed

lemma node_upd [simp]:
  "stat_ok cf (nd\<lparr>x_out := xs, x_cleanups := cs\<rparr>) a q = stat_ok cf nd a q"
  "home_ok cf (nd\<lparr>x_out := xs, x_cleanups := cs\<rparr>) a hs = home_ok cf nd a hs"
  "compat cf (nd\<lparr>x_out := xs, x_cleanups := cs\<rparr>) hs st R = compat cf nd hs st R"
  "parts_ok cf (nd\<lparr>x_out := xs, x_cleanups := cs\<rparr>) hs R = parts_ok cf nd hs R"
  "clean (nd\<lparr>x_out := xs, x_cleanups := cs\<rparr>) = clean nd" "absent cf (nd\<lparr>x_out := xs, x_cleanups := cs\<rparr>) = absent cf nd"
  by ((cases q; simp add: clean_def dead_def voted_ok_def), (cases hs; simp add: clean_def absent_def),
      (cases hs; simp), simp_all add: parts_ok_def clean_def absent_def)

lemma tpc_invD:
  assumes "tpc_inv cf hs st R s"
  shows "node_ok n (y_node s n)" "log_ok s" "parts_ok cf (y_node s (home cf)) hs R"
    "y_net s = hmsgs cf hs + (\<Sum>r \<in> R. rmsgs cf r (st r))" "home_ok cf (y_node s (home cf)) (rel s (home cf)) hs"
    "compat cf (y_node s (home cf)) hs st R" "r \<in> R \<Longrightarrow> stat_ok cf (y_node s r) (rel s r) (st r)"
    "n \<notin> R \<Longrightarrow> n \<noteq> home cf \<Longrightarrow> clean (y_node s n) \<and> \<not> x_held (y_node s n) \<and> rel s n = {}"
    "n \<noteq> home cf \<Longrightarrow> x_abort_queue (y_node s n) = 0" "n \<noteq> home cf \<Longrightarrow> x_client (y_node s n) = 0"
    "finite R" "home cf \<notin> R" "r \<in> R \<Longrightarrow> r \<noteq> home cf"
proof -
  have R: "R \<subseteq> {..<t_node_cnt cf} - {home cf}" using assms by (simp add: tpc_inv_def parts_ok_def)
  then show "finite R" by (rule finite_subset) simp
  show "home cf \<notin> R" "r \<in> R \<Longrightarrow> r \<noteq> home cf" using R by blast+
qed (use assms in \<open>simp_all add: tpc_inv_def\<close>)

lemma tpc_invI:
  assumes "\<And>n. node_ok n (y_node s n)" "log_ok s" "parts_ok cf (y_node s (home cf)) hs R"
    "y_net s = hmsgs cf hs + (\<Sum>r \<in> R. rmsgs cf r (st r))" "home_ok cf (y_node s (home cf)) (rel s (home cf)) hs"
    "compat cf (y_node s (home cf)) hs st R" "\<And>r. r \<in> R \<Longrightarrow> stat_ok cf (y_node s r) (rel s r) (st r)"
    "\<And>n. n \<notin> R \<Longrightarrow> n \<noteq> home cf \<Longrightarrow> clean (y_node s n) \<and> \<not> x_held (y_node s n) \<and> rel s n = {}"
    "\<And>n. n \<noteq> home cf \<Longrightarrow> x_abort_queue (y_node s n) = 0 \<and> x_client (y_node s n) = 0"
  shows "tpc_inv cf hs st R s"
  unfolding tpc_inv_def by (intro conjI allI impI ballI) (use assms in simp_all)

lemma rel_net [simp]: "rel (s\<lparr>y_net := x\<rparr>) = rel s"
  by (simp add: rel_def fun_eq_iff)

lemma log_ok_net [simp]: "log_ok (s\<lparr>y_net := x\<rparr>) = log_ok s"
  by (simp add: log_ok_def)

lemma absorb_simps [simp]:
  "y_node (absorb n nd s) = (y_node s)(n := nd\<lparr>x_out := [], x_cleanups := []\<rparr>)"
  "y_net (absorb n nd s) = y_net s + mset (x_out nd)"
  by (simp_all add: absorb_def)

lemma remote_step:
  assumes inv: "tpc_inv cf hs st R s" and r: "r \<in> R"
    and nd: "x_id nd = r" "tt_ok (x_time_table nd)" "x_abort_queue nd = 0" "x_client nd = 0"
    and out: "mset (x_out nd) = rmsgs cf r q"
    and cl: "x_cleanups nd = [] \<or> (\<exists>rc. x_cleanups nd = [rc] \<and> rel s r = {})"
    and st: "stat_ok cf nd (rel s r \<union> set (x_cleanups nd)) q"
    and co: "compat cf (y_node s (home cf)) hs (st(r := q)) R"
  shows "tpc_inv cf hs (st(r := q)) R (absorb r nd (s\<lparr>y_net := y_net s - rmsgs cf r (st r)\<rparr>))"
proof -
  note I = tpc_invD [OF inv]
  let ?s = "s\<lparr>y_net := y_net s - rmsgs cf r (st r)\<rparr>"
  have ne: "r \<noteq> home cf" using I(13) r .
  have q: "x_abort_queue nd \<le> x_abort_queue (y_node ?s r)" using nd(3) by simp
  have rel': "rel (absorb r nd ?s) m = (if m = r then rel s r \<union> set (x_cleanups nd) else rel s m)" for m
    using rel_absorb [OF q] by simp
  have "log_ok (absorb r nd ?s)" using I(2) cl q by (intro log_ok_absorb) auto
  moreover have "y_net s - rmsgs cf r (st r) + mset (x_out nd) = hmsgs cf hs + (\<Sum>x \<in> R. rmsgs cf x ((st(r := q)) x))"
    unfolding net_update [of R r _ _ "rmsgs cf", OF I(11) r I(4)] sum_fun_upd [OF I(11) r] out by (simp add: union_assoc)
  ultimately show ?thesis
  proof (intro tpc_invI)
    show "node_ok n (y_node (absorb r nd ?s) n)" for n using I(1) nd by (simp add: node_ok_def)
    show "stat_ok cf (y_node (absorb r nd ?s) x) (rel (absorb r nd ?s) x) ((st(r := q)) x)" if "x \<in> R" for x
      using I(7) st that unfolding rel' by simp
    show "clean (y_node (absorb r nd ?s) n) \<and> \<not> x_held (y_node (absorb r nd ?s) n) \<and> rel (absorb r nd ?s) n = {}"
      if "n \<notin> R" "n \<noteq> home cf" for n using I(8) that r unfolding rel' by (cases "n = r") simp_all
  qed (use I(3,5,9,10) nd ne co in \<open>simp_all add: rel'\<close>)
qed

lemma home_step:
  assumes inv: "tpc_inv cf hs st R s"
    and nd: "x_id nd = home cf" "tt_ok (x_time_table nd)" "parts_ok cf nd hs' R'" "hs' \<noteq> HQueued"
    and net: "net + mset (x_out nd) = hmsgs cf hs' + (\<Sum>r \<in> R'. rmsgs cf r (st' r))"
    and cl: "x_cleanups nd = [] \<or> (\<exists>rc. x_cleanups nd = [rc] \<and> rel s (home cf) = {})"
    and ho: "home_ok cf nd (rel s (home cf) \<union> set (x_cleanups nd)) hs'"
    and co: "compat cf nd hs' st' R'" and R: "R \<subseteq> R'"
    and st: "\<And>r. r \<in> R' \<Longrightarrow> stat_ok cf (y_node s r) (rel s r) (st' r)"
  shows "tpc_inv cf hs' st' R' (absorb (home cf) nd (s\<lparr>y_net := net\<rparr>))"
proof -
  note I = tpc_invD [OF inv]
  let ?s = "s\<lparr>y_net := net\<rparr>"
  have q: "x_abort_queue nd \<le> x_abort_queue (y_node ?s (home cf))" using nd(3,4) by (simp add: parts_ok_def)
  have rel': "rel (absorb (home cf) nd ?s) m = (if m = home cf then rel s (home cf) \<union> set (x_cleanups nd) else rel s m)" for m
    using rel_absorb [OF q] by simp
  have "log_ok (absorb (home cf) nd ?s)" using I(2) cl q by (intro log_ok_absorb) auto
  moreover have "home cf \<notin> R'" using nd(3) by (auto simp: parts_ok_def)
  ultimately show ?thesis
  proof (intro tpc_invI)
    show "node_ok n (y_node (absorb (home cf) nd ?s) n)" for n using I(1) nd by (simp add: node_ok_def)
    show "stat_ok cf (y_node (absorb (home cf) nd ?s) r) (rel (absorb (home cf) nd ?s) r) (st' r)" if "r \<in> R'" for r
      using st that nd(3) unfolding rel' by (auto simp: parts_ok_def)
    show "clean (y_node (absorb (home cf) nd ?s) n) \<and> \<not> x_held (y_node (absorb (home cf) nd ?s) n) \<and>
        rel (absorb (home cf) nd ?s) n = {}" if "n \<notin> R'" "n \<noteq> home cf" for n
      using I(8) [of n] R that unfolding rel' by auto
    show "parts_ok cf (y_node (absorb (home cf) nd ?s) (home cf)) hs' R'" using nd(3) by simp
    show "home_ok cf (y_node (absorb (home cf) nd ?s) (home cf)) (rel (absorb (home cf) nd ?s) (home cf)) hs'"
      unfolding rel' using ho by simp
    show "compat cf (y_node (absorb (home cf) nd ?s) (home cf)) hs' st' R'" using co by simp
    show "y_net (absorb (home cf) nd ?s) = hmsgs cf hs' + (\<Sum>r \<in> R'. rmsgs cf r (st' r))" using net by simp
  qed (use I(9,10) in simp_all)
qed

lemma home_requeue:
  assumes inv: "tpc_inv cf hs st R s" and hs: "hs \<noteq> HQueued"
    and nd: "x_id nd = home cf" "tt_ok (x_time_table nd)" "parts_ok cf nd HQueued R" "x_out nd = []"
    and ab: "\<And>m. rel s m \<subseteq> {Abort}" "set (x_cleanups nd) \<subseteq> {Abort}"
    and cl: "x_cleanups nd = [] \<or> (\<exists>rc. x_cleanups nd = [rc] \<and> rel s (home cf) = {})"
    and ho: "home_ok cf nd {} HQueued"
    and st: "\<And>r. r \<in> R \<Longrightarrow> clean (y_node s r)"
  shows "tpc_inv cf HQueued (\<lambda>_. Idle) R (absorb (home cf) nd (s\<lparr>y_net := {#}\<rparr>))"
proof -
  note I = tpc_invD [OF inv]
  let ?s = "s\<lparr>y_net := {#}\<rparr>"
  have q: "x_abort_queue nd > x_abort_queue (y_node ?s (home cf))" using nd(3) I(3) hs by (simp add: parts_ok_def)
  have rel': "rel (absorb (home cf) nd ?s) m = {}" for m using rel_next [OF _ q] I(2) by simp
  have "log_ok (absorb (home cf) nd ?s)" using I(2) cl ab by (intro log_ok_absorb) auto
  then show ?thesis
  proof (intro tpc_invI)
    show "node_ok n (y_node (absorb (home cf) nd ?s) n)" for n using I(1) nd by (simp add: node_ok_def)
    show "stat_ok cf (y_node (absorb (home cf) nd ?s) r) (rel (absorb (home cf) nd ?s) r) Idle" if "r \<in> R" for r
      using st that I(12) unfolding rel' by auto
  qed (use I(8,9,10) nd ho in \<open>simp_all add: rel'\<close>)
qed

section \<open>Steps of a participant\<close>

definition remote_result :: "tpc_cfg \<Rightarrow> tpc_node \<Rightarrow> RC set \<Rightarrow> tpc_node \<Rightarrow> rstat \<Rightarrow> bool" where
  "remote_result cf nd a nd' q \<longleftrightarrow> x_id nd' = x_id nd \<and> tt_ok (x_time_table nd') \<and> x_abort_queue nd' = x_abort_queue nd \<and>
     x_client nd' = x_client nd \<and> mset (x_out nd') = rmsgs cf (x_id nd) q \<and>
     (x_cleanups nd' = [] \<or> (\<exists>rc. x_cleanups nd' = [rc] \<and> a = {})) \<and> stat_ok cf nd' (a \<union> set (x_cleanups nd')) q"

lemma tt_ok_time_release: "tt_ok (x_time_table nd) \<Longrightarrow> tt_ok (x_time_table (time_release cf nd))"
  by (simp add: time_release_def time_map.ok_del)

lemma time_release_fields [simp]:
  "x_id (time_release cf nd) = x_id nd" "x_rc (time_release cf nd) = x_rc nd" "x_rsp_cnt (time_release cf nd) = x_rsp_cnt nd"
  "x_aborted (time_release cf nd) = x_aborted nd" "x_blocked (time_release cf nd) = x_blocked nd"
  "x_held (time_release cf nd) = x_held nd" "x_out (time_release cf nd) = x_out nd" "x_parts (time_release cf nd) = x_parts nd"
  "x_cleanups (time_release cf nd) = x_cleanups nd" "x_client (time_release cf nd) = x_client nd"
  "x_abort_queue (time_release cf nd) = x_abort_queue nd" "x_return_id (time_release cf nd) = x_return_id nd"
  "x_timestamp (time_release cf nd) = x_timestamp nd"
  by (simp_all add: time_release_def)

lemmas manager_defs = tm_abort_def release_locks_def mq_enqueue_def tm_reset_def reset_query_def release_txn_man_def

lemma IS_LOCAL_iff: "t_cc cf \<noteq> CALVIN \<Longrightarrow> IS_LOCAL cf nd \<longleftrightarrow> x_id nd = home cf"
  by (auto simp: IS_LOCAL_def)

definition home_small :: "tpc_cfg \<Rightarrow> bool" where
  "home_small cf \<longleftrightarrow> unat (of_nat (home cf) :: u64) = home cf"

lemma remote_run:
  assumes nd: "x_id nd \<noteq> home cf" "t_cc cf \<noteq> CALVIN" "x_out nd = []" "x_cleanups nd = []" "tt_ok (x_time_table nd)"
    and c: "clean nd" "x_return_id nd = of_nat (home cf)" and r: "run_ok cf (x_id nd) r" and h: "home_small cf"
  shows "\<exists>rc nd' q. run_txn cf r v nd = Some (rc, nd') \<and> remote_result cf nd {} (send_query_response rc nd') q \<and> querying q"
proof (cases r)
  case RunWait
  then show ?thesis using nd c h
    by (intro exI [of _ WAIT] exI [of _ "nd\<lparr>x_held := True, x_blocked := True\<rparr>"] exI [of _ Blocked])
      (simp add: run_txn_def IS_LOCAL_iff home_small_def send_query_response_def remote_result_def clean_def)
next
  case RunDone
  then show ?thesis using nd c h
    by (intro exI [of _ RCOK] exI [of _ "nd\<lparr>x_held := True\<rparr>"] exI [of _ "Answered RCOK"])
      (simp add: run_txn_def IS_LOCAL_iff home_small_def send_query_response_def remote_result_def clean_def voted_ok_def
        mq_enqueue_def)
next
  case RunAbort
  then show ?thesis using nd c h tt_ok_time_release [of "release_locks Abort (nd\<lparr>x_held := True, x_rc := Abort, x_aborted := True\<rparr>)" cf]
    by (intro exI [of _ Abort] exI [of _ "snd (tm_abort cf (nd\<lparr>x_held := True\<rparr>))"] exI [of _ "Answered Abort"])
      (simp add: run_txn_def IS_LOCAL_iff home_small_def send_query_response_def remote_result_def clean_def dead_def voted_ok_def
        manager_defs)
qed (use r nd in \<open>simp add: run_ok_def\<close>)

lemma remote_rqry:
  assumes nd: "x_id nd \<noteq> home cf" "t_cc cf \<noteq> CALVIN" "x_out nd = []" "x_cleanups nd = []" "tt_ok (x_time_table nd)"
    and c: "stat_ok cf nd a (Queried ts start_ts)" and r: "run_ok cf (x_id nd) r" and h: "home_small cf"
  shows "\<exists>rc nd' q. process_rqry cf (home cf) ts start_ts r v nd = Some (rc, nd') \<and> remote_result cf nd a nd' q \<and> querying q"
proof -
  define nd1 where "nd1 = (let nd = nd\<lparr>x_return_id := of_nat (home cf)\<rparr>;
    nd = (if sends_timestamp (t_cc cf) then nd\<lparr>x_timestamp := ts\<rparr> else nd);
    nd = (if t_cc cf = OCC then nd\<lparr>x_start_timestamp := start_ts\<rparr> else nd)
    in if t_cc cf = MAAT then nd\<lparr>x_time_table := tt_init (t_txn cf) (x_time_table nd)\<rparr> else nd)"
  have f: "x_id nd1 = x_id nd" "x_out nd1 = []" "x_cleanups nd1 = []" "tt_ok (x_time_table nd1)" "clean nd1"
    "x_return_id nd1 = of_nat (home cf)" "x_abort_queue nd1 = x_abort_queue nd" "x_client nd1 = x_client nd"
    using nd c tt_init_lookup(1) [OF nd(5)] by (auto simp: nd1_def Let_def clean_def)
  from remote_run [of nd1 cf r v] f nd r h obtain rc nd' q where run: "run_txn cf r v nd1 = Some (rc, nd')"
    "remote_result cf nd1 {} (send_query_response rc nd') q" "querying q" by auto
  have "process_rqry cf (home cf) ts start_ts r v nd = Some (rc, send_query_response rc nd')"
    using nd c run(1) by (simp add: process_rqry_def query_to_txn_def IS_LOCAL_iff nd1_def Let_def)
  moreover have "remote_result cf nd a (send_query_response rc nd') q" using run(2) c f by (simp add: remote_result_def)
  ultimately show ?thesis using run(3) by blast
qed

lemma remote_rqry_cont:
  assumes nd: "x_id nd \<noteq> home cf" "t_cc cf \<noteq> CALVIN" "x_out nd = []" "x_cleanups nd = []" "tt_ok (x_time_table nd)"
    and c: "stat_ok cf nd a Resumed" and r: "run_ok cf (x_id nd) r" and h: "home_small cf"
  shows "\<exists>rc nd' q. process_rqry_cont cf r v nd = Some (rc, nd') \<and> remote_result cf nd a nd' q \<and> querying q"
  using remote_run [of nd cf r v] nd c r h by (auto simp: process_rqry_cont_def IS_LOCAL_iff)

lemma tm_validate_fields [simp]:
  "x_id (snd (tm_validate cf v nd)) = x_id nd" "x_rc (snd (tm_validate cf v nd)) = x_rc nd"
  "x_rsp_cnt (snd (tm_validate cf v nd)) = x_rsp_cnt nd" "x_aborted (snd (tm_validate cf v nd)) = x_aborted nd"
  "x_blocked (snd (tm_validate cf v nd)) = x_blocked nd" "x_held (snd (tm_validate cf v nd)) = x_held nd"
  "x_out (snd (tm_validate cf v nd)) = x_out nd" "x_parts (snd (tm_validate cf v nd)) = x_parts nd"
  "x_cleanups (snd (tm_validate cf v nd)) = x_cleanups nd" "x_client (snd (tm_validate cf v nd)) = x_client nd"
  "x_abort_queue (snd (tm_validate cf v nd)) = x_abort_queue nd" "x_timestamp (snd (tm_validate cf v nd)) = x_timestamp nd"
  by (simp_all add: tm_validate_def Let_def)

lemma tm_validate_ok:
  assumes "verdict_ok v" "tt_ok (x_time_table nd)"
  shows "fst (tm_validate cf v nd) \<in> {RCOK, Abort}" "tt_ok (x_time_table (snd (tm_validate cf v nd)))"
  using assms by (auto simp: tm_validate_def Let_def verdict_ok_def)

lemma remote_prepare:
  assumes nd: "x_id nd \<noteq> home cf" "x_out nd = []" "x_cleanups nd = []" "tt_ok (x_time_table nd)"
    and c: "stat_ok cf nd a Asked" and v: "verdict_ok v"
  shows "\<exists>rc nd' lower upper. process_rprepare cf (home cf) v nd = Some (rc, nd') \<and>
    remote_result cf nd a nd' (Voted rc lower upper)"
proof -
  obtain rc nd1 where val: "tm_validate cf v nd = (rc, nd1)" by (cases "tm_validate cf v nd")
  note f = tm_validate_fields [of cf v nd, unfolded val snd_conv] and ok = tm_validate_ok [of v nd cf, OF v nd(4), unfolded val fst_conv snd_conv]
  obtain lower upper where b: "ack_bounds cf (nd1\<lparr>x_rc := rc\<rparr>) = (lower, upper)" by (cases "ack_bounds cf (nd1\<lparr>x_rc := rc\<rparr>)")
  define nd2 where "nd2 = mq_enqueue (home cf) (AckPrepMsg rc lower upper) (nd1\<lparr>x_rc := rc\<rparr>)"
  have eq: "process_rprepare cf (home cf) v nd = Some (rc, if rc = Abort then snd (tm_abort cf nd2) else nd2)"
    by (simp add: process_rprepare_def val new_ack_prep_def b nd2_def)
  have "tt_ok (x_time_table (snd (tm_abort cf nd2)))"
    using ok(2) by (simp add: tm_abort_def nd2_def mq_enqueue_def release_locks_def tt_ok_time_release)
  then have "remote_result cf nd a (if rc = Abort then snd (tm_abort cf nd2) else nd2) (Voted rc lower upper)"
    using nd c f ok by (auto simp: remote_result_def nd2_def manager_defs voted_ok_def clean_def dead_def)
  with eq show ?thesis by blast
qed

lemma remote_finish:
  assumes nd: "x_id nd \<noteq> home cf" "t_cc cf \<noteq> CALVIN" "x_out nd = []" "x_cleanups nd = []" "tt_ok (x_time_table nd)"
    and c: "stat_ok cf nd a (Told d ct)" and d: "d \<in> {RCOK, Abort}"
  shows "\<exists>rc nd'. process_rfin cf d (t_readonly cf) ct nd = Some (rc, nd') \<and>
    remote_result cf nd a nd' (if d = Abort \<or> acks_finish cf then Acked d else Fin d)"
proof (cases "d = Abort")
  case True
  define nd1 where "nd1 = (if t_cc cf = MAAT then nd\<lparr>x_commit_timestamp := ct\<rparr> else nd)"
  have eq: "process_rfin cf d (t_readonly cf) ct nd =
      Some (Abort, mq_enqueue (home cf) (AckFinMsg RCOK) (reset_query (tm_reset (snd (tm_abort cf nd1)))))"
    using True nd by (simp add: process_rfin_def IS_LOCAL_iff nd1_def Let_def reset_query_def tm_reset_def)
  have "tt_ok (x_time_table (snd (tm_abort cf nd1)))"
    using nd by (simp add: tm_abort_def nd1_def release_locks_def tt_ok_time_release)
  then show ?thesis unfolding eq using True nd c
    by (auto simp: remote_result_def nd1_def manager_defs clean_def dead_def)
next
  case False
  define nd1 where "nd1 = (if t_cc cf = MAAT then nd\<lparr>x_commit_timestamp := ct\<rparr> else nd)"
  define nd2 where "nd2 = time_release cf (release_locks RCOK nd1)"
  have eq: "process_rfin cf d (t_readonly cf) ct nd =
      Some (RCOK, release_txn_man (if acks_finish cf then mq_enqueue (home cf) (AckFinMsg (x_rc nd2)) nd2 else nd2))"
    using False nd by (simp add: process_rfin_def tm_commit_def IS_LOCAL_iff nd1_def nd2_def Let_def acks_finish_def
        release_locks_def)
  have "tt_ok (x_time_table nd2)" "x_rc nd2 = RCOK"
    using nd c False by (auto simp: nd2_def nd1_def release_locks_def tt_ok_time_release clean_def)
  then show ?thesis unfolding eq using False nd c d
    by (auto simp: remote_result_def nd1_def nd2_def manager_defs clean_def)
qed

lemma remote_restart:
  assumes nd: "x_id nd \<noteq> home cf" "t_cc cf \<noteq> CALVIN" "x_out nd = []" "x_cleanups nd = []" "tt_ok (x_time_table nd)"
    and c: "stat_ok cf nd a Blocked"
  shows "remote_result cf nd a (restart_txn cf nd) Resumed"
  using assms by (simp add: restart_txn_def IS_LOCAL_iff remote_result_def mq_enqueue_def clean_def)

lemma remote_result_step:
  assumes inv: "tpc_inv cf hs st R s" and r: "r \<in> R" and res: "remote_result cf (y_node s r) (rel s r) nd q"
    and co: "compat cf (y_node s (home cf)) hs (st(r := q)) R"
  shows "tpc_inv cf hs (st(r := q)) R (absorb r nd (s\<lparr>y_net := y_net s - rmsgs cf r (st r)\<rparr>))"
  using res tpc_invD [OF inv] r unfolding remote_result_def node_ok_def
  by (intro remote_step [OF inv r _ _ _ _ _ _ _ co]) simp_all

section \<open>Steps of the home node\<close>

lemma tm_send_all_eq:
  "tm_send_all cf m nd = nd\<lparr>x_out := x_out nd @ map (\<lambda>p. pack (GET_NODE_ID cf p) (x_id nd) m)
     (filter (\<lambda>p. GET_NODE_ID cf p \<noteq> x_id nd) (x_parts nd))\<rparr>"
proof -
  have "fold (\<lambda>p nd. if GET_NODE_ID cf p = x_id nd then nd else mq_enqueue (GET_NODE_ID cf p) m nd) ps nd =
    nd\<lparr>x_out := x_out nd @ map (\<lambda>p. pack (GET_NODE_ID cf p) (x_id nd) m) (filter (\<lambda>p. GET_NODE_ID cf p \<noteq> x_id nd) ps)\<rparr>" for ps
    by (induction ps arbitrary: nd) (simp_all add: mq_enqueue_def)
  then show ?thesis by (simp add: tm_send_all_def)
qed

definition ready :: "tpc_cfg \<Rightarrow> tpc_node \<Rightarrow> bool" where
  "ready cf nd \<longleftrightarrow> x_id nd = home cf \<and> x_out nd = [] \<and> x_cleanups nd = [] \<and> tt_ok (x_time_table nd) \<and> \<not> x_aborted nd \<and> \<not> x_blocked nd \<and>
     distinct (x_parts nd) \<and> set (x_parts nd) \<subseteq> {..<t_node_cnt cf} \<and> home cf \<in> set (x_parts nd) \<and>
     x_timestamp nd \<noteq> 0 \<and> x_client nd = 0 \<and> x_abort_queue nd = 0"

lemma mset_to_all:
  assumes "distinct ps" "set ps \<subseteq> {..<t_node_cnt cf}"
  shows "mset (map (\<lambda>p. pack (GET_NODE_ID cf p) h m) (filter (\<lambda>p. GET_NODE_ID cf p \<noteq> h) ps)) =
    (\<Sum>r \<in> set ps - {h}. {#pack r h m#})"
  using assms
proof (induction ps)
  case (Cons p ps)
  have p: "GET_NODE_ID cf p = p" using Cons.prems by (simp add: GET_NODE_ID_def)
  show ?case
  proof (cases "p = h")
    case False
    then have "set (p # ps) - {h} = insert p (set ps - {h})" by auto
    then show ?thesis using Cons False p by simp
  qed (use Cons p in simp)
qed simp

lemma card_parts:
  assumes "distinct ps" "h \<in> set ps"
  shows "int (length ps) - 1 = int (card (set ps - {h}))" "length ps > 1 \<longleftrightarrow> set ps - {h} \<noteq> {}"
proof -
  have c: "length ps = Suc (card (set ps - {h}))" using assms by (metis card_Suc_Diff1 List.finite_set distinct_card)
  then show "int (length ps) - 1 = int (card (set ps - {h}))" by simp
  show "length ps > 1 \<longleftrightarrow> set ps - {h} \<noteq> {}" unfolding c by (auto simp: card_gt_0_iff)
qed

lemma send_finish_eq:
  assumes "ready cf nd"
  shows "send_finish_messages cf nd = Some (nd\<lparr>x_rsp_cnt := int (card (set (x_parts nd) - {home cf})),
    x_out := map (\<lambda>p. pack (GET_NODE_ID cf p) (home cf) (new_finish cf nd)) (filter (\<lambda>p. GET_NODE_ID cf p \<noteq> home cf) (x_parts nd))\<rparr>)"
  using assms card_parts(1) [of "x_parts nd" "home cf"]
  by (simp add: send_finish_messages_def ready_def IS_LOCAL_def tm_send_all_eq new_finish_def)

lemma absent_release: "tt_ok (x_time_table nd) \<Longrightarrow> absent cf (time_release cf nd)"
  by (simp add: absent_def time_release_def time_map.lookup_del)

lemma running_net:
  assumes inv: "tpc_inv cf hs st R s" and hs: "hs \<in> {HRunning, HFailing}"
  shows "y_net s = {#}" "s\<lparr>y_net := {#}\<rparr> = s" "rel s (home cf) = {}"
    "\<And>r. r \<in> R \<Longrightarrow> stat_ok cf (y_node s r) (rel s r) (Told Abort ct)"
proof -
  note I = tpc_invD [OF inv]
  have st: "st r = Idle \<or> st r = Counted Abort" if "r \<in> R" for r using I(6) hs that by auto
  have "rmsgs cf r (st r) = {#}" if "r \<in> R" for r using st [OF that] by auto
  then have "(\<Sum>r \<in> R. rmsgs cf r (st r)) = {#}" by (simp add: sum.neutral)
  with I(4) hs show net: "y_net s = {#}" by auto
  show "s\<lparr>y_net := {#}\<rparr> = s" using net by (cases s) simp
  show "rel s (home cf) = {}" using I(5) hs by auto
  show "stat_ok cf (y_node s r) (rel s r) (Told Abort ct)" if "r \<in> R" for r
    using I(7) [OF that] st [OF that] by (auto simp: voted_ok_def)
qed

lemma home_abort:
  assumes inv: "tpc_inv cf hs st R s" and hs: "hs \<in> {HRunning, HFailing}" and nd: "ready cf nd" "x_rsp_cnt nd = 0"
    and R: "R = set (x_parts nd) - {home cf}"
  shows "\<exists>nd'. start_abort cf nd = Some (Abort, nd') \<and>
    (if R = {} then \<not> waiting_for_response nd' \<and> tpc_inv cf HQueued (\<lambda>_. Idle) R (absorb (home cf) (wt_abort nd') s)
     else waiting_for_response nd' \<and> (\<exists>ct. tpc_inv cf (HFinishing Abort) (\<lambda>_. Told Abort ct) R (absorb (home cf) nd' s)))"
proof -
  note I = tpc_invD [OF inv] and net = running_net [OF inv hs]
  note multi = card_parts(2) [of "x_parts nd" "home cf"]
  have rdy: "ready cf (nd\<lparr>x_rc := Abort\<rparr>)" using nd(1) by (simp add: ready_def)
  show ?thesis
  proof (cases "R = {}")
    case True
    define nd' where "nd' = time_release cf (release_locks Abort (nd\<lparr>x_rc := Abort, x_aborted := True\<rparr>))"
    have tt: "tt_ok (x_time_table nd')" "absent cf nd'"
      using nd(1) by (auto simp: nd'_def ready_def release_locks_def intro!: tt_ok_time_release absent_release)
    have "start_abort cf nd = Some (Abort, nd')"
      using True R nd(1) multi by (simp add: start_abort_def ready_def tm_abort_def nd'_def)
    moreover have "tpc_inv cf HQueued (\<lambda>_. Idle) R (absorb (home cf) (wt_abort nd') (s\<lparr>y_net := {#}\<rparr>))"
    proof (rule home_requeue [OF inv])
      show "rel s m \<subseteq> {Abort}" for m using I(8) [of m] net(3) True by (cases "m = home cf") auto
    qed (use True R hs nd tt net(3) in \<open>auto simp: wt_abort_def tm_reset_def nd'_def release_locks_def ready_def parts_ok_def clean_def
        absent_def\<close>)
    ultimately show ?thesis using True nd(2) unfolding net(2) by (auto simp: waiting_for_response_def nd'_def release_locks_def)
  next
    case False
    define nd1 where "nd1 = nd\<lparr>x_rc := Abort, x_rsp_cnt := int (card R),
      x_out := map (\<lambda>p. pack (GET_NODE_ID cf p) (home cf) (new_finish cf (nd\<lparr>x_rc := Abort\<rparr>)))
        (filter (\<lambda>p. GET_NODE_ID cf p \<noteq> home cf) (x_parts nd))\<rparr>"
    define nd' where "nd' = snd (tm_abort cf nd1)"
    define ct where "ct = (if t_cc cf = MAAT then x_commit_timestamp nd else 0)"
    have tt: "tt_ok (x_time_table nd')" "absent cf nd'"
      using nd(1) by (auto simp: nd'_def nd1_def tm_abort_def ready_def release_locks_def intro!: tt_ok_time_release absent_release)
    have eq: "start_abort cf nd = Some (Abort, nd')"
      using False R nd(1) multi send_finish_eq [OF rdy]
      by (simp add: start_abort_def ready_def nd'_def nd1_def Let_def)
    have pos: "card R > 0" using False I(11) by (simp add: card_gt_0_iff)
    have fin: "new_finish cf (nd\<lparr>x_rc := Abort\<rparr>) = FinishMsg Abort (t_readonly cf) ct" by (simp add: new_finish_def ct_def)
    have out: "mset (x_out nd') = (\<Sum>r \<in> R. rmsgs cf r (Told Abort ct))"
      using mset_to_all [of "x_parts nd" cf "home cf" "FinishMsg Abort (t_readonly cf) ct"] nd(1) R
      by (simp add: nd'_def nd1_def tm_abort_def release_locks_def fin ready_def)
    have "tpc_inv cf (HFinishing Abort) (\<lambda>_. Told Abort ct) R (absorb (home cf) nd' (s\<lparr>y_net := {#}\<rparr>))"
    proof (rule home_step [OF inv])
      show "parts_ok cf nd' (HFinishing Abort) R"
        using nd(1) R by (auto simp: parts_ok_def nd'_def nd1_def tm_abort_def release_locks_def ready_def)
    qed (use nd tt net pos out in \<open>auto simp: nd'_def nd1_def tm_abort_def release_locks_def ready_def\<close>)
    with eq False pos show ?thesis unfolding net(2) by (auto simp: waiting_for_response_def nd'_def nd1_def tm_abort_def release_locks_def)
  qed
qed

definition settled_step :: "tpc_cfg \<Rightarrow> tpc_node option \<Rightarrow> tpc_sys \<Rightarrow> bool" where
  "settled_step cf res s \<longleftrightarrow> (\<exists>nd hs st R. res = Some nd \<and> hs \<notin> {HRunning, HFailing} \<and> tpc_inv cf hs st R (absorb (home cf) nd s))"

lemma settled_stepI:
  "res = Some nd \<Longrightarrow> hs \<notin> {HRunning, HFailing} \<Longrightarrow> tpc_inv cf hs st R (absorb (home cf) nd s) \<Longrightarrow> settled_step cf res s"
  by (auto simp: settled_step_def)

lemma home_done:
  assumes inv: "tpc_inv cf HRunning st R s" and nd: "x_id nd = home cf" "tt_ok (x_time_table nd)" "\<not> x_blocked nd"
    "x_cleanups nd = []" "x_client nd = 0" "x_abort_queue nd = 0" "mset (x_out nd) = (\<Sum>r \<in> R. rmsgs cf r (Told RCOK ct))"
    and ts: "x_timestamp nd \<noteq> 0" and ro: "R \<noteq> {} \<longrightarrow> \<not> acks_finish cf"
  shows "tpc_inv cf HDone (\<lambda>_. Told RCOK ct) R (absorb (home cf)
     (release_txn_man ((time_release cf (release_locks RCOK nd))\<lparr>x_client := x_client (time_release cf (release_locks RCOK nd)) + 1\<rparr>)) s)"
    (is "tpc_inv _ _ _ _ (absorb _ ?nd s)")
proof -
  have net: "y_net s = {#}" "s\<lparr>y_net := {#}\<rparr> = s" "rel s (home cf) = {}" using running_net(1-3) [OF inv] by auto
  note I = tpc_invD [OF inv]
  have tt: "tt_ok (x_time_table (time_release cf (release_locks RCOK nd)))"
    using nd(2) by (intro tt_ok_time_release) (simp add: release_locks_def)
  have clean: "clean (y_node s r)" "rel s r = {}" if "r \<in> R" for r using I(6) I(7) [OF that] that by auto
  have R: "R \<subseteq> {..<t_node_cnt cf} - {home cf}" using I(3) unfolding parts_ok_def by blast
  have "tpc_inv cf HDone (\<lambda>_. Told RCOK ct) R (absorb (home cf) ?nd (s\<lparr>y_net := {#}\<rparr>))"
    by (rule home_step [OF inv])
      (use nd ts tt clean ro R net(3) in \<open>auto simp: release_txn_man_def release_locks_def parts_ok_def clean_def\<close>)
  then show ?thesis unfolding net(2) .
qed

lemma home_commit:
  assumes inv: "tpc_inv cf HRunning st R s" and cc: "t_cc cf \<noteq> CALVIN" and nd: "ready cf nd" "x_rsp_cnt nd = 0" "x_rc nd = RCOK"
    and R: "R = set (x_parts nd) - {home cf}" and v: "verdict_ok v"
  shows "settled_step cf (do { (rc, nd) \<leftarrow> start_commit cf v nd; check_if_done cf rc nd }) s"
proof -
  note I = tpc_invD [OF inv]
  have net: "y_net s = {#}" "s\<lparr>y_net := {#}\<rparr> = s" "rel s (home cf) = {}" using running_net(1-3) [OF inv] by auto
  note multi = card_parts [of "x_parts nd" "home cf"]
  have clean: "clean (y_node s r) \<and> rel s r = {}" if "r \<in> R" for r using I(6) I(7) [OF that] that by auto
  show ?thesis
  proof (cases "R = {}")
    case True
    then have single: "\<not> is_multi_part nd" using R nd(1) multi(2) by (simp add: is_multi_part_def ready_def)
    obtain rc nd1 where val: "tm_validate cf v nd = (rc, nd1)" by (cases "tm_validate cf v nd")
    note f = tm_validate_fields [of cf v nd, unfolded val snd_conv]
    have ok: "rc \<in> {RCOK, Abort}" "tt_ok (x_time_table nd1)"
      using tm_validate_ok [of v nd cf, OF v] nd(1) unfolding val by (auto simp: ready_def)
    have rdy: "ready cf nd1" using nd(1) f ok(2) by (simp add: ready_def)
    show ?thesis
    proof (cases "rc = RCOK")
      case rcok: True
      have "do { (rc, nd) \<leftarrow> start_commit cf v nd; check_if_done cf rc nd } =
          Some (release_txn_man ((time_release cf (release_locks RCOK nd1))\<lparr>x_client := x_client (time_release cf (release_locks RCOK nd1)) + 1\<rparr>))"
        using single val rcok rdy f nd(2) cc
        by (auto simp: start_commit_def tm_commit_def ready_def check_if_done_def wt_commit_def waiting_for_response_def
            IS_LOCAL_def release_locks_def Let_def)
      moreover have "mset (x_out nd1) = (\<Sum>r \<in> R. rmsgs cf r (Told RCOK 0))" using True rdy by (simp add: ready_def)
      ultimately show ?thesis using home_done [OF inv, of nd1 0] rdy True by (intro settled_stepI) (auto simp: ready_def)
    next
      case False
      with ok have rc: "rc = Abort" by simp
      have "x_rsp_cnt nd1 = 0" "R = set (x_parts nd1) - {home cf}" using f nd(2) R by simp_all
      from home_abort [OF inv insertI1 rdy this, unfolded if_P [OF True]] obtain nd' where
        "start_abort cf nd1 = Some (Abort, nd')" "\<not> waiting_for_response nd'"
        "tpc_inv cf HQueued (\<lambda>_. Idle) R (absorb (home cf) (wt_abort nd') s)" by blast
      with single val rc show ?thesis
        by (intro settled_stepI [of _ "wt_abort nd'" HQueued]) (simp_all add: start_commit_def check_if_done_def)
    qed
  next
    case False
    then have m: "is_multi_part nd" using R nd(1) multi(2) by (simp add: is_multi_part_def ready_def)
    have pos: "card R > 0" using False I(11) by (simp add: card_gt_0_iff)
    show ?thesis
    proof (cases "acks_finish cf")
      case True
      define nd' where "nd' = send_prepare_messages cf nd"
      have nd': "nd' = nd\<lparr>x_rsp_cnt := int (card R), x_out := map (\<lambda>p. pack (GET_NODE_ID cf p) (home cf) PrepareMsg)
          (filter (\<lambda>p. GET_NODE_ID cf p \<noteq> home cf) (x_parts nd))\<rparr>"
        using nd(1) R multi(1) by (simp add: nd'_def send_prepare_messages_def tm_send_all_eq ready_def)
      have out: "mset (x_out nd') = (\<Sum>r \<in> R. rmsgs cf r Asked)"
        using mset_to_all [of "x_parts nd" cf "home cf" PrepareMsg] nd(1) R by (simp add: nd' ready_def)
      have "tpc_inv cf HPreparing (\<lambda>_. Asked) R (absorb (home cf) nd' (s\<lparr>y_net := {#}\<rparr>))"
      proof (rule home_step [OF inv])
        show "compat cf nd' HPreparing (\<lambda>_. Asked) R" using pos nd(3) True by (simp add: nd')
      qed (use nd R net out clean in \<open>auto simp: nd' ready_def parts_ok_def clean_def\<close>)
      moreover have "do { (rc, nd) \<leftarrow> start_commit cf v nd; check_if_done cf rc nd } = Some nd'"
        using m True pos by (auto simp: start_commit_def acks_finish_def check_if_done_def waiting_for_response_def
            nd'_def [symmetric] nd')
      ultimately show ?thesis unfolding net(2) by (intro settled_stepI [of _ nd' HPreparing]) simp_all
    next
      case False
      define ct where "ct = (if t_cc cf = MAAT then x_commit_timestamp nd else 0)"
      define nd1 where "nd1 = nd\<lparr>x_out := map (\<lambda>p. pack (GET_NODE_ID cf p) (home cf) (new_finish cf nd))
          (filter (\<lambda>p. GET_NODE_ID cf p \<noteq> home cf) (x_parts nd)), x_rsp_cnt := 0\<rparr>"
      have fin: "new_finish cf nd = FinishMsg RCOK (t_readonly cf) ct" using nd(3) by (simp add: new_finish_def ct_def)
      have "mset (x_out nd1) = (\<Sum>r \<in> R. rmsgs cf r (Told RCOK ct))"
        using mset_to_all [of "x_parts nd" cf "home cf" "FinishMsg RCOK (t_readonly cf) ct"] nd R
        by (simp add: nd1_def fin ready_def)
      moreover have "do { (rc, nd) \<leftarrow> start_commit cf v nd; check_if_done cf rc nd } =
          Some (release_txn_man ((time_release cf (release_locks RCOK nd1))\<lparr>x_client := x_client (time_release cf (release_locks RCOK nd1)) + 1\<rparr>))"
        using m False send_finish_eq [OF nd(1)] nd(1) cc
        by (auto simp: start_commit_def acks_finish_def tm_commit_def ready_def check_if_done_def wt_commit_def
            waiting_for_response_def IS_LOCAL_def release_locks_def Let_def nd1_def)
      ultimately show ?thesis using home_done [OF inv, of nd1 ct] nd(1) False
        by (intro settled_stepI) (auto simp: ready_def nd1_def)
    qed
  qed
qed

lemma relabel:
  assumes inv: "tpc_inv cf hs st R s" and "parts_ok cf (y_node s (home cf)) hs' R"
    "home_ok cf (y_node s (home cf)) (rel s (home cf)) hs'" "compat cf (y_node s (home cf)) hs' st' R"
    "\<And>r. r \<in> R \<Longrightarrow> stat_ok cf (y_node s r) (rel s r) (st' r)" "net = hmsgs cf hs' + (\<Sum>r \<in> R. rmsgs cf r (st' r))"
  shows "tpc_inv cf hs' st' R (s\<lparr>y_net := net\<rparr>)"
  using tpc_invD [OF inv] assms(2-) by (intro tpc_invI) simp_all

definition home_like :: "tpc_cfg \<Rightarrow> tpc_node \<Rightarrow> tpc_node \<Rightarrow> bool" where
  "home_like cf nd0 nd \<longleftrightarrow> x_id nd = home cf \<and> x_out nd = [] \<and> x_cleanups nd = [] \<and> tt_ok (x_time_table nd) \<and> clean nd \<and>
     x_rsp_cnt nd = 0 \<and> x_client nd = 0 \<and> x_abort_queue nd = 0 \<and> x_timestamp nd \<noteq> 0 \<and> x_parts nd = x_parts nd0"

lemma home_run:
  assumes inv: "tpc_inv cf HRunning st R s" and nd: "home_like cf (y_node s (home cf)) nd"
    and r: "run_ok cf (home cf) r" and v: "verdict_ok v" and cc: "t_cc cf \<noteq> CALVIN" "t_node_cnt cf > 0"
  shows "settled_step cf (do { (rc, nd) \<leftarrow> run_txn cf r v nd; check_if_done cf rc nd }) s"
proof -
  note I = tpc_invD [OF inv]
  have net: "y_net s = {#}" "s\<lparr>y_net := {#}\<rparr> = s" "rel s (home cf) = {}" using running_net(1-3) [OF inv] by auto
  have clean: "clean (y_node s x) \<and> rel s x = {}" if "x \<noteq> home cf" for x
    using I(6) I(7) [of x] I(8) [of x] that by (cases "x \<in> R") auto
  define nd1 where "nd1 = nd\<lparr>x_parts := add_unique (home cf) (x_parts nd), x_held := True\<rparr>"
  have "home cf < t_node_cnt cf" using cc(2) by (simp add: home_def GET_NODE_ID_def)
  then have rdy: "ready cf nd1" and R: "R = set (x_parts nd1) - {home cf}"
    using nd I(3) by (auto simp: nd1_def ready_def home_like_def parts_ok_def add_unique_def clean_def)
  have f: "x_rsp_cnt nd1 = 0" "x_rc nd1 = RCOK" using nd by (simp_all add: nd1_def home_like_def clean_def)
  have run: "run_txn cf r v nd = (case r of
        RunRemote d \<Rightarrow> send_remote_request cf d nd1
      | RunWait \<Rightarrow> Some (WAIT, nd1\<lparr>x_blocked := True\<rparr>)
      | RunDone \<Rightarrow> start_commit cf v nd1
      | RunAbort \<Rightarrow> start_abort cf nd1)"
    using nd cc by (auto simp: run_txn_def nd1_def home_like_def IS_LOCAL_def Let_def split: run.splits)
  show ?thesis
  proof (cases r)
    case (RunRemote d)
    then have d: "d < t_node_cnt cf" "d \<noteq> home cf" using r by (auto simp: run_ok_def)
    define ts where "ts = (if sends_timestamp (t_cc cf) then x_timestamp nd1 else 0)"
    define sts where "sts = (if t_cc cf = OCC then x_start_timestamp nd1 else 0)"
    define nd2 where "nd2 = mq_enqueue d (RqryMsg ts sts) (nd1\<lparr>x_parts := add_unique d (x_parts nd1)\<rparr>)"
    have "do { (rc, nd) \<leftarrow> run_txn cf r v nd; check_if_done cf rc nd } = Some nd2"
      using run RunRemote rdy f by (simp add: send_remote_request_def new_query_def ready_def ts_def sts_def nd2_def
          check_if_done_def waiting_for_response_def mq_enqueue_def)
    moreover have "tpc_inv cf HWaiting ((\<lambda>_. Idle)(d := Queried ts sts)) (insert d R) (absorb (home cf) nd2 (s\<lparr>y_net := {#}\<rparr>))"
    proof (rule home_step [OF inv])
      have "(\<Sum>r \<in> insert d R. rmsgs cf r (((\<lambda>_. Idle)(d := Queried ts sts)) r)) = {#pack d (home cf) (RqryMsg ts sts)#}"
        using sum_fun_upd [of "insert d R" d "rmsgs cf" "\<lambda>_. Idle" "Queried ts sts"] I(11) by simp
      then show "{#} + mset (x_out nd2) = hmsgs cf HWaiting + (\<Sum>r \<in> insert d R. rmsgs cf r (((\<lambda>_. Idle)(d := Queried ts sts)) r))"
        using rdy by (simp add: nd2_def mq_enqueue_def ready_def)
      show "stat_ok cf (y_node s x) (rel s x) (((\<lambda>_. Idle)(d := Queried ts sts)) x)" if "x \<in> insert d R" for x
        using clean [of x] I(12) d that rdy by (auto simp: ts_def ready_def)
      show "parts_ok cf nd2 HWaiting (insert d R)"
        using rdy d R by (auto simp: nd2_def mq_enqueue_def ready_def parts_ok_def add_unique_def)
    qed (use rdy f net in \<open>auto simp: nd2_def mq_enqueue_def ready_def clean_def\<close>)
    ultimately show ?thesis unfolding net(2) by (intro settled_stepI [of _ nd2 HWaiting]) simp_all
  next
    case RunWait
    have "tpc_inv cf HBlocked (\<lambda>_. Idle) R (absorb (home cf) (nd1\<lparr>x_blocked := True\<rparr>) (s\<lparr>y_net := {#}\<rparr>))"
      by (rule home_step [OF inv]) (use rdy f net clean R in \<open>auto simp: ready_def parts_ok_def\<close>)
    moreover have "do { (rc, nd) \<leftarrow> run_txn cf r v nd; check_if_done cf rc nd } = Some (nd1\<lparr>x_blocked := True\<rparr>)"
      using run RunWait f by (simp add: check_if_done_def waiting_for_response_def)
    ultimately show ?thesis unfolding net(2) by (intro settled_stepI [of _ _ HBlocked]) simp_all
  next
    case RunDone
    from home_commit [OF inv cc(1) rdy f R v] RunDone run show ?thesis by simp
  next
    case RunAbort
    from home_abort [OF inv insertI1 rdy f(1) R] obtain nd' where a: "start_abort cf nd1 = Some (Abort, nd')"
      "if R = {} then \<not> waiting_for_response nd' \<and> tpc_inv cf HQueued (\<lambda>_. Idle) R (absorb (home cf) (wt_abort nd') s)
       else waiting_for_response nd' \<and> (\<exists>ct. tpc_inv cf (HFinishing Abort) (\<lambda>_. Told Abort ct) R (absorb (home cf) nd' s))" by blast
    then have "do { (rc, nd) \<leftarrow> run_txn cf r v nd; check_if_done cf rc nd } = Some (if R = {} then wt_abort nd' else nd')"
      using run RunAbort by (cases "R = {}") (simp_all add: check_if_done_def)
    with a(2) show ?thesis
      by (cases "R = {}") (auto intro: settled_stepI [of _ _ HQueued] settled_stepI [of _ _ "HFinishing Abort"])
  qed
qed

abbreviation handled :: "tpc_cfg \<Rightarrow> u64 \<Rightarrow> run \<Rightarrow> verdict \<Rightarrow> packet \<Rightarrow> tpc_sys \<Rightarrow> bool" where
  "handled cf ts r v pk s \<equiv> settled_step cf (map_option snd (process cf ts r v pk (y_node s (home cf)))) (s\<lparr>y_net := y_net s - {#pk#}\<rparr>)"

lemma settled_bind:
  assumes "p = do { (rc, nd) \<leftarrow> run_txn cf r v nd; nd \<leftarrow> check_if_done cf rc nd; Some (g rc, nd) }"
    and "settled_step cf (do { (rc, nd) \<leftarrow> run_txn cf r v nd; check_if_done cf rc nd }) s"
  shows "settled_step cf (map_option snd p) s"
proof (cases "run_txn cf r v nd")
  case (Some x)
  then show ?thesis using assms by (cases x; cases "check_if_done cf (fst x) (snd x)") simp_all
qed (use assms in simp)

lemma home_like_self:
  assumes inv: "tpc_inv cf hs st R s" and "home_ok cf (y_node s (home cf)) (rel s (home cf)) HRunning" "hs \<noteq> HDone" "hs \<noteq> HQueued"
  shows "home_like cf (y_node s (home cf)) (y_node s (home cf))"
  using tpc_invD(1,3) [OF inv] assms(2-) by (auto simp: home_like_def node_ok_def parts_ok_def)

lemma idle_sum: "(\<And>r. r \<in> R \<Longrightarrow> st r = Idle) \<Longrightarrow> (\<Sum>r \<in> R. rmsgs cf r (st r)) = {#}"
  by (simp add: sum.neutral)

lemma home_started:
  assumes inv: "tpc_inv cf (HStart b) st R s" and pk: "pk = pack (home cf) (home cf) (if b then ClQryMsg else RtxnMsg)"
    and r: "run_ok cf (home cf) r" and v: "verdict_ok v" and ts: "ts \<noteq> 0" and cc: "t_cc cf \<noteq> CALVIN" "t_node_cnt cf > 0"
  shows "handled cf ts r v pk s"
proof -
  note I = tpc_invD [OF inv]
  let ?nd = "y_node s (home cf)" and ?s = "s\<lparr>y_net := y_net s - {#pk#}\<rparr>"
  define nd where "nd = (let nd = ?nd; nd = (if b \<and> t_cc cf = WAIT_DIE then nd\<lparr>x_timestamp := ts\<rparr> else nd);
     nd = (if is_cc_new_timestamp (t_cc cf) then nd\<lparr>x_timestamp := ts\<rparr> else nd);
     nd = (if t_cc cf = OCC then nd\<lparr>x_start_timestamp := ts\<rparr> else nd)
     in if t_cc cf = MAAT then nd\<lparr>x_time_table := tt_init (t_txn cf) (x_time_table nd)\<rparr> else nd)"
  have st: "st x = Idle" if "x \<in> R" for x using I(6) that by simp
  have run: "tpc_inv cf HRunning st R ?s"
    using I(3,5,6,7) I(4) pk idle_sum [of R st cf, OF st] by (intro relabel [OF inv]) (auto simp: parts_ok_def)
  have "home_like cf ?nd ?nd" using I(5) by (intro home_like_self [OF inv]) auto
  moreover have "tt_ok (x_time_table ?nd)" using I(1) by (simp add: node_ok_def)
  ultimately have like: "home_like cf (y_node ?s (home cf)) nd"
    using ts by (auto simp: home_like_def nd_def Let_def clean_def tt_init_lookup)
  have "t_cc cf = MAAT \<longrightarrow> tt_find (x_time_table nd) (t_txn cf) = Some (time_entry_init (t_txn cf))"
    using I(1,5) by (auto simp: nd_def absent_def node_ok_def tt_init_lookup Let_def)
  then have "process cf ts r v pk ?nd = do { (rc, nd) \<leftarrow> run_txn cf r v nd; nd \<leftarrow> check_if_done cf rc nd; Some (rc, nd) }"
    unfolding process_def process_rtxn_def pk nd_def
    by (cases b) (auto simp: get_lower_def get_upper_def get_state_def time_entry_init_def Let_def)
  from settled_bind [OF this home_run [OF run like r v cc]] show ?thesis .
qed

lemma home_resumed:
  assumes inv: "tpc_inv cf HResumed st R s" and pk: "pk = pack (home cf) (home cf) RtxnContMsg"
    and r: "run_ok cf (home cf) r" and v: "verdict_ok v" and cc: "t_cc cf \<noteq> CALVIN" "t_node_cnt cf > 0"
  shows "handled cf ts r v pk s"
proof -
  note I = tpc_invD [OF inv]
  let ?nd = "y_node s (home cf)" and ?s = "s\<lparr>y_net := y_net s - {#pk#}\<rparr>"
  have st: "st x = Idle" if "x \<in> R" for x using I(6) that by simp
  have run: "tpc_inv cf HRunning st R ?s"
    using I(3,5,6,7) I(4) pk idle_sum [of R st cf, OF st] by (intro relabel [OF inv]) (auto simp: parts_ok_def)
  have like: "home_like cf (y_node ?s (home cf)) ?nd" using home_like_self [OF inv] I(5) by simp
  have "process cf ts r v pk ?nd = do { (rc, nd) \<leftarrow> run_txn cf r v ?nd; nd \<leftarrow> check_if_done cf rc nd; Some (RCOK, nd) }"
    using I(1) by (simp add: process_def process_rtxn_cont_def pk IS_LOCAL_def node_ok_def)
  from settled_bind [OF this home_run [OF run like r v cc]] show ?thesis .
qed

lemma net_take:
  assumes inv: "tpc_inv cf hs st R s" and r: "r \<in> R"
  shows "y_net s - rmsgs cf r (st r) + m = hmsgs cf hs + (\<Sum>x \<in> R - {r}. rmsgs cf x (st x)) + m"
  using net_update [of R r _ _ "rmsgs cf"] tpc_invD(4,11) [OF inv] r by blast

lemma waiting_only:
  assumes "compat cf nd HWaiting st R" "q \<in> R" "st q \<noteq> Idle"
  shows "\<forall>x \<in> R - {q}. st x = Idle" "querying (st q)"
proof -
  from assms(1) obtain r where r: "r \<in> R" "querying (st r)" "\<forall>x \<in> R - {r}. st x = Idle" by auto
  with assms(2,3) have "q = r" by blast
  with r show "\<forall>x \<in> R - {q}. st x = Idle" "querying (st q)" by simp_all
qed

lemma home_answered:
  assumes inv: "tpc_inv cf HWaiting st R s" and q: "q \<in> R" "st q = Answered rc" and pk: "pk = pack (home cf) q (RqryRspMsg rc)"
    and r: "run_ok cf (home cf) r" and v: "verdict_ok v" and cc: "t_cc cf \<noteq> CALVIN" "t_node_cnt cf > 0"
  shows "handled cf ts r v pk s"
proof -
  note I = tpc_invD [OF inv]
  let ?nd = "y_node s (home cf)" and ?s = "s\<lparr>y_net := y_net s - {#pk#}\<rparr>"
  have st: "st x = Idle" if "x \<in> R - {q}" for x using waiting_only [of cf "y_node s (home cf)" st R q] I(6) q that by auto
  have net: "y_net s - {#pk#} = {#}"
    using net_take [OF inv q(1), of "{#}"] idle_sum [of "R - {q}" st cf, OF st] q pk by simp
  have loc: "IS_LOCAL cf ?nd" using I(1) by (simp add: IS_LOCAL_def node_ok_def)
  have vo: "voted_ok rc (y_node s q) (rel s q)" using I(7) [OF q(1)] q(2) by simp
  show ?thesis
  proof (cases "rc = Abort")
    case False
    then have clean: "clean (y_node s q)" "rel s q = {}" using vo by (auto simp: voted_ok_def)
    have "stat_ok cf (y_node s x) (rel s x) Idle" if "x \<in> R" for x
      using I(7) [OF that] st [of x] clean that by (cases "x = q") auto
    then have run: "tpc_inv cf HRunning (\<lambda>_. Idle) R ?s"
      using I(3,5) net by (intro relabel [OF inv]) (auto simp: parts_ok_def)
    have like: "home_like cf (y_node ?s (home cf)) ?nd" using home_like_self [OF inv] I(5) by simp
    have "process cf ts r v pk ?nd = do { (rc, nd) \<leftarrow> run_txn cf r v ?nd; nd \<leftarrow> check_if_done cf rc nd; Some (rc, nd) }"
      using loc False by (simp add: process_def process_rqry_rsp_def pk)
    from settled_bind [OF this home_run [OF run like r v cc]] show ?thesis .
  next
    case True
    let ?st = "(\<lambda>_. Idle)(q := Counted Abort)"
    have "stat_ok cf (y_node s x) (rel s x) (?st x)" if "x \<in> R" for x
      using I(7) [OF that] st [of x] vo True that by (cases "x = q") auto
    moreover have "(\<Sum>x \<in> R. rmsgs cf x (?st x)) = {#}" by (intro sum.neutral) auto
    ultimately have run: "tpc_inv cf HFailing ?st R ?s"
      using I(3,5) net by (intro relabel [OF inv]) (auto simp: parts_ok_def)
    have "ready cf ?nd" "x_rsp_cnt ?nd = 0" "R = set (x_parts ?nd) - {home cf}"
      using I(1,3,5) by (auto simp: ready_def node_ok_def parts_ok_def clean_def)
    moreover have "R \<noteq> {}" using q(1) by blast
    ultimately obtain nd' ct where "start_abort cf ?nd = Some (Abort, nd')"
      "tpc_inv cf (HFinishing Abort) (\<lambda>_. Told Abort ct) R (absorb (home cf) nd' ?s)"
      using home_abort [OF run, of ?nd] by auto
    with loc True show ?thesis
      by (intro settled_stepI [of _ nd' "HFinishing Abort"]) (simp_all add: process_def process_rqry_rsp_def pk)
  qed
qed

lemma card_upd:
  assumes "finite R" "q \<in> R" "\<not> P (st q)" "P x"
  shows "int (card {r \<in> R. \<not> P ((st(q := x)) r)}) = int (card {r \<in> R. \<not> P (st r)}) - 1"
proof -
  have "{r \<in> R. \<not> P ((st(q := x)) r)} = {r \<in> R. \<not> P (st r)} - {q}" using assms by auto
  moreover have "card ({r \<in> R. \<not> P (st r)} - {q}) = card {r \<in> R. \<not> P (st r)} - 1"
    using assms by (intro card_Diff_singleton) simp
  moreover have "card {r \<in> R. \<not> P (st r)} > 0" using assms by (auto simp: card_gt_0_iff)
  ultimately show ?thesis by simp
qed

lemma integrate_bounds_fields:
  "x_id (integrate_bounds cf rc l u nd) = x_id nd" "x_rc (integrate_bounds cf rc l u nd) = x_rc nd"
  "x_rsp_cnt (integrate_bounds cf rc l u nd) = x_rsp_cnt nd" "x_aborted (integrate_bounds cf rc l u nd) = x_aborted nd"
  "x_blocked (integrate_bounds cf rc l u nd) = x_blocked nd" "x_out (integrate_bounds cf rc l u nd) = x_out nd"
  "x_cleanups (integrate_bounds cf rc l u nd) = x_cleanups nd" "x_parts (integrate_bounds cf rc l u nd) = x_parts nd"
  "x_client (integrate_bounds cf rc l u nd) = x_client nd" "x_abort_queue (integrate_bounds cf rc l u nd) = x_abort_queue nd"
  "x_timestamp (integrate_bounds cf rc l u nd) = x_timestamp nd"
  by (simp_all add: integrate_bounds_def Let_def)

lemma integrate_bounds_ok: "tt_ok (x_time_table nd) \<Longrightarrow> tt_ok (x_time_table (integrate_bounds cf rc l u nd))"
  by (simp add: integrate_bounds_def Let_def set_lower_def set_upper_def set_state_def time_map.ok_upd)

lemma home_decide:
  assumes inv: "tpc_inv cf HPreparing st R s" and rdy: "ready cf nd" "x_rc nd = d" "d \<in> {RCOK, Abort}"
    and R: "R = set (x_parts nd) - {home cf}" "R \<noteq> {}" and net: "net = {#}"
    and st: "\<And>r. r \<in> R \<Longrightarrow> \<exists>rc. voted_ok rc (y_node s r) (rel s r) \<and> (d = RCOK \<longrightarrow> rc = RCOK)" and cc: "t_cc cf \<noteq> CALVIN"
  shows "\<exists>nd'. do { nd \<leftarrow> send_finish_messages cf nd;
       if d = Abort then Some (d, snd (tm_abort cf nd)) else do { (_, nd) \<leftarrow> tm_commit cf nd; Some (d, nd) } } = Some (d, nd') \<and>
     (\<exists>ct. tpc_inv cf (HFinishing d) (\<lambda>_. Told d ct) R (absorb (home cf) nd' (s\<lparr>y_net := net\<rparr>)))"
proof -
  note I = tpc_invD [OF inv]
  define ct where "ct = (if t_cc cf = MAAT then x_commit_timestamp nd else 0)"
  define nd1 where "nd1 = nd\<lparr>x_rsp_cnt := int (card R), x_out := map (\<lambda>p. pack (GET_NODE_ID cf p) (home cf) (FinishMsg d (t_readonly cf) ct))
     (filter (\<lambda>p. GET_NODE_ID cf p \<noteq> home cf) (x_parts nd))\<rparr>"
  define nd' where "nd' = (if d = Abort then snd (tm_abort cf nd1) else time_release cf (release_locks RCOK nd1))"
  have fin: "new_finish cf nd = FinishMsg d (t_readonly cf) ct" using rdy(2) by (simp add: new_finish_def ct_def)
  have snd: "send_finish_messages cf nd = Some nd1" using send_finish_eq [OF rdy(1)] R(1) fin by (simp add: nd1_def)
  have tt: "tt_ok (x_time_table nd')" "d = Abort \<longrightarrow> absent cf nd'"
    using rdy(1) by (auto simp: nd'_def nd1_def tm_abort_def ready_def release_locks_def intro!: tt_ok_time_release absent_release)
  have out1: "x_out nd' = x_out nd1" by (simp add: nd'_def tm_abort_def release_locks_def)
  have out: "mset (x_out nd') = (\<Sum>r \<in> R. rmsgs cf r (Told d ct))"
    using mset_to_all [of "x_parts nd" cf "home cf" "FinishMsg d (t_readonly cf) ct"] rdy(1) R(1)
    unfolding out1 by (simp add: nd1_def ready_def)
  have f: "x_id nd' = home cf" "x_cleanups nd' = [d]" "x_rc nd' = d" "\<not> x_blocked nd'" "\<not> x_held nd'" "x_rsp_cnt nd' = int (card R)"
    "x_parts nd' = x_parts nd" "x_client nd' = 0" "x_abort_queue nd' = 0" "x_timestamp nd' \<noteq> 0"
    using rdy by (auto simp: nd'_def nd1_def tm_abort_def release_locks_def ready_def)
  have "tpc_inv cf (HFinishing d) (\<lambda>_. Told d ct) R (absorb (home cf) nd' (s\<lparr>y_net := net\<rparr>))"
  proof (rule home_step [OF inv])
    show "parts_ok cf nd' (HFinishing d) R" using f I(3) rdy(1) R(1) by (auto simp: parts_ok_def ready_def)
    show "compat cf nd' (HFinishing d) (\<lambda>_. Told d ct) R"
      using f(6) R(2) I(6,11) by (auto simp: card_gt_0_iff)
    show "stat_ok cf (y_node s r) (rel s r) (Told d ct)" if "r \<in> R" for r
      using st [OF that] rdy(3) by (auto simp: voted_ok_def)
    show "net + mset (x_out nd') = hmsgs cf (HFinishing d) + (\<Sum>r \<in> R. rmsgs cf r (Told d ct))" using out net by simp
  qed (use f tt rdy(3) I(5) in auto)
  moreover have "do { nd \<leftarrow> send_finish_messages cf nd;
       if d = Abort then Some (d, snd (tm_abort cf nd)) else do { (_, nd) \<leftarrow> tm_commit cf nd; Some (d, nd) } } = Some (d, nd')"
    using snd rdy(1) by (auto simp: nd'_def nd1_def tm_commit_def ready_def Let_def release_locks_def)
  ultimately show ?thesis by blast
qed

lemma counted_msgs: "counted q \<Longrightarrow> rmsgs cf x q = {#}"
  by (cases q) simp_all

lemma home_voted:
  assumes inv: "tpc_inv cf HPreparing st R s" and q: "q \<in> R" "st q = Voted rc lower upper"
    and pk: "pk = pack (home cf) q (AckPrepMsg rc lower upper)" and v: "verdict_ok v" and cc: "t_cc cf \<noteq> CALVIN"
  shows "handled cf ts r v pk s"
proof -
  note I = tpc_invD [OF inv]
  let ?nd = "y_node s (home cf)" and ?st = "st(q := Counted rc)" and ?net = "y_net s - {#pk#}"
  have vo: "voted_ok rc (y_node s q) (rel s q)" using I(7) [OF q(1)] q(2) by simp
  then have rc: "rc \<in> {RCOK, Abort}" by (auto simp: voted_ok_def)
  have prep: "\<forall>x \<in> R. preparing (st x)" "x_rsp_cnt ?nd = int (card {x \<in> R. \<not> counted (st x)})" "acks_finish cf"
    "x_rc ?nd = (if \<exists>x \<in> R. st x = Counted Abort then Abort else RCOK)" using I(6) by auto
  define nd1 where "nd1 = integrate_bounds cf rc lower upper
     (?nd\<lparr>x_rc := (if x_rc ?nd = RCOK then rc else x_rc ?nd), x_rsp_cnt := x_rsp_cnt ?nd - 1\<rparr>)"
  note f = integrate_bounds_fields [of cf rc lower upper "?nd\<lparr>x_rc := (if x_rc ?nd = RCOK then rc else x_rc ?nd),
     x_rsp_cnt := x_rsp_cnt ?nd - 1\<rparr>", folded nd1_def, simplified]
  have tt: "tt_ok (x_time_table nd1)" using I(1) by (auto simp: nd1_def node_ok_def intro!: integrate_bounds_ok)
  have rdy: "ready cf nd1" using I(1,3,5) tt f by (auto simp: ready_def node_ok_def parts_ok_def)
  have cnt: "x_rsp_cnt nd1 = int (card {x \<in> R. \<not> counted (?st x)})"
    using card_upd [of R q counted st "Counted rc"] I(11) q prep(2) f(3) by simp
  have rc1: "x_rc nd1 = (if \<exists>x \<in> R. ?st x = Counted Abort then Abort else RCOK)"
  proof -
    have "x \<noteq> q" if "st x = Counted Abort" for x using that q(2) by auto
    then have "(\<exists>x \<in> R. ?st x = Counted Abort) \<longleftrightarrow> rc = Abort \<or> (\<exists>x \<in> R. st x = Counted Abort)"
      using q(1) by (metis fun_upd_other fun_upd_same rstat.inject)
    then show ?thesis using prep(4) rc f(2) by (auto split: if_splits)
  qed
  have st: "stat_ok cf (y_node s x) (rel s x) (?st x)" if "x \<in> R" for x using I(7) [OF that] vo by simp
  have R: "R = set (x_parts nd1) - {home cf}" using I(3) f(8) by (simp add: parts_ok_def)
  have recv: "received_response cf rc ?nd = Some (x_rsp_cnt nd1, ?nd\<lparr>x_rc := (if x_rc ?nd = RCOK then rc else x_rc ?nd),
     x_rsp_cnt := x_rsp_cnt ?nd - 1\<rparr>)"
    using prep(4) cc f(3) by (auto simp: received_response_def Let_def)
  have net: "?net = (\<Sum>x \<in> R - {q}. rmsgs cf x (st x))" using net_take [OF inv q(1), of "{#}"] q(2) pk by simp
  show ?thesis
  proof (cases "x_rsp_cnt nd1 > 0")
    case True
    have "process cf ts r v pk ?nd = Some (WAIT, nd1)"
      using True recv by (simp add: process_def pk process_rack_prep_def nd1_def [symmetric])
    moreover have "tpc_inv cf HPreparing ?st R (absorb (home cf) nd1 (s\<lparr>y_net := ?net\<rparr>))"
    proof (rule home_step [OF inv])
      show "?net + mset (x_out nd1) = hmsgs cf HPreparing + (\<Sum>x \<in> R. rmsgs cf x (?st x))"
        using net sum_fun_upd [OF I(11) q(1), of "rmsgs cf" st "Counted rc"] rdy by (simp add: ready_def)
      show "compat cf nd1 HPreparing ?st R" using cnt rc1 prep True by auto
    qed (use rdy st R I(3,5) f in \<open>auto simp: ready_def parts_ok_def\<close>)
    ultimately show ?thesis by (intro settled_stepI [of _ nd1 HPreparing]) simp_all
  next
    case False
    then have all: "counted (?st x)" if "x \<in> R" for x using cnt I(11) that by (auto simp: card_eq_0_iff)
    have "rmsgs cf x (st x) = {#}" if "x \<in> R - {q}" for x
      using all [of x] that by (simp add: counted_msgs)
    then have net0: "?net = {#}" using net by (simp add: sum.neutral)
    define rn where "rn = (if x_rc nd1 = RCOK then tm_validate cf v nd1 else (RCOK, nd1))"
    define d where "d = (if fst rn = Abort \<or> x_rc nd1 = Abort then Abort else fst rn)"
    define nd2 where "nd2 = (if d = Abort then (snd rn)\<lparr>x_rc := Abort\<rparr> else snd rn)"
    have rn: "x_rc (snd rn) = x_rc nd1" by (simp add: rn_def)
    have eq: "process cf ts r v pk ?nd = do { nd \<leftarrow> send_finish_messages cf nd2;
       if d = Abort then Some (d, snd (tm_abort cf nd)) else do { (_, nd) \<leftarrow> tm_commit cf nd; Some (d, nd) } }"
      using False recv cnt rn by (simp add: process_def pk process_rack_prep_def nd1_def [symmetric] rn_def
          split_beta d_def nd2_def Let_def)
    have rc2: "x_rc nd1 \<in> {RCOK, Abort}" using rc1 by simp
    have rnf: "ready cf (snd rn)" "x_parts (snd rn) = x_parts nd1" "fst rn \<in> {RCOK, Abort}"
      using rdy tm_validate_ok [of v nd1 cf] v tt by (auto simp: rn_def ready_def)
    then have d: "d \<in> {RCOK, Abort}" and d2: "x_rc nd2 = d" "ready cf nd2" "x_parts nd2 = x_parts nd1"
      using rc2 rn by (auto simp: nd2_def d_def ready_def)
    have votes: "\<exists>rc. voted_ok rc (y_node s x) (rel s x) \<and> (d = RCOK \<longrightarrow> rc = RCOK)" if "x \<in> R" for x
    proof -
      from all [OF that] obtain rx where rx: "?st x = Counted rx" by (cases "?st x") simp_all
      then have "voted_ok rx (y_node s x) (rel s x)" using st [OF that] by simp
      moreover have "rx = RCOK" if "d = RCOK" using that rx \<open>x \<in> R\<close> rc1 calculation by (auto simp: d_def voted_ok_def split: if_splits)
      ultimately show ?thesis by blast
    qed
    have "R = set (x_parts nd2) - {home cf}" "R \<noteq> {}" using R d2(3) q(1) by auto
    from home_decide [OF inv d2(2,1) d this net0 votes cc] obtain nd' ct where "process cf ts r v pk ?nd = Some (d, nd')"
      "tpc_inv cf (HFinishing d) (\<lambda>_. Told d ct) R (absorb (home cf) nd' (s\<lparr>y_net := ?net\<rparr>))" unfolding eq by blast
    then show ?thesis by (intro settled_stepI [of _ nd' "HFinishing d"]) simp_all
  qed
qed

lemma home_acked:
  assumes inv: "tpc_inv cf (HFinishing d) st R s" and q: "q \<in> R" "st q = Acked d"
    and pk: "pk = pack (home cf) q (AckFinMsg RCOK)" and cc: "t_cc cf \<noteq> CALVIN"
  shows "handled cf ts r v pk s"
proof -
  note I = tpc_invD [OF inv]
  let ?nd = "y_node s (home cf)" and ?st = "st(q := Fin d)" and ?net = "y_net s - {#pk#}"
  have h: "x_rc ?nd = d" "d \<in> {RCOK, Abort}" "rel s (home cf) = {d}" "\<not> x_blocked ?nd" "\<not> x_held ?nd" "d = Abort \<longrightarrow> absent cf ?nd"
    using I(5) by auto
  have fin: "\<forall>x \<in> R. finishing d (st x)" "x_rsp_cnt ?nd = int (card {x \<in> R. st x \<noteq> Fin d})" "d = Abort \<or> acks_finish cf"
    using I(6) by auto
  define nd1 where "nd1 = ?nd\<lparr>x_rsp_cnt := x_rsp_cnt ?nd - 1\<rparr>"
  have recv: "received_response cf RCOK ?nd = Some (x_rsp_cnt nd1, nd1)"
  proof -
    have "?nd\<lparr>x_rc := RCOK\<rparr> = ?nd" if "x_rc ?nd = RCOK" using that by simp
    then show ?thesis using h cc by (auto simp: received_response_def nd1_def Let_def)
  qed
  have cnt: "x_rsp_cnt nd1 = int (card {x \<in> R. ?st x \<noteq> Fin d})"
    using card_upd [of R q "\<lambda>x. x = Fin d" st "Fin d"] I(11) q fin(2) by (simp add: nd1_def)
  have st: "stat_ok cf (y_node s x) (rel s x) (?st x)" if "x \<in> R" for x using I(7) [OF that] q by auto
  have net: "?net = (\<Sum>x \<in> R - {q}. rmsgs cf x (st x))" using net_take [OF inv q(1), of "{#}"] q(2) pk by simp
  have net': "?net = (\<Sum>x \<in> R. rmsgs cf x (?st x))"
    using net sum_fun_upd [OF I(11) q(1), of "rmsgs cf" st "Fin d"] by simp
  have nd: "x_id nd1 = home cf" "tt_ok (x_time_table nd1)" "x_out nd1 = []" "x_cleanups nd1 = []"
    using I(1) by (simp_all add: nd1_def node_ok_def)
  have RN: "R \<subseteq> {..<t_node_cnt cf} - {home cf}" using I(3) unfolding parts_ok_def by blast
  show ?thesis
  proof (cases "x_rsp_cnt nd1 > 0")
    case True
    have "process cf ts r v pk ?nd = Some (WAIT, nd1)"
      using True recv by (simp add: process_def pk process_rack_rfin_def)
    moreover have "tpc_inv cf (HFinishing d) ?st R (absorb (home cf) nd1 (s\<lparr>y_net := ?net\<rparr>))"
    proof (rule home_step [OF inv])
      show "compat cf nd1 (HFinishing d) ?st R" using cnt fin True by auto
      show "parts_ok cf nd1 (HFinishing d) R" using I(3) by (auto simp: parts_ok_def nd1_def)
      show "?net + mset (x_out nd1) = hmsgs cf (HFinishing d) + (\<Sum>x \<in> R. rmsgs cf x (?st x))" using net' nd by simp
    qed (use nd h st in \<open>auto simp: nd1_def absent_def\<close>)
    ultimately show ?thesis by (intro settled_stepI [of _ nd1 "HFinishing d"]) simp_all
  next
    case False
    then have all: "?st x = Fin d" if "x \<in> R" for x using cnt I(11) that by (auto simp: card_eq_0_iff)
    then have "(\<Sum>x \<in> R. rmsgs cf x (?st x)) = {#}" by (intro sum.neutral) (metis rmsgs.simps(11))
    then have net0: "?net = {#}" using net' by simp
    show ?thesis
    proof (cases "d = RCOK")
      case True
      define nd2 where "nd2 = release_txn_man (nd1\<lparr>x_client := x_client nd1 + 1\<rparr>)"
      have "process cf ts r v pk ?nd = Some (RCOK, nd2)"
        using False recv cnt nd h True
        by (simp add: process_def pk process_rack_rfin_def wt_commit_def IS_LOCAL_def nd2_def nd1_def)
      moreover have "tpc_inv cf HDone ?st R (absorb (home cf) nd2 (s\<lparr>y_net := ?net\<rparr>))"
      proof (rule home_step [OF inv])
        show "compat cf nd2 HDone ?st R" using all True by simp
        show "?net + mset (x_out nd2) = hmsgs cf HDone + (\<Sum>x \<in> R. rmsgs cf x (?st x))"
          using net' nd by (simp add: nd2_def release_txn_man_def)
      qed (use nd h st RN True I(3) in \<open>auto simp: nd2_def nd1_def release_txn_man_def clean_def parts_ok_def\<close>)
      ultimately show ?thesis by (intro settled_stepI [of _ nd2 HDone]) simp_all
    next
      case abort: False
      with h have d: "d = Abort" by simp
      have "process cf ts r v pk ?nd = Some (RCOK, wt_abort nd1)"
        using False recv cnt h d by (simp add: process_def pk process_rack_rfin_def nd1_def)
      moreover have "tpc_inv cf HQueued (\<lambda>_. Idle) R (absorb (home cf) (wt_abort nd1) (s\<lparr>y_net := {#}\<rparr>))"
      proof (rule home_requeue [OF inv])
        show "clean (y_node s x)" if "x \<in> R" for x using st [OF that] all [OF that] by auto
        show "rel s m \<subseteq> {Abort}" for m
        proof (cases "m \<in> R")
          case True
          then show ?thesis using st [OF True] all [OF True] d by auto
        qed (use I(8) [of m] h d in \<open>cases "m = home cf"; auto\<close>)
      qed (use nd h d I(3) in \<open>auto simp: wt_abort_def tm_reset_def nd1_def clean_def parts_ok_def absent_def\<close>)
      ultimately show ?thesis unfolding net0 by (intro settled_stepI [of _ "wt_abort nd1" HQueued]) simp_all
    qed
  qed
qed

section \<open>Every step keeps the invariant\<close>

definition tpc_good :: "tpc_cfg \<Rightarrow> tpc_sys \<Rightarrow> bool" where
  "tpc_good cf s \<longleftrightarrow> (\<exists>hs st R. hs \<notin> {HRunning, HFailing} \<and> tpc_inv cf hs st R s)"

lemma compat_stat:
  assumes "compat cf nd hs st R" "r \<in> R" "hs \<notin> {HRunning, HFailing}"
  shows "st r = Idle \<or> (querying (st r) \<and> hs = HWaiting) \<or> (preparing (st r) \<and> hs = HPreparing) \<or>
    (\<exists>d. finishing d (st r) \<and> hs = HFinishing d) \<or>
    (hs = HDone \<and> (st r = Fin RCOK \<or> (\<exists>ct. st r = Told RCOK ct) \<and> \<not> acks_finish cf))"
  using assms by (cases hs) auto

lemma compat_hs:
  assumes "compat cf nd hs st R" "r \<in> R" "hs \<notin> {HRunning, HFailing}"
  shows "querying (st r) \<Longrightarrow> hs = HWaiting" and "preparing (st r) \<Longrightarrow> hs = HPreparing"
    and "st r = Told d ct \<Longrightarrow> hs = HFinishing d \<or> (hs = HDone \<and> d = RCOK \<and> \<not> acks_finish cf)"
    and "st r = Acked d \<Longrightarrow> hs = HFinishing d"
  using compat_stat [OF assms] by (cases "st r"; force)+

lemma in_flight:
  assumes inv: "tpc_inv cf hs st R s" and pk: "pk \<in># y_net s"
  shows "hmsgs cf hs = {#pk#} \<or> (\<exists>r \<in> R. rmsgs cf r (st r) = {#pk#})"
proof -
  have "pk \<in># hmsgs cf hs \<or> (\<exists>r \<in> R. pk \<in># rmsgs cf r (st r))"
    using pk unfolding tpc_invD(4) [OF inv] by (auto simp: set_mset_sum [OF tpc_invD(11) [OF inv]])
  moreover have "hmsgs cf hs = {#pk#}" if "pk \<in># hmsgs cf hs" using that by (cases hs) auto
  moreover have "rmsgs cf r q = {#pk#}" if "pk \<in># rmsgs cf r q" for r q using that by (cases q) auto
  ultimately show ?thesis by blast
qed

lemma remote_handled:
  assumes inv: "tpc_inv cf hs st R s" and hs: "hs \<notin> {HRunning, HFailing}" and r: "r \<in> R" "rmsgs cf r (st r) = {#pk#}"
    and p: "process cf ts o' v pk (y_node s r) = Some (rc, nd)" "remote_result cf (y_node s r) (rel s r) nd q"
    and co: "compat cf (y_node s (home cf)) hs (st(r := q)) R" and d: "pk_dest pk = r"
  shows "\<exists>rc nd. process cf ts o' v pk (y_node s (pk_dest pk)) = Some (rc, nd) \<and>
    tpc_good cf (absorb (pk_dest pk) nd (s\<lparr>y_net := y_net s - {#pk#}\<rparr>))"
proof -
  have "tpc_inv cf hs (st(r := q)) R (absorb r nd (s\<lparr>y_net := y_net s - {#pk#}\<rparr>))"
    using remote_result_step [OF inv r(1) p(2) co] unfolding r(2) .
  with hs have "tpc_good cf (absorb r nd (s\<lparr>y_net := y_net s - {#pk#}\<rparr>))" unfolding tpc_good_def by blast
  then show ?thesis using p(1) d by simp
qed

lemma home_handled:
  assumes "handled cf ts o' v pk s" "pk_dest pk = home cf"
  shows "\<exists>rc nd. process cf ts o' v pk (y_node s (pk_dest pk)) = Some (rc, nd) \<and>
    tpc_good cf (absorb (pk_dest pk) nd (s\<lparr>y_net := y_net s - {#pk#}\<rparr>))"
proof -
  from assms(1) obtain nd hs st R where nd: "map_option snd (process cf ts o' v pk (y_node s (home cf))) = Some nd"
    and "hs \<notin> {HRunning, HFailing}" "tpc_inv cf hs st R (absorb (home cf) nd (s\<lparr>y_net := y_net s - {#pk#}\<rparr>))"
    unfolding settled_step_def by blast
  then have "tpc_good cf (absorb (home cf) nd (s\<lparr>y_net := y_net s - {#pk#}\<rparr>))" unfolding tpc_good_def by blast
  moreover from nd obtain rc where "process cf ts o' v pk (y_node s (home cf)) = Some (rc, nd)" by auto
  ultimately show ?thesis using assms(2) by simp
qed

lemma compat_waiting_upd:
  assumes "compat cf nd HWaiting st R" "r \<in> R" "st r \<noteq> Idle" "querying q"
  shows "compat cf nd HWaiting (st(r := q)) R"
proof -
  have "\<forall>x \<in> R - {r}. (st(r := q)) x = Idle" using waiting_only(1) [OF assms(1-3)] by auto
  moreover have "querying ((st(r := q)) r)" using assms(4) by simp
  ultimately show ?thesis using assms(2) unfolding compat.simps by blast
qed

lemma compat_voted:
  assumes "compat cf nd HPreparing st R" "r \<in> R" "st r = Asked"
  shows "compat cf nd HPreparing (st(r := Voted rc l u)) R"
proof -
  have "{x \<in> R. \<not> counted ((st(r := Voted rc l u)) x)} = {x \<in> R. \<not> counted (st x)}"
    using assms by auto
  moreover have "(\<exists>x \<in> R. (st(r := Voted rc l u)) x = Counted Abort) = (\<exists>x \<in> R. st x = Counted Abort)"
  proof
    assume "\<exists>x \<in> R. st x = Counted Abort"
    then obtain x where "x \<in> R" "st x = Counted Abort" by blast
    with assms(3) show "\<exists>x \<in> R. (st(r := Voted rc l u)) x = Counted Abort" by (intro bexI [of _ x]) auto
  qed (auto split: if_splits)
  ultimately show ?thesis using assms by auto
qed

lemma compat_acked:
  assumes "compat cf nd (HFinishing d) st R" "r \<in> R" "st r = Told d ct"
  shows "compat cf nd (HFinishing d) (st(r := Acked d)) R"
proof -
  have "{x \<in> R. (st(r := Acked d)) x \<noteq> Fin d} = {x \<in> R. st x \<noteq> Fin d}" using assms by auto
  then show ?thesis using assms by auto
qed

lemma process_good:
  assumes good: "tpc_good cf s" and pk: "pk \<in># y_net s" and o': "run_ok cf (pk_dest pk) o'" and v: "verdict_ok v" and ts: "ts \<noteq> 0"
    and cc: "t_cc cf \<noteq> CALVIN" "t_node_cnt cf > 0" "t_node_cnt cf < 2 ^ 32"
  shows "\<exists>rc nd. process cf ts o' v pk (y_node s (pk_dest pk)) = Some (rc, nd) \<and>
    tpc_good cf (absorb (pk_dest pk) nd (s\<lparr>y_net := y_net s - {#pk#}\<rparr>))"
proof -
  from good obtain hs st R where hs: "hs \<notin> {HRunning, HFailing}" and inv: "tpc_inv cf hs st R s" by (auto simp: tpc_good_def)
  note I = tpc_invD [OF inv]
  have "home cf < 2 ^ 32" using cc(2,3) by (simp add: home_def GET_NODE_ID_def less_trans [OF mod_less_divisor])
  then have h: "home_small cf" by (simp add: home_small_def unat_of_nat take_bit_nat_eq_self)
  consider "hmsgs cf hs = {#pk#}" | r where "r \<in> R" "rmsgs cf r (st r) = {#pk#}" using in_flight [OF inv pk] by blast
  then show ?thesis
  proof cases
    case 1
    then consider b where "hs = HStart b" "pk = pack (home cf) (home cf) (if b then ClQryMsg else RtxnMsg)"
      | "hs = HResumed" "pk = pack (home cf) (home cf) RtxnContMsg" by (cases hs) auto
    then show ?thesis
    proof cases
      case 1
      with home_started [of cf b st R s pk o' v ts] inv o' v ts cc show ?thesis by (intro home_handled) auto
    next
      case 2
      with home_resumed [of cf st R s pk o' v ts] inv o' v cc show ?thesis by (intro home_handled) auto
    qed
  next
    case r: 2
    note nd = I(1) [of r, unfolded node_ok_def] and ne = I(13) [OF r(1)] and st = I(7) [OF r(1)] and co = I(6)
    note comp = compat_hs [OF co r(1) hs] and rh = remote_handled [OF inv hs r]
    show ?thesis
    proof (cases "st r")
      case (Queried qts sts)
      then have w: "hs = HWaiting" and p: "pk = pack r (home cf) (RqryMsg qts sts)" using comp(1) r(2) by auto
      from remote_rqry [of "y_node s r" cf "rel s r" qts sts o' v] nd ne cc st o' p h Queried obtain rc nd' q where
        "process_rqry cf (home cf) qts sts o' v (y_node s r) = Some (rc, nd')" "remote_result cf (y_node s r) (rel s r) nd' q"
        "querying q" by auto
      moreover from this have "compat cf (y_node s (home cf)) hs (st(r := q)) R"
        using co unfolding w by (intro compat_waiting_upd r(1)) (simp_all add: Queried)
      ultimately show ?thesis using p by (intro rh) (simp_all add: process_def)
    next
      case Resumed
      then have w: "hs = HWaiting" and p: "pk = pack r r RqryContMsg" using comp(1) r(2) by auto
      from remote_rqry_cont [of "y_node s r" cf "rel s r" o' v] nd ne cc st o' p h Resumed obtain rc nd' q where
        "process_rqry_cont cf o' v (y_node s r) = Some (rc, nd')" "remote_result cf (y_node s r) (rel s r) nd' q" "querying q"
        by auto
      moreover from this have "compat cf (y_node s (home cf)) hs (st(r := q)) R"
        using co unfolding w by (intro compat_waiting_upd r(1)) (simp_all add: Resumed)
      ultimately show ?thesis using p by (intro rh) (simp_all add: process_def)
    next
      case (Answered rc)
      then have "hs = HWaiting" and p: "pk = pack (home cf) r (RqryRspMsg rc)" using comp(1) r(2) by auto
      with home_answered [of cf st R s r rc pk o' v ts] inv r(1) Answered o' v cc show ?thesis by (intro home_handled) auto
    next
      case Asked
      then have w: "hs = HPreparing" and p: "pk = pack r (home cf) PrepareMsg" using comp(2) r(2) by auto
      from remote_prepare [of "y_node s r" cf "rel s r" v] nd ne st v Asked obtain rc nd' l u where
        "process_rprepare cf (home cf) v (y_node s r) = Some (rc, nd')"
        "remote_result cf (y_node s r) (rel s r) nd' (Voted rc l u)" by auto
      moreover have "compat cf (y_node s (home cf)) hs (st(r := Voted rc l u)) R"
        using co unfolding w by (rule compat_voted [where st = st and r = r, OF _ r(1) Asked])
      ultimately show ?thesis using p by (intro rh) (simp_all add: process_def)
    next
      case (Voted rc l u)
      then have "hs = HPreparing" and p: "pk = pack (home cf) r (AckPrepMsg rc l u)" using comp(2) r(2) by auto
      with home_voted [of cf st R s r rc l u pk v ts o'] inv r(1) Voted v cc show ?thesis by (intro home_handled) auto
    next
      case (Told d ct)
      then have p: "pk = pack r (home cf) (FinishMsg d (t_readonly cf) ct)" using r(2) by auto
      have w: "hs = HFinishing d \<or> (hs = HDone \<and> d = RCOK \<and> \<not> acks_finish cf)" using comp(3) Told by blast
      then have d: "d \<in> {RCOK, Abort}" and a: "hs = HFinishing d \<longrightarrow> d = Abort \<or> acks_finish cf" using I(5) co by auto
      from remote_finish [of "y_node s r" cf "rel s r" d ct] nd ne cc st Told d obtain rc nd' where
        fin: "process_rfin cf d (t_readonly cf) ct (y_node s r) = Some (rc, nd')"
        "remote_result cf (y_node s r) (rel s r) nd' (if d = Abort \<or> acks_finish cf then Acked d else Fin d)" by auto
      from w show ?thesis
      proof
        assume f: "hs = HFinishing d"
        have "compat cf (y_node s (home cf)) hs (st(r := Acked d)) R"
          using co unfolding f by (rule compat_acked [where st = st and r = r, OF _ r(1) Told])
        with fin p a f show ?thesis by (intro rh [of _ _ _ rc nd' "Acked d"]) (simp_all add: process_def)
      next
        assume f: "hs = HDone \<and> d = RCOK \<and> \<not> acks_finish cf"
        have "compat cf (y_node s (home cf)) hs (st(r := Fin d)) R" using f co by simp
        with fin p f show ?thesis by (intro rh [of _ _ _ rc nd' "Fin d"]) (simp_all add: process_def)
      qed
    next
      case (Acked d)
      then have "hs = HFinishing d" and p: "pk = pack (home cf) r (AckFinMsg RCOK)" using comp(4) r(2) by auto
      with home_acked [of cf d st R s r pk ts o' v] inv r(1) Acked cc show ?thesis by (intro home_handled) auto
    qed (use r(2) in auto)
  qed
qed

lemma good_init:
  assumes "tpc_cfg_ok cf tts"
  shows "tpc_good cf (tpc_init cf tts)"
proof -
  have "tpc_inv cf (HStart True) (\<lambda>_. Idle) {} (tpc_init cf tts)"
    by (rule tpc_invI) (use assms in \<open>simp_all add: tpc_init_def new_node_def node_ok_def tpc_cfg_ok_def log_ok_def parts_ok_def
        clean_def absent_def rel_def\<close>)
  then show ?thesis unfolding tpc_good_def by blast
qed

lemma good_granted:
  assumes good: "tpc_good cf s" and b: "x_blocked (y_node s n)" and cc: "t_cc cf \<noteq> CALVIN"
  shows "tpc_good cf (absorb n (restart_txn cf (y_node s n)) s)"
proof -
  from good obtain hs st R where hs: "hs \<notin> {HRunning, HFailing}" and inv: "tpc_inv cf hs st R s" by (auto simp: tpc_good_def)
  note I = tpc_invD [OF inv]
  note nd = I(1) [of n, unfolded node_ok_def]
  show ?thesis
  proof (cases "n = home cf")
    case True
    then have h: "hs = HBlocked" using I(5) b hs by (cases hs) (auto simp: clean_def)
    have net: "y_net s = {#}" using I(4,6) h idle_sum [of R st cf] by simp
    then have s: "s\<lparr>y_net := {#}\<rparr> = s" by (cases s) simp
    have "tpc_inv cf HResumed st R (absorb (home cf) (restart_txn cf (y_node s n)) (s\<lparr>y_net := {#}\<rparr>))"
    proof (rule home_step [OF inv])
      show "parts_ok cf (restart_txn cf (y_node s n)) HResumed R"
        using I(3) h True by (auto simp: restart_txn_def mq_enqueue_def parts_ok_def)
      show "{#} + mset (x_out (restart_txn cf (y_node s n))) = hmsgs cf HResumed + (\<Sum>r \<in> R. rmsgs cf r (st r))"
        using nd True I(6) h idle_sum [of R st cf] by (simp add: restart_txn_def mq_enqueue_def IS_LOCAL_def)
    qed (use nd True I(5,6,7) h in \<open>auto simp: restart_txn_def mq_enqueue_def clean_def\<close>)
    then show ?thesis unfolding tpc_good_def s True by blast
  next
    case False
    then have r: "n \<in> R" using I(8) [of n] b by (auto simp: clean_def)
    have q: "st n = Blocked" using I(7) [OF r] b by (cases "st n") (auto simp: clean_def dead_def voted_ok_def)
    then have w: "hs = HWaiting" using compat_hs(1) [OF I(6) r hs] by simp
    have "remote_result cf (y_node s n) (rel s n) (restart_txn cf (y_node s n)) Resumed"
      using I(7) [OF r] q nd False cc by (intro remote_restart) simp_all
    moreover have "compat cf (y_node s (home cf)) hs (st(n := Resumed)) R"
      using I(6) unfolding w by (rule compat_waiting_upd) (use r q in simp_all)
    ultimately have "tpc_inv cf hs (st(n := Resumed)) R (absorb n (restart_txn cf (y_node s n)) (s\<lparr>y_net := y_net s - rmsgs cf n (st n)\<rparr>))"
      by (rule remote_result_step [OF inv r])
    then show ?thesis using hs q unfolding tpc_good_def by (intro exI conjI) simp_all
  qed
qed

lemma good_restart:
  assumes good: "tpc_good cf s" and q: "x_abort_queue (y_node s n) > 0"
  shows "tpc_good cf (absorb n (abort_queue_process (y_node s n)) s)"
proof -
  from good obtain hs st R where hs: "hs \<notin> {HRunning, HFailing}" and inv: "tpc_inv cf hs st R s" by (auto simp: tpc_good_def)
  note I = tpc_invD [OF inv]
  have n: "n = home cf" using I(9) [of n] q by auto
  then have h: "hs = HQueued" using I(3) q by (auto simp: parts_ok_def split: if_splits)
  have net: "y_net s = {#}" using I(4,6) h idle_sum [of R st cf] by simp
  then have s: "s\<lparr>y_net := {#}\<rparr> = s" by (cases s) simp
  have "tpc_inv cf (HStart False) st R (absorb (home cf) (abort_queue_process (y_node s n)) (s\<lparr>y_net := {#}\<rparr>))"
  proof (rule home_step [OF inv])
    show "parts_ok cf (abort_queue_process (y_node s n)) (HStart False) R"
      using I(3) h n by (auto simp: abort_queue_process_def mq_enqueue_def parts_ok_def)
    show "{#} + mset (x_out (abort_queue_process (y_node s n))) = hmsgs cf (HStart False) + (\<Sum>r \<in> R. rmsgs cf r (st r))"
      using I(1) n I(6) h idle_sum [of R st cf] by (simp add: abort_queue_process_def mq_enqueue_def node_ok_def)
  qed (use n I(1,5,6,7) h in \<open>auto simp: abort_queue_process_def mq_enqueue_def node_ok_def clean_def absent_def\<close>)
  then show ?thesis unfolding tpc_good_def s n by blast
qed

lemma time_table_upd:
  "stat_ok cf (nd\<lparr>x_time_table := tt\<rparr>) a q = stat_ok cf nd a q" "clean (nd\<lparr>x_time_table := tt\<rparr>) = clean nd"
  "compat cf (nd\<lparr>x_time_table := tt\<rparr>) hs st R = compat cf nd hs st R"
  "parts_ok cf (nd\<lparr>x_time_table := tt\<rparr>) hs R = parts_ok cf nd hs R"
  "absent cf nd \<Longrightarrow> same_entry (t_txn cf) (x_time_table nd) tt \<Longrightarrow> absent cf (nd\<lparr>x_time_table := tt\<rparr>)"
  "home_ok cf nd a hs \<Longrightarrow> same_entry (t_txn cf) (x_time_table nd) tt \<Longrightarrow> home_ok cf (nd\<lparr>x_time_table := tt\<rparr>) a hs"
  by ((cases q; simp add: clean_def dead_def voted_ok_def), simp add: clean_def, (cases hs; simp), simp add: parts_ok_def,
      simp add: absent_def same_entry_def, (cases hs; simp add: clean_def absent_def same_entry_def))

lemma good_other:
  assumes good: "tpc_good cf s" and tt: "same_entry (t_txn cf) (x_time_table (y_node s n)) tt"
  shows "tpc_good cf (s\<lparr>y_node := (y_node s)(n := (y_node s n)\<lparr>x_time_table := tt\<rparr>)\<rparr>)" (is "tpc_good cf ?s")
proof -
  from good obtain hs st R where hs: "hs \<notin> {HRunning, HFailing}" and inv: "tpc_inv cf hs st R s" by (auto simp: tpc_good_def)
  note I = tpc_invD [OF inv]
  have rel: "rel ?s = rel s" by (simp add: rel_def fun_eq_iff)
  have "tpc_inv cf hs st R ?s"
  proof (rule tpc_invI)
    show "node_ok m (y_node ?s m)" for m using I(1) tt by (simp add: node_ok_def same_entry_def)
    show "log_ok ?s" using I(2) by (simp add: log_ok_def)
    show "home_ok cf (y_node ?s (home cf)) (rel ?s (home cf)) hs"
      unfolding rel using I(5) tt time_table_upd(6) by (cases "n = home cf") simp_all
    show "stat_ok cf (y_node ?s r) (rel ?s r) (st r)" if "r \<in> R" for r
      unfolding rel using I(7) [OF that] by (cases "n = r") (simp_all add: time_table_upd)
    show "parts_ok cf (y_node ?s (home cf)) hs R" using I(3) by (cases "n = home cf") (simp_all add: time_table_upd)
    show "compat cf (y_node ?s (home cf)) hs st R" using I(6) by (cases "n = home cf") (simp_all add: time_table_upd)
    show "clean (y_node ?s m) \<and> \<not> x_held (y_node ?s m) \<and> rel ?s m = {}" if "m \<notin> R" "m \<noteq> home cf" for m
      unfolding rel using I(8) [OF that] by (cases "n = m") (simp_all add: time_table_upd)
    show "x_abort_queue (y_node ?s m) = 0 \<and> x_client (y_node ?s m) = 0" if "m \<noteq> home cf" for m
      using I(9,10) [OF that] by (cases "n = m") simp_all
    show "y_net ?s = hmsgs cf hs + (\<Sum>r \<in> R. rmsgs cf r (st r))" using I(4) by simp
  qed
  with hs show ?thesis unfolding tpc_good_def by blast
qed

lemma good_step:
  assumes "tpc_step cf s s'" "tpc_good cf s" "t_cc cf \<noteq> CALVIN" "t_node_cnt cf > 0" "t_node_cnt cf < 2 ^ 32"
  shows "tpc_good cf s'"
  using assms(1)
proof cases
  case (deliver pk r v ts rc nd)
  with process_good [OF assms(2) deliver(2,3,4,5) assms(3-5)] show ?thesis by auto
qed (use assms good_granted good_restart good_other in auto)

lemma good_reach: "tpc_reach cf tts s \<Longrightarrow> tpc_cfg_ok cf tts \<Longrightarrow> tpc_good cf s"
  by (induction rule: tpc_reach.induct) (auto intro: good_init good_step simp: tpc_cfg_ok_def)

section \<open>Atomic commitment\<close>

lemma good_outcome:
  assumes "tpc_good cf s" "rc \<in> rel s n" "rc' \<in> rel s m"
  shows "rc = rc'"
proof -
  from assms(1) obtain hs st R where hs: "hs \<notin> {HRunning, HFailing}" and inv: "tpc_inv cf hs st R s" by (auto simp: tpc_good_def)
  note I = tpc_invD [OF inv]
  define d where "d = (if hs = HDone \<or> hs = HFinishing RCOK then RCOK else Abort)"
  have home: "rel s (home cf) \<subseteq> {d}" using I(5) by (cases hs) (auto simp: d_def)
  have "rel s r \<subseteq> {d}" if "r \<in> R" for r
    using I(5) I(7) [OF that] compat_stat [OF I(6) that hs]
    by (cases "st r") (auto simp: d_def voted_ok_def)
  with home I(8) have "rel s x \<subseteq> {d}" for x by (cases "x \<in> R"; cases "x = home cf") auto
  with assms(2,3) show ?thesis by blast
qed

text \<open>C20: Atomic commitment: in every attempt of a transaction, whatever the validators decide, however messages are delayed and reordered and whichever participants abort, if one node releases its locks with a commit then no node releases them with an abort.\<close>

theorem commit_agreement:
  assumes "tpc_reach cf tts s" "tpc_cfg_ok cf tts" "(n, b, RCOK) \<in> set (y_log s)"
  shows "(m, b, Abort) \<notin> set (y_log s)"
proof -
  have good: "tpc_good cf s" using good_reach assms(1,2) by blast
  then have "log_ok s" by (auto simp: tpc_good_def tpc_inv_def)
  with assms(3) have "b = y_attempt s" unfolding log_ok_def by (metis RC.distinct(3) le_neq_implies_less)
  with good_outcome [OF good, of RCOK n Abort m] assms(3) show ?thesis by (auto simp: rel_def)
qed

text \<open>C25: Locks are released exactly once: no node calls release_locks twice for the same attempt of a transaction, although an abort can reach it from the query, from the vote and from the finish message.\<close>

theorem locks_released_once:
  assumes "tpc_reach cf tts s" "tpc_cfg_ok cf tts"
  shows "distinct (map (\<lambda>(n, b, _). (n, b)) (y_log s))"
  using good_reach [OF assms] by (auto simp: tpc_good_def tpc_inv_def log_ok_def)

text \<open>C21: What the client is told is true. It gets at most one response, and once the response is sent the home node has committed and released the transaction, no node is going to restart it, and all that can still be in flight are finish messages with the commit, one for every node that still holds accesses. For a transaction that writes, or that is validated (MAAT and OCC), nothing is in flight any more and no node holds accesses; only a read-only transaction of the other algorithms is answered before its finish messages have arrived.\<close>

theorem client_response_final:
  assumes "tpc_reach cf tts s" "tpc_cfg_ok cf tts" and "x_client (y_node s (home cf)) > 0"
  shows "x_client (y_node s (home cf)) = 1 \<and> (home cf, y_attempt s, RCOK) \<in> set (y_log s) \<and>
    \<not> x_held (y_node s (home cf)) \<and> (\<forall>n. x_abort_queue (y_node s n) = 0) \<and>
    (\<forall>pk \<in># y_net s. \<exists>ct. pk_msg pk = FinishMsg RCOK (t_readonly cf) ct) \<and>
    (\<forall>n. x_held (y_node s n) \<longrightarrow> (\<exists>pk \<in># y_net s. pk_dest pk = n)) \<and>
    (\<not> t_readonly cf \<or> t_cc cf = MAAT \<or> t_cc cf = OCC \<longrightarrow> y_net s = {#} \<and> (\<forall>n. \<not> x_held (y_node s n)))"
proof -
  from good_reach [OF assms(1,2)] obtain hs st R where inv: "tpc_inv cf hs st R s" by (auto simp: tpc_good_def)
  note I = tpc_invD [OF inv]
  have h: "hs = HDone" using I(3) assms(3) by (auto simp: parts_ok_def split: if_splits)
  have st: "st r = Fin RCOK \<or> (\<exists>ct. st r = Told RCOK ct) \<and> \<not> acks_finish cf" if "r \<in> R" for r
    using I(6) h that by auto
  have net: "y_net s = (\<Sum>r \<in> R. rmsgs cf r (st r))" using I(4) h by simp
  have fin: "\<exists>ct. pk_msg pk = FinishMsg RCOK (t_readonly cf) ct" if "pk \<in># y_net s" for pk
    using that st I(11) unfolding net by (auto simp: set_mset_sum) fastforce
  have home: "\<not> x_held (y_node s (home cf))" "RCOK \<in> rel s (home cf)" using I(5) h by auto
  have flight: "\<exists>pk \<in># y_net s. pk_dest pk = n" if held: "x_held (y_node s n)" for n
  proof -
    have n: "n \<in> R" using held home I(8) by metis
    then obtain ct where "st n = Told RCOK ct" using st [OF n] I(7) [OF n] held by auto
    then show ?thesis unfolding net sum.remove [OF I(11) n] by auto
  qed
  have "y_net s = {#}" if "acks_finish cf" using st that net by (simp add: sum.neutral)
  with flight have quiet: "acks_finish cf \<Longrightarrow> y_net s = {#} \<and> (\<forall>n. \<not> x_held (y_node s n))" by fastforce
  have "x_abort_queue (y_node s n) = 0" for n using I(3) I(9) [of n] h by (cases "n = home cf") (auto simp: parts_ok_def)
  with home fin flight quiet show ?thesis using I(3) h by (auto simp: parts_ok_def rel_def acks_finish_def)
qed

text \<open>C22: The protocol runs without a failed assertion: every message in flight can be processed, and no counter of outstanding responses goes below zero.\<close>

theorem commit_no_assert_fails:
  assumes "tpc_reach cf tts s" "tpc_cfg_ok cf tts" "pk \<in># y_net s" "run_ok cf (pk_dest pk) r" "verdict_ok v" "ts \<noteq> 0"
  shows "process cf ts r v pk (y_node s (pk_dest pk)) \<noteq> None"
  using process_good [OF good_reach [OF assms(1,2)] assms(3-6)] assms(2) by (auto simp: tpc_cfg_ok_def)

text \<open>C23: The protocol never gets stuck: until the client has its response, a message is in flight, or a node waits for a lock, or the transaction waits in the abort queue to be restarted.\<close>

theorem commit_not_stuck:
  assumes "tpc_reach cf tts s" "tpc_cfg_ok cf tts"
  shows "x_client (y_node s (home cf)) = 1 \<or> y_net s \<noteq> {#} \<or> (\<exists>n. x_blocked (y_node s n)) \<or> x_abort_queue (y_node s (home cf)) = 1"
proof -
  from good_reach [OF assms] obtain hs st R where hs: "hs \<notin> {HRunning, HFailing}" and inv: "tpc_inv cf hs st R s"
    by (auto simp: tpc_good_def)
  note I = tpc_invD [OF inv]
  have flight: "y_net s \<noteq> {#}" if "r \<in> R" "rmsgs cf r (st r) \<noteq> {#}" for r
    using that(2) unfolding I(4) sum.remove [OF I(11) that(1)] by simp
  show ?thesis
  proof (cases hs)
    case HWaiting
    then obtain r where r: "r \<in> R" "querying (st r)" using I(6) by auto
    show ?thesis
    proof (cases "st r = Blocked")
      case True
      then show ?thesis using I(7) [OF r(1)] by auto
    qed (use flight [OF r(1)] r(2) in \<open>cases "st r"; auto\<close>)
  next
    case HPreparing
    then have "card {r \<in> R. \<not> counted (st r)} > 0" "\<forall>r \<in> R. preparing (st r)" using I(6) by auto
    then obtain r where r: "r \<in> R" "\<not> counted (st r)" "preparing (st r)" by (auto simp: card_gt_0_iff)
    then show ?thesis using flight [OF r(1)] by (cases "st r") auto
  next
    case (HFinishing d)
    then have "card {r \<in> R. st r \<noteq> Fin d} > 0" "\<forall>r \<in> R. finishing d (st r)" using I(6) by auto
    then obtain r where r: "r \<in> R" "st r \<noteq> Fin d" "finishing d (st r)" by (auto simp: card_gt_0_iff)
    then show ?thesis using flight [OF r(1)] by (cases "st r") auto
  qed (use hs I(3,4,5) in \<open>auto simp: parts_ok_def\<close>)
qed

section \<open>A run of the protocol\<close>

definition tpc_do :: "tpc_cfg \<Rightarrow> verdict \<Rightarrow> packet \<times> run \<Rightarrow> tpc_sys \<Rightarrow> tpc_sys option" where
  "tpc_do cf v op s =
     (case op of (pk, r) \<Rightarrow>
        if pk \<in># y_net s \<and> run_ok cf (pk_dest pk) r
        then map_option (\<lambda>(rc, nd). absorb (pk_dest pk) nd (s\<lparr>y_net := y_net s - {#pk#}\<rparr>)) (process cf 1 r v pk (y_node s (pk_dest pk)))
        else None)"

fun tpc_run :: "tpc_cfg \<Rightarrow> verdict \<Rightarrow> (packet \<times> run) list \<Rightarrow> tpc_sys \<Rightarrow> tpc_sys option" where
  "tpc_run cf v [] s = Some s"
| "tpc_run cf v (op # ops) s = tpc_do cf v op s \<bind> tpc_run cf v ops"

lemma tpc_run_reach:
  assumes "verdict_ok v" "tpc_run cf v ops s = Some s'" "tpc_reach cf tts s"
  shows "tpc_reach cf tts s'"
  using assms(2,3)
proof (induction ops arbitrary: s)
  case (Cons op ops)
  obtain pk r where op: "op = (pk, r)" by (cases op)
  from Cons.prems(1) obtain s1 where s1: "tpc_do cf v op s = Some s1" "tpc_run cf v ops s1 = Some s'"
    by (auto split: bind_splits)
  then have "tpc_step cf s s1"
    using deliver [of pk s cf r v 1] assms(1) by (auto simp: tpc_do_def op split: if_splits)
  with Cons s1(2) show ?case by (blast intro: tpc_reach.step)
qed simp

definition demo_cf :: tpc_cfg where
  "demo_cf = \<lparr>t_cc = NO_WAIT, t_node_cnt = 2, t_txn = 4, t_readonly = False\<rparr>"

definition demo_tts :: "nat \<Rightarrow> time_table" where
  "demo_tts n = time_table_init 3"

definition demo_verdict :: verdict where
  "demo_verdict = \<lparr>v_rc = RCOK, v_bound = RCOK, v_time_table = time_table_init 3, v_commit_timestamp = 0\<rparr>"

definition demo_ops :: "(packet \<times> run) list" where
  "demo_ops = [(pack 0 0 ClQryMsg, RunRemote 1), (pack 1 0 (RqryMsg 0 0), RunDone), (pack 0 1 (RqryRspMsg RCOK), RunDone),
     (pack 1 0 PrepareMsg, RunDone), (pack 0 1 (AckPrepMsg RCOK 0 0), RunDone), (pack 1 0 (FinishMsg RCOK False 0), RunDone),
     (pack 0 1 (AckFinMsg RCOK), RunDone)]"

lemma demo_ok: "tpc_cfg_ok demo_cf demo_tts" "verdict_ok demo_verdict"
proof -
  have tt: "tt_ok (time_table_init 3)" by (rule tt_ok_init) simp
  moreover have "tt_find (time_table_init 3) 4 = None" by code_simp
  ultimately show "tpc_cfg_ok demo_cf demo_tts" "verdict_ok demo_verdict"
    by (simp_all add: tpc_cfg_ok_def demo_cf_def demo_tts_def demo_verdict_def verdict_ok_def)
qed

lemma demo_run:
  "map_option (\<lambda>s. (y_log s, y_net s = {#}, x_client (y_node s 0))) (tpc_run demo_cf demo_verdict demo_ops (tpc_init demo_cf demo_tts)) =
   Some ([(0, 0, RCOK), (1, 0, RCOK)], True, 1)"
  by code_simp

lemma demo_step:
  "map_option (\<lambda>s. (y_net s = {#pack 0 1 (AckPrepMsg RCOK 0 0)#}, x_client (y_node s 0)))
     (tpc_run demo_cf demo_verdict (take 4 demo_ops) (tpc_init demo_cf demo_tts)) = Some (True, 0)"
  by code_simp

section \<open>The commit phase ends\<close>

fun msg_weight :: "tpc_cfg \<Rightarrow> tpc_msg \<Rightarrow> nat" where
  "msg_weight cf PrepareMsg = 2 * t_node_cnt cf + 2"
| "msg_weight cf (AckPrepMsg _ _ _) = 2 * t_node_cnt cf + 1"
| "msg_weight cf (FinishMsg _ _ _) = 2"
| "msg_weight cf (AckFinMsg _) = 1"
| "msg_weight cf _ = 0"

definition net_weight :: "tpc_cfg \<Rightarrow> packet multiset \<Rightarrow> nat" where
  "net_weight cf net = (\<Sum>pk \<in># net. msg_weight cf (pk_msg pk))"

lemma out_frame [simp]:
  "x_out (snd (tm_abort cf nd)) = x_out nd" "x_out (tm_reset nd) = x_out nd" "x_out (reset_query nd) = x_out nd"
  "x_out (release_txn_man nd) = x_out nd" "x_out (wt_abort nd) = x_out nd" "x_out (release_locks rc nd) = x_out nd"
  "x_out (mq_enqueue d m nd) = x_out nd @ [pack d (x_id nd) m]"
  by (simp_all add: tm_abort_def release_locks_def tm_reset_def reset_query_def release_txn_man_def wt_abort_def mq_enqueue_def Let_def)

lemma out_commit: "tm_commit cf nd = Some (rc, nd') \<Longrightarrow> x_out nd' = x_out nd"
  by (auto simp: tm_commit_def Let_def)

lemma weight_simps [simp]:
  "net_weight cf {#} = 0" "net_weight cf (add_mset pk net) = msg_weight cf (pk_msg pk) + net_weight cf net"
  "net_weight cf (a + b) = net_weight cf a + net_weight cf b"
  by (simp_all add: net_weight_def)

lemma weight_prepare:
  assumes "process_rprepare cf src v nd = Some (rc, nd')" "x_out nd = []"
  shows "net_weight cf (mset (x_out nd')) < msg_weight cf PrepareMsg"
proof -
  obtain rc1 nd1 where val: "tm_validate cf v nd = (rc1, nd1)" by (cases "tm_validate cf v nd")
  obtain lower upper where b: "ack_bounds cf (nd1\<lparr>x_rc := rc1\<rparr>) = (lower, upper)" by (cases "ack_bounds cf (nd1\<lparr>x_rc := rc1\<rparr>)")
  have "x_out nd1 = []" using tm_validate_fields(7) [of cf v nd] assms(2) by (simp add: val)
  moreover have "x_out nd' = x_out nd1 @ [pack src (x_id nd1) (AckPrepMsg rc1 lower upper)]"
    using assms(1) b by (auto simp: process_rprepare_def val new_ack_prep_def Let_def)
  ultimately show ?thesis by simp
qed

lemma weight_finish:
  assumes "process_rfin cf d ro ct nd = Some (rc, nd')" "x_out nd = []"
  shows "net_weight cf (mset (x_out nd')) < msg_weight cf (FinishMsg d ro ct)"
proof (cases "d = Abort")
  case True
  then show ?thesis using assms by (auto simp: process_rfin_def Let_def split: if_splits)
next
  case False
  then show ?thesis using assms by (auto simp: process_rfin_def tm_commit_def Let_def split: if_splits)
qed

lemma weight_ack_fin:
  assumes "process_rack_rfin cf d nd = Some (rc, nd')" "x_out nd = []"
  shows "net_weight cf (mset (x_out nd')) < msg_weight cf (AckFinMsg d)"
proof -
  obtain k nd1 where rr: "received_response cf d nd = Some (k, nd1)"
    using assms(1) by (cases "received_response cf d nd") (auto simp: process_rack_rfin_def)
  then have "x_out nd1 = []" using assms(2) by (auto simp: received_response_def Let_def split: if_splits)
  then show ?thesis using assms(1) by (auto simp: process_rack_rfin_def rr wt_commit_def split: if_splits)
qed

lemma weight_send_finish:
  assumes "send_finish_messages cf nd = Some nd'" "x_out nd = []" "length (x_parts nd) \<le> t_node_cnt cf"
  shows "net_weight cf (mset (x_out nd')) \<le> 2 * t_node_cnt cf"
proof -
  let ?ps = "filter (\<lambda>p. GET_NODE_ID cf p \<noteq> x_id nd) (x_parts nd)"
  have out: "x_out nd' = map (\<lambda>p. pack (GET_NODE_ID cf p) (x_id nd) (new_finish cf nd)) ?ps"
    using assms(1,2) by (auto simp: send_finish_messages_def tm_send_all_eq new_finish_def Let_def split: if_splits)
  have "net_weight cf (mset (map (\<lambda>p. pack (GET_NODE_ID cf p) (x_id nd) (new_finish cf nd)) ps)) = 2 * length ps" for ps
    by (induction ps) (simp_all add: new_finish_def)
  then have "net_weight cf (mset (x_out nd')) = 2 * length ?ps" unfolding out by blast
  also have "\<dots> \<le> 2 * length (x_parts nd)" by simp
  finally show ?thesis using assms(3) by simp
qed

lemma weight_ack_prep:
  assumes p: "process_rack_prep cf arc l u v nd = Some (rc, nd')" and nd: "x_out nd = []" "length (x_parts nd) \<le> t_node_cnt cf"
  shows "net_weight cf (mset (x_out nd')) < msg_weight cf (AckPrepMsg arc l u)"
proof -
  obtain k nd1 where rr: "received_response cf arc nd = Some (k, nd1)" using p by (cases "received_response cf arc nd") (auto simp: process_rack_prep_def)
  then have f1: "x_out nd1 = []" "x_parts nd1 = x_parts nd"
    using nd(1) by (auto simp: received_response_def Let_def split: bind_splits)
  define nd2 where "nd2 = integrate_bounds cf arc l u nd1"
  define rn where "rn = (if x_rc nd2 = RCOK then tm_validate cf v nd2 else (RCOK, nd2))"
  have "x_out (snd rn) = []" "x_parts (snd rn) = x_parts nd" "x_out nd2 = []"
    using f1 by (simp_all add: rn_def nd2_def integrate_bounds_fields)
  moreover obtain r1 n3 where rn: "rn = (r1, n3)" by (cases rn)
  ultimately have f2: "x_out n3 = []" "x_parts n3 = x_parts nd" "x_out nd2 = []" by simp_all
  have pos: "k \<ge> 0" using p rr by (cases "k \<ge> 0") (simp_all add: process_rack_prep_def)
  show ?thesis
  proof (cases "k > 0")
    case True
    then show ?thesis using p rr f2(3) by (simp add: process_rack_prep_def nd2_def)
  next
    case False
    define d where "d = (if r1 = Abort \<or> x_rc n3 = Abort then Abort else r1)"
    define nd3 where "nd3 = (if r1 = Abort \<or> x_rc n3 = Abort then n3\<lparr>x_rc := Abort\<rparr> else n3)"
    have eq: "process_rack_prep cf arc l u v nd = do { nd \<leftarrow> send_finish_messages cf nd3;
       if d = Abort then Some (d, snd (tm_abort cf nd)) else do { (_, nd) \<leftarrow> tm_commit cf nd; Some (d, nd) } }"
      using False pos unfolding process_rack_prep_def rr bind.bind_lunit case_prod_conv nd2_def [symmetric] Let_def
        rn_def [symmetric] rn by (simp add: d_def nd3_def)
    then obtain nd4 where nd4: "send_finish_messages cf nd3 = Some nd4" using p by (cases "send_finish_messages cf nd3") auto
    then have "(if d = Abort then Some (d, snd (tm_abort cf nd4)) else do { (_, nd) \<leftarrow> tm_commit cf nd4; Some (d, nd) }) = Some (rc, nd')"
      using eq p by simp
    then have out: "x_out nd' = x_out nd4"
      by (cases "d = Abort"; cases "tm_commit cf nd4") (auto dest: out_commit)
    have "x_out nd3 = []" "length (x_parts nd3) \<le> t_node_cnt cf" using f2 nd(2) by (auto simp: nd3_def)
    from weight_send_finish [OF nd4 this] show ?thesis unfolding out by simp
  qed
qed

text \<open>C24: Once voting has begun the protocol ends: processing a message of the commit phase strictly decreases the weight of the messages in flight, so that a bounded number of deliveries completes the attempt.\<close>

theorem commit_phase_ends:
  assumes "tpc_reach cf tts s" "tpc_cfg_ok cf tts" "pk \<in># y_net s" "msg_weight cf (pk_msg pk) > 0"
    and "process cf ts r v pk (y_node s (pk_dest pk)) = Some (rc, nd)"
  shows "net_weight cf (y_net (absorb (pk_dest pk) nd (s\<lparr>y_net := y_net s - {#pk#}\<rparr>))) < net_weight cf (y_net s)"
proof -
  from good_reach [OF assms(1,2)] obtain hs st R where inv: "tpc_inv cf hs st R s" by (auto simp: tpc_good_def)
  note I = tpc_invD [OF inv]
  have out: "x_out (y_node s (pk_dest pk)) = []" using I(1) by (simp add: node_ok_def)
  have "distinct (x_parts (y_node s (home cf)))" "set (x_parts (y_node s (home cf))) \<subseteq> {..<t_node_cnt cf}"
    using I(3) by (auto simp: parts_ok_def)
  then have parts: "length (x_parts (y_node s (home cf))) \<le> t_node_cnt cf"
    by (metis card_lessThan card_mono distinct_card finite_lessThan)
  have dest: "pk_dest pk = home cf" if "pk_msg pk = AckPrepMsg arc l u" for arc l u
  proof -
    consider "hmsgs cf hs = {#pk#}" | q where "rmsgs cf q (st q) = {#pk#}" using in_flight [OF inv assms(3)] by blast
    then show ?thesis
    proof cases
      case 1
      then show ?thesis using that by (cases hs) (auto split: if_splits)
    next
      case 2
      then show ?thesis using that by (cases "st q") auto
    qed
  qed
  let ?nd = "y_node s (pk_dest pk)"
  have "net_weight cf (mset (x_out nd)) < msg_weight cf (pk_msg pk)"
  proof (cases "pk_msg pk")
    case PrepareMsg
    then show ?thesis using assms(5) weight_prepare [OF _ out] by (simp add: process_def)
  next
    case (AckPrepMsg arc l u)
    then show ?thesis using assms(5) weight_ack_prep [OF _ out] parts dest [OF AckPrepMsg] by (simp add: process_def)
  next
    case (FinishMsg d ro ct)
    then show ?thesis using assms(5) weight_finish [OF _ out] by (simp add: process_def)
  next
    case (AckFinMsg d)
    then show ?thesis using assms(5) weight_ack_fin [OF _ out] by (simp add: process_def)
  qed (use assms(4) in auto)
  moreover have "y_net s = add_mset pk (y_net s - {#pk#})" using assms(3) by simp
  then have "net_weight cf (y_net s) = msg_weight cf (pk_msg pk) + net_weight cf (y_net s - {#pk#})"
    by (metis weight_simps(2))
  ultimately show ?thesis by simp
qed


text \<open>The theorems applied to the run of \<open>demo_ops\<close>.\<close>

lemma demo_reached:
  assumes "tpc_run demo_cf demo_verdict ops (tpc_init demo_cf demo_tts) = Some s"
  shows "tpc_reach demo_cf demo_tts s"
  using tpc_run_reach [OF demo_ok(2) assms tpc_reach.init] .

lemma demo_home: "home demo_cf = 0"
  by code_simp

lemma demo_end:
  "\<exists>s. tpc_reach demo_cf demo_tts s \<and> y_log s = [(0, 0, RCOK), (1, 0, RCOK)] \<and> y_net s = {#} \<and> x_client (y_node s 0) = 1"
  using demo_run demo_reached by (fastforce simp: map_option_eq_Some)

lemma demo_vote:
  "\<exists>s. tpc_reach demo_cf demo_tts s \<and> y_net s = {#pack 0 1 (AckPrepMsg RCOK 0 0)#} \<and> x_client (y_node s 0) = 0"
  using demo_step demo_reached by (fastforce simp: map_option_eq_Some)

theorem commit_agreement_witness:
  "\<exists>s. tpc_reach demo_cf demo_tts s \<and> (0, 0, RCOK) \<in> set (y_log s) \<and> (1, 0, Abort) \<notin> set (y_log s)"
  using demo_end commit_agreement [OF _ demo_ok(1), of _ 0 0 1] by (metis list.set_intros(1))

theorem locks_released_once_witness:
  "\<exists>s. tpc_reach demo_cf demo_tts s \<and> length (y_log s) = 2 \<and> distinct (map (\<lambda>(n, b, _). (n, b)) (y_log s))"
proof -
  obtain s where s: "tpc_reach demo_cf demo_tts s" "y_log s = [(0, 0, RCOK), (1, 0, RCOK)]" using demo_end by blast
  have "length (y_log s) = 2" unfolding s(2) by simp
  then show ?thesis using s(1) locks_released_once [OF s(1) demo_ok(1)] by blast
qed

theorem client_response_final_witness:
  "\<exists>s. tpc_reach demo_cf demo_tts s \<and> x_client (y_node s 0) > 0 \<and> (\<forall>n. \<not> x_held (y_node s n)) \<and> (0, y_attempt s, RCOK) \<in> set (y_log s)"
proof -
  obtain s where s: "tpc_reach demo_cf demo_tts s" "x_client (y_node s 0) = 1" using demo_end by blast
  have "\<not> t_readonly demo_cf" by (simp add: demo_cf_def)
  then show ?thesis using client_response_final [OF s(1) demo_ok(1)] s by (auto simp: demo_home)
qed

theorem commit_no_assert_fails_witness:
  "\<exists>s. tpc_reach demo_cf demo_tts s \<and>
     process demo_cf 1 RunDone demo_verdict (pack 0 1 (AckPrepMsg RCOK 0 0)) (y_node s 0) \<noteq> None"
proof -
  obtain s where s: "tpc_reach demo_cf demo_tts s" "y_net s = {#pack 0 1 (AckPrepMsg RCOK 0 0)#}" using demo_vote by blast
  show ?thesis
    using commit_no_assert_fails [OF s(1) demo_ok(1), of "pack 0 1 (AckPrepMsg RCOK 0 0)" RunDone demo_verdict 1] s demo_ok(2)
    by (auto simp: run_ok_def)
qed

theorem commit_not_stuck_witness:
  "\<exists>s. tpc_reach demo_cf demo_tts s \<and> x_client (y_node s 0) = 0 \<and>
     (y_net s \<noteq> {#} \<or> (\<exists>n. x_blocked (y_node s n)) \<or> x_abort_queue (y_node s 0) = 1)"
proof -
  obtain s where s: "tpc_reach demo_cf demo_tts s" "x_client (y_node s 0) = 0" using demo_vote by blast
  show ?thesis using commit_not_stuck [OF s(1) demo_ok(1)] s by (auto simp: demo_home)
qed

theorem commit_phase_ends_witness:
  "\<exists>s rc nd. tpc_reach demo_cf demo_tts s \<and>
     process demo_cf 1 RunDone demo_verdict (pack 0 1 (AckPrepMsg RCOK 0 0)) (y_node s 0) = Some (rc, nd) \<and>
     net_weight demo_cf (y_net (absorb 0 nd (s\<lparr>y_net := {#}\<rparr>))) < net_weight demo_cf (y_net s)"
proof -
  let ?pk = "pack 0 1 (AckPrepMsg RCOK 0 0)"
  obtain s where s: "tpc_reach demo_cf demo_tts s" "y_net s = {#?pk#}" using demo_vote by blast
  have "tpc_good demo_cf s" using good_reach [OF s(1) demo_ok(1)] .
  then obtain rc nd where p: "process demo_cf 1 RunDone demo_verdict ?pk (y_node s 0) = Some (rc, nd)"
    using process_good [of demo_cf s ?pk RunDone demo_verdict 1] s(2) demo_ok by (auto simp: run_ok_def tpc_cfg_ok_def)
  show ?thesis using commit_phase_ends [OF s(1) demo_ok(1), of ?pk 1 RunDone demo_verdict rc nd] s p by auto
qed

end
