(* ===== verification/Timestamps.thy ===== *)
theory Timestamps
  imports Deneva_Base
begin

text \<open>
  The numbers the system gives to transactions: timestamps (\<^verbatim>\<open>system/manager.cpp\<close> and \<^verbatim>\<open>get_next_ts\<close> of
  \<^verbatim>\<open>system/worker_thread.cpp\<close>) and transaction numbers (\<^verbatim>\<open>get_next_txn_id\<close>), at the widths of the code. The
  reading of the wall clock is an argument. An atomic addition is one step, and \<open>alloc_run\<close> interleaves the
  allocations of all threads of a node.

  Transaction numbers are unique and name their home node; timestamps of the counter are unique; those of
  the clock are unique only for few threads.
\<close>

section \<open>The allocators\<close>

datatype ts_alloc = TS_MUTEX | TS_CAS | TS_HW | TS_CLOCK

record ts_cfg =
  g_node_id :: u32
  g_node_cnt :: u32
  g_thread_cnt :: u32
  g_ts_alloc :: ts_alloc
  g_ts_batch_alloc :: bool
  g_ts_batch_num :: u32

record manager =
  mg_timestamp :: u64
  mg_last_min_ts_time :: u64
  mg_min_ts :: u64

record worker =
  wk_thd_id :: u64
  wk_thd_txn_id :: u64
  wk_curr_ts :: u64

definition manager_init :: manager where
  "manager_init = \<lparr>mg_timestamp = 1, mg_last_min_ts_time = 0, mg_min_ts = 0\<rparr>"

definition clock_ts :: "ts_cfg \<Rightarrow> u64 \<Rightarrow> u64 \<Rightarrow> u64" where
  "clock_ts cf now thread_id =
     now * ucast (g_node_cnt cf + g_thread_cnt cf) + (ucast (g_node_id cf * g_thread_cnt cf) + thread_id)"

definition get_ts :: "ts_cfg \<Rightarrow> u64 \<Rightarrow> u64 \<Rightarrow> manager \<Rightarrow> (u64 \<times> manager) option" where
  "get_ts cf now thread_id mg = do {
     ASSERT (g_ts_batch_alloc cf \<longrightarrow> g_ts_alloc cf = TS_CAS);
     (case g_ts_alloc cf of
        TS_MUTEX \<Rightarrow> Some (mg_timestamp mg + 1, mg\<lparr>mg_timestamp := mg_timestamp mg + 1\<rparr>)
      | TS_CAS \<Rightarrow> Some (mg_timestamp mg,
          mg\<lparr>mg_timestamp := mg_timestamp mg + (if g_ts_batch_alloc cf then ucast (g_ts_batch_num cf) else 1)\<rparr>)
      | TS_HW \<Rightarrow> None
      | TS_CLOCK \<Rightarrow> Some (clock_ts cf now thread_id, mg)) }"

definition get_next_ts :: "ts_cfg \<Rightarrow> u64 \<Rightarrow> manager \<Rightarrow> worker \<Rightarrow> (u64 \<times> manager \<times> worker) option" where
  "get_next_ts cf now mg w =
     (if g_ts_batch_alloc cf
      then do {
        (curr, mg) \<leftarrow> (if wk_curr_ts w mod ucast (g_ts_batch_num cf) = 0
                      then do { (t, mg) \<leftarrow> get_ts cf now (wk_thd_id w) mg; Some (t + 1, mg) }
                      else Some (wk_curr_ts w + 1, mg));
        Some (curr - 1, mg, w\<lparr>wk_curr_ts := curr\<rparr>) }
      else do {
        (t, mg) \<leftarrow> get_ts cf now (wk_thd_id w) mg;
        Some (t, mg, w\<lparr>wk_curr_ts := t\<rparr>) })"

definition get_next_txn_id :: "ts_cfg \<Rightarrow> worker \<Rightarrow> u64 \<times> worker" where
  "get_next_txn_id cf w =
     ((ucast (g_node_id cf) + wk_thd_id w * ucast (g_node_cnt cf)) + ucast (g_thread_cnt cf * g_node_cnt cf) * wk_thd_txn_id w,
      w\<lparr>wk_thd_txn_id := wk_thd_txn_id w + 1\<rparr>)"

text \<open>\<^verbatim>\<open>setup\<close> of a worker sets the counter to 0. Calls of \<^verbatim>\<open>get_next_txn_id\<close> by the threads of all nodes, in the
  order in which they happen.\<close>

definition worker_setup :: "u64 \<Rightarrow> u64 \<Rightarrow> worker" where
  "worker_setup t mem = \<lparr>wk_thd_id = t, wk_thd_txn_id = 0, wk_curr_ts = mem\<rparr>"

fun issue_run :: "ts_cfg \<Rightarrow> (u32 \<times> u64) list \<Rightarrow> (u32 \<times> u64 \<Rightarrow> worker) \<Rightarrow> u64 list" where
  "issue_run cf [] ws = []"
| "issue_run cf ((n, t) # calls) ws =
     (case get_next_txn_id (cf\<lparr>g_node_id := n\<rparr>) (ws (n, t)) of (i, w) \<Rightarrow> i # issue_run cf calls (ws((n, t) := w)))"

text \<open>The allocations of all threads of a node, in the order in which they happen.\<close>

fun alloc_run :: "ts_cfg \<Rightarrow> (u64 \<times> nat) list \<Rightarrow> manager \<Rightarrow> (nat \<Rightarrow> worker) \<Rightarrow> (u64 list \<times> manager \<times> (nat \<Rightarrow> worker)) option" where
  "alloc_run cf [] mg ws = Some ([], mg, ws)"
| "alloc_run cf ((now, t) # ops) mg ws = do {
     (ts, mg, w) \<leftarrow> get_next_ts cf now mg (ws t);
     (out, mg, ws) \<leftarrow> alloc_run cf ops mg (ws(t := w));
     Some (ts # out, mg, ws) }"

section \<open>Transaction numbers\<close>

lemma unat_ucast_32_64 [simp]: "unat (ucast (x :: u32) :: u64) = unat x"
proof -
  have "unat x < 2 ^ 64" by (rule less_trans [OF unsigned_less]) simp
  then show ?thesis by (simp add: unsigned_ucast_eq take_bit_nat_eq_self)
qed

lemma unat_txn_id:
  assumes "unat (g_node_id cf) < unat (g_node_cnt cf)" "unat (wk_thd_id w) < unat (g_thread_cnt cf)"
    "unat (g_thread_cnt cf) * unat (g_node_cnt cf) < 2 ^ 32"
    "unat (g_thread_cnt cf) * unat (g_node_cnt cf) * (unat (wk_thd_txn_id w) + 1) \<le> 2 ^ 64"
  shows "unat (fst (get_next_txn_id cf w)) =
    unat (g_node_id cf) + unat (g_node_cnt cf) * (unat (wk_thd_id w) + unat (g_thread_cnt cf) * unat (wk_thd_txn_id w))"
proof -
  let ?n = "unat (g_node_id cf)" and ?N = "unat (g_node_cnt cf)" and ?t = "unat (wk_thd_id w)" and ?T = "unat (g_thread_cnt cf)"
    and ?c = "unat (wk_thd_txn_id w)"
  have "Suc ?t * ?N \<le> ?T * ?N" using assms(2) by (intro mult_le_mono1) simp
  then have a: "?n + ?t * ?N < ?T * ?N" using assms(1) by simp
  then have b: "?n + ?t * ?N + ?T * ?N * ?c < 2 ^ 64" using assms(4) by (simp add: algebra_simps)
  have "unat (fst (get_next_txn_id cf w)) = (?n + ?t * ?N + (?T * ?N mod 2 ^ 32) * ?c) mod 2 ^ 64"
    by (simp add: get_next_txn_id_def unat_word_ariths mod_simps)
  also have "\<dots> = ?n + ?t * ?N + ?T * ?N * ?c" using b assms(3) by simp
  finally show ?thesis by (simp add: algebra_simps)
qed


lemma mixed_radix_eq:
  assumes "(a :: nat) < n" "a' < n" "a + n * b = a' + n * b'"
  shows "a = a'" "b = b'"
proof -
  have "(a + n * b) mod n = (a' + n * b') mod n" "(a + n * b) div n = (a' + n * b') div n" using assms(3) by simp_all
  then show "a = a'" "b = b'" using assms(1,2) by simp_all
qed

definition issues :: "ts_cfg \<Rightarrow> worker \<Rightarrow> bool" where
  "issues cf w \<longleftrightarrow> unat (g_node_id cf) < unat (g_node_cnt cf) \<and> unat (wk_thd_id w) < unat (g_thread_cnt cf) \<and>
     unat (g_thread_cnt cf) * unat (g_node_cnt cf) < 2 ^ 32 \<and>
     unat (g_thread_cnt cf) * unat (g_node_cnt cf) * (unat (wk_thd_txn_id w) + 1) \<le> 2 ^ 64"

lemma txn_id_eq:
  assumes "issues cf w" "issues cf' w'" "g_node_cnt cf' = g_node_cnt cf" "g_thread_cnt cf' = g_thread_cnt cf"
    "fst (get_next_txn_id cf w) = fst (get_next_txn_id cf' w')"
  shows "g_node_id cf = g_node_id cf' \<and> wk_thd_id w = wk_thd_id w' \<and> wk_thd_txn_id w = wk_thd_txn_id w'"
proof -
  let ?N = "unat (g_node_cnt cf)" and ?T = "unat (g_thread_cnt cf)"
  have id: "unat (fst (get_next_txn_id cf w)) = unat (g_node_id cf) + ?N * (unat (wk_thd_id w) + ?T * unat (wk_thd_txn_id w))"
    and id': "unat (fst (get_next_txn_id cf' w')) = unat (g_node_id cf') + ?N * (unat (wk_thd_id w') + ?T * unat (wk_thd_txn_id w'))"
    using assms unat_txn_id [of cf w] unat_txn_id [of cf' w'] unfolding issues_def by metis+
  have b: "unat (g_node_id cf) < ?N" "unat (g_node_id cf') < ?N" "unat (wk_thd_id w) < ?T" "unat (wk_thd_id w') < ?T"
    using assms unfolding issues_def by metis+
  have eq: "unat (g_node_id cf) + ?N * (unat (wk_thd_id w) + ?T * unat (wk_thd_txn_id w)) =
    unat (g_node_id cf') + ?N * (unat (wk_thd_id w') + ?T * unat (wk_thd_txn_id w'))" using assms(5) id id' by simp
  from mixed_radix_eq [OF b(1,2) eq] mixed_radix_eq [OF b(3,4)] show ?thesis unfolding word_unat_eq_iff by blast
qed

lemma txn_id_node:
  assumes "issues cf w"
  shows "fst (get_next_txn_id cf w) mod ucast (g_node_cnt cf) = ucast (g_node_id cf)"
proof -
  have id: "unat (fst (get_next_txn_id cf w)) = unat (g_node_id cf) + unat (g_node_cnt cf) * (unat (wk_thd_id w) + unat (g_thread_cnt cf) * unat (wk_thd_txn_id w))"
    and b: "unat (g_node_id cf) < unat (g_node_cnt cf)"
    using assms unat_txn_id [of cf w] unfolding issues_def by metis+
  show ?thesis unfolding word_unat_eq_iff unat_mod unat_ucast_32_64 id using b by simp
qed

text \<open>The threads that may still make \<open>k\<close> calls without an overflow.\<close>

definition calls_left :: "ts_cfg \<Rightarrow> nat \<Rightarrow> (u32 \<times> u64 \<Rightarrow> worker) \<Rightarrow> bool" where
  "calls_left cf k ws \<longleftrightarrow> unat (g_thread_cnt cf) * unat (g_node_cnt cf) < 2 ^ 32 \<and>
     (\<forall>n t. wk_thd_id (ws (n, t)) = t \<and> unat (g_thread_cnt cf) * unat (g_node_cnt cf) * (unat (wk_thd_txn_id (ws (n, t))) + k) < 2 ^ 64)"

definition callers :: "ts_cfg \<Rightarrow> (u32 \<times> u64) list \<Rightarrow> bool" where
  "callers cf calls \<longleftrightarrow> list_all (\<lambda>(n, t). unat n < unat (g_node_cnt cf) \<and> unat t < unat (g_thread_cnt cf)) calls"

text \<open>Every number issued from a state is that of one of its threads with a counter that is not behind.\<close>

definition issued_from :: "ts_cfg \<Rightarrow> (u32 \<times> u64 \<Rightarrow> worker) \<Rightarrow> u32 \<Rightarrow> u64 \<Rightarrow> bool" where
  "issued_from cf ws n i \<longleftrightarrow> (\<exists>w. issues (cf\<lparr>g_node_id := n\<rparr>) w \<and> i = fst (get_next_txn_id (cf\<lparr>g_node_id := n\<rparr>) w) \<and>
     unat (wk_thd_txn_id (ws (n, wk_thd_id w))) \<le> unat (wk_thd_txn_id w))"

lemma issued_from_mono:
  "issued_from cf ws' n i \<Longrightarrow> (\<And>x. unat (wk_thd_txn_id (ws x)) \<le> unat (wk_thd_txn_id (ws' x))) \<Longrightarrow> issued_from cf ws n i"
  unfolding issued_from_def by (elim exE, rule exI) (blast intro: order.trans)

lemma calls_left_step:
  assumes l: "calls_left cf (Suc k) ws" and c: "unat n < unat (g_node_cnt cf)" "unat t < unat (g_thread_cnt cf)"
    and w: "get_next_txn_id (cf\<lparr>g_node_id := n\<rparr>) (ws (n, t)) = (i, w)"
  shows "calls_left cf k (ws((n, t) := w))" "issues (cf\<lparr>g_node_id := n\<rparr>) (ws (n, t))"
    "unat (wk_thd_txn_id w) = unat (wk_thd_txn_id (ws (n, t))) + 1"
proof -
  let ?P = "unat (g_thread_cnt cf) * unat (g_node_cnt cf)" and ?c = "\<lambda>n t. unat (wk_thd_txn_id (ws (n, t)))"
  have P: "?P < 2 ^ 32" "0 < ?P" using l c by (simp_all add: calls_left_def)
  have le: "?P * (?c n' t' + Suc k) < 2 ^ 64" for n' t' using l by (simp add: calls_left_def)
  have mono: "?P * (?c n' t' + k') < 2 ^ 64" if "k' \<le> Suc k" for n' t' k'
  proof -
    have "?P * (?c n' t' + k') \<le> ?P * (?c n' t' + Suc k)" using that by (intro mult_le_mono2) simp
    then show ?thesis using le [of n' t'] by (rule le_less_trans)
  qed
  have "?c n t + 1 \<le> ?P * (?c n t + 1)" using P(2) by (cases ?P) auto
  then have lt: "?c n t + 1 < 2 ^ 64" using mono [of 1 n t] by simp
  show "issues (cf\<lparr>g_node_id := n\<rparr>) (ws (n, t))" using P c mono [of 1 n t] l by (simp add: issues_def calls_left_def)
  show cw: "unat (wk_thd_txn_id w) = ?c n t + 1" using w lt by (auto simp: get_next_txn_id_def unat_word_ariths)
  have "wk_thd_id w = t" using w l by (auto simp: get_next_txn_id_def calls_left_def)
  then show "calls_left cf k (ws((n, t) := w))" using l mono [of k] le [of n t] cw by (auto simp: calls_left_def algebra_simps)
qed

lemma issue_run_distinct:
  "calls_left cf (length calls) ws \<Longrightarrow> callers cf calls \<Longrightarrow>
   distinct (issue_run cf calls ws) \<and> list_all2 (\<lambda>(n, t). issued_from cf ws n) calls (issue_run cf calls ws)"
proof (induction calls arbitrary: ws)
  case (Cons nt calls)
  obtain n t where nt: "nt = (n, t)" by (cases nt)
  obtain i w where w: "get_next_txn_id (cf\<lparr>g_node_id := n\<rparr>) (ws (n, t)) = (i, w)" by fastforce
  have c: "unat n < unat (g_node_cnt cf)" "unat t < unat (g_thread_cnt cf)" "callers cf calls" using Cons.prems(2) by (simp_all add: callers_def nt)
  note st = calls_left_step [of cf "length calls" ws n t i w, OF _ c(1,2) w]
  have l: "calls_left cf (length calls) (ws((n, t) := w))" "issues (cf\<lparr>g_node_id := n\<rparr>) (ws (n, t))" "unat (wk_thd_txn_id w) = unat (wk_thd_txn_id (ws (n, t))) + 1"
    using st Cons.prems(1) by simp_all
  let ?ws = "ws((n, t) := w)"
  let ?out = "issue_run cf calls ?ws"
  have IH: "distinct ?out" "list_all2 (\<lambda>(n, t). issued_from cf ?ws n) calls ?out" using Cons.IH [of ?ws] l(1) c(3) by blast+
  have up: "unat (wk_thd_txn_id (ws x)) \<le> unat (wk_thd_txn_id (?ws x))" for x using l(3) by simp
  have all: "list_all2 (\<lambda>(n, t). issued_from cf ws n) calls ?out"
    by (rule list_all2_mono [OF IH(2)]) (auto intro: issued_from_mono [OF _ up])
  have thd: "wk_thd_id (ws (n, t)) = t" using Cons.prems(1) by (simp add: calls_left_def)
  have head: "issued_from cf ws n i" unfolding issued_from_def using l(2) w thd by (intro exI [of _ "ws (n, t)"]) simp
  have "i \<notin> set ?out"
  proof
    assume "i \<in> set ?out"
    then obtain k where k: "k < length ?out" "?out ! k = i" by (auto simp: in_set_conv_nth)
    then obtain m where "issued_from cf ?ws m i" using list_all2_nthD2 [OF IH(2) k(1)] by (auto split: prod.splits)
    then obtain w' where w': "issues (cf\<lparr>g_node_id := m\<rparr>) w'" "i = fst (get_next_txn_id (cf\<lparr>g_node_id := m\<rparr>) w')"
      "unat (wk_thd_txn_id (?ws (m, wk_thd_id w'))) \<le> unat (wk_thd_txn_id w')" by (auto simp: issued_from_def)
    have "fst (get_next_txn_id (cf\<lparr>g_node_id := n\<rparr>) (ws (n, t))) = fst (get_next_txn_id (cf\<lparr>g_node_id := m\<rparr>) w')" using w w'(2) by simp
    from txn_id_eq [OF l(2) w'(1) _ _ this] have "n = m" "t = wk_thd_id w'" "wk_thd_txn_id (ws (n, t)) = wk_thd_txn_id w'" using thd by auto
    then show False using w'(3) l(3) by simp
  qed
  then show ?case using IH(1) all head by (simp add: nt w)
qed simp

text \<open>C26: The transaction numbers that all threads of all nodes issue from the start of the system, in any order, are all different, and the node that issues a number is the home node that GET_NODE_ID computes from it, as long as no counter overflows.\<close>

theorem txn_ids_unique:
  assumes "callers cf calls" "unat (g_thread_cnt cf) * unat (g_node_cnt cf) < 2 ^ 32"
    "unat (g_thread_cnt cf) * unat (g_node_cnt cf) * length calls < 2 ^ 64"
  shows "distinct (issue_run cf calls (\<lambda>(n, t). worker_setup t (mem n t))) \<and>
    list_all2 (\<lambda>(n, t) i. i mod ucast (g_node_cnt cf) = ucast n) calls (issue_run cf calls (\<lambda>(n, t). worker_setup t (mem n t)))"
proof -
  let ?ws = "\<lambda>(n, t). worker_setup t (mem n t)"
  have "calls_left cf (length calls) ?ws" using assms(2,3) by (simp add: calls_left_def worker_setup_def)
  note r = issue_run_distinct [OF this assms(1)]
  have "i mod ucast (g_node_cnt cf) = ucast n" if "issued_from cf ?ws n i" for n i
    using that txn_id_node [of "cf\<lparr>g_node_id := n\<rparr>"] by (auto simp: issued_from_def)
  then show ?thesis using r by (auto elim: list_all2_mono)
qed

section \<open>Timestamps from the counter\<close>

text \<open>With batches of \<open>b\<close> timestamps the counter is \<open>1 + b * n\<close> after \<open>n\<close> batches; \<open>out\<close> are the timestamps issued so far.\<close>

definition batch_of :: "nat \<Rightarrow> u64 \<Rightarrow> nat" where
  "batch_of b ts = (unat ts - 1) div b"

definition active :: "nat \<Rightarrow> worker \<Rightarrow> bool" where
  "active b w \<longleftrightarrow> unat (wk_curr_ts w) mod b \<noteq> 0"

definition batch_inv :: "nat \<Rightarrow> nat \<Rightarrow> manager \<Rightarrow> (nat \<Rightarrow> worker) \<Rightarrow> u64 set \<Rightarrow> bool" where
  "batch_inv b n mg ws out \<longleftrightarrow> unat (mg_timestamp mg) = 1 + b * n \<and>
     (\<forall>t. active b (ws t) \<longrightarrow> batch_of b (wk_curr_ts (ws t)) < n) \<and>
     (\<forall>t t'. active b (ws t) \<longrightarrow> active b (ws t') \<longrightarrow> t' \<noteq> t \<longrightarrow> batch_of b (wk_curr_ts (ws t')) \<noteq> batch_of b (wk_curr_ts (ws t))) \<and>
     (\<forall>t. active b (ws t) \<longrightarrow> (\<forall>i \<in> out. batch_of b i = batch_of b (wk_curr_ts (ws t)) \<longrightarrow> i < wk_curr_ts (ws t))) \<and>
     (\<forall>i \<in> out. batch_of b i < n)"

lemma batch_invD:
  assumes "batch_inv b n mg ws out"
  shows "unat (mg_timestamp mg) = 1 + b * n" "\<And>t. active b (ws t) \<Longrightarrow> batch_of b (wk_curr_ts (ws t)) < n"
    "\<And>t t'. active b (ws t) \<Longrightarrow> active b (ws t') \<Longrightarrow> t' \<noteq> t \<Longrightarrow> batch_of b (wk_curr_ts (ws t')) \<noteq> batch_of b (wk_curr_ts (ws t))"
    "\<And>t i. active b (ws t) \<Longrightarrow> i \<in> out \<Longrightarrow> batch_of b i = batch_of b (wk_curr_ts (ws t)) \<Longrightarrow> i < wk_curr_ts (ws t)"
    "\<And>i. i \<in> out \<Longrightarrow> batch_of b i < n"
  using assms unfolding batch_inv_def by blast+

lemma batch_update:
  assumes inv: "batch_inv b n mg ws out" and n: "n \<le> n'" "unat (mg_timestamp mg') = 1 + b * n'" "batch_of b ts < n'"
    and w: "ts < wk_curr_ts w" "active b w \<Longrightarrow> batch_of b (wk_curr_ts w) = batch_of b ts"
    and own: "\<And>t'. t' \<noteq> t \<Longrightarrow> active b (ws t') \<Longrightarrow> batch_of b (wk_curr_ts (ws t')) \<noteq> batch_of b ts"
    and out: "\<And>i. i \<in> out \<Longrightarrow> batch_of b i = batch_of b ts \<Longrightarrow> i < ts"
  shows "batch_inv b n' mg' (ws(t := w)) (insert ts out)"
proof -
  note I = batch_invD [OF inv]
  have "batch_of b (wk_curr_ts ((ws(t := w)) s)) < n'" if "active b ((ws(t := w)) s)" for s
    using I(2) [of s] n that w(2) by (cases "s = t") auto
  moreover have "batch_of b (wk_curr_ts ((ws(t := w)) s')) \<noteq> batch_of b (wk_curr_ts ((ws(t := w)) s))"
    if "active b ((ws(t := w)) s)" "active b ((ws(t := w)) s')" "s' \<noteq> s" for s s'
    using I(3) [of s s'] own [of s] own [of s'] w(2) that by (cases "s = t"; cases "s' = t") auto
  moreover have "i < wk_curr_ts ((ws(t := w)) s)"
    if a: "active b ((ws(t := w)) s)" and i: "i \<in> insert ts out" "batch_of b i = batch_of b (wk_curr_ts ((ws(t := w)) s))" for s i
  proof (cases "s = t")
    case True
    then show ?thesis using a i w out [of i] by (auto intro: less_trans)
  next
    case False
    then show ?thesis using a i I(4) [of s i] own [of s] by auto
  qed
  moreover have "batch_of b i < n'" if "i \<in> insert ts out" for i using that n I(5) [of i] by auto
  ultimately show ?thesis using n(2) unfolding batch_inv_def by blast
qed

lemma batch_step:
  assumes inv: "batch_inv b n mg ws out" and cf: "g_ts_batch_alloc cf" "g_ts_alloc cf = TS_CAS" "b = unat (g_ts_batch_num cf)" "b > 0"
    and room: "b * (n + 1) + 2 < 2 ^ 64"
  shows "\<exists>ts mg' w n'. get_next_ts cf now mg (ws t) = Some (ts, mg', w) \<and> n' \<le> n + 1 \<and> ts \<notin> out \<and> batch_inv b n' mg' (ws(t := w)) (insert ts out)"
proof (cases "active b (ws t)")
  case False
  note I = batch_invD [OF inv]
  define ts where "ts = mg_timestamp mg"
  have ts: "unat ts = 1 + b * n" using I(1) by (simp add: ts_def)
  define w where "w = (ws t)\<lparr>wk_curr_ts := ts + 1\<rparr>"
  have nx: "unat (ts + 1) = 2 + b * n" "unat (ts + ucast (g_ts_batch_num cf)) = 1 + b * (n + 1)"
    using room ts cf(3) by (simp_all add: unat_word_ariths)
  have z: "wk_curr_ts (ws t) mod ucast (g_ts_batch_num cf) = 0" using False cf(3) by (simp add: active_def word_unat_eq_iff unat_mod)
  have eq: "get_next_ts cf now mg (ws t) = Some (ts, mg\<lparr>mg_timestamp := ts + ucast (g_ts_batch_num cf)\<rparr>, w)"
    using cf(1,2) z by (simp add: get_next_ts_def get_ts_def ts_def w_def)
  have b: "batch_of b ts = n" using ts cf(4) by (simp add: batch_of_def)
  have bw: "batch_of b (wk_curr_ts w) = n" if "active b w"
  proof -
    have "b \<noteq> 1" using that by (cases "b = 1") (simp_all add: active_def)
    then have "(1 + n * b) div b = n" using cf(4) by (subst div_mult_self1) simp_all
    then show ?thesis by (simp add: w_def batch_of_def nx(1) mult.commute)
  qed
  have "batch_inv b (n + 1) (mg\<lparr>mg_timestamp := ts + ucast (g_ts_batch_num cf)\<rparr>) (ws(t := w)) (insert ts out)"
  proof (rule batch_update [OF inv])
    show "ts < wk_curr_ts w" using ts nx(1) by (simp add: word_less_nat_alt w_def)
  qed (use nx(2) b bw I(2,5) in fastforce)+
  moreover have "ts \<notin> out" using I(5) b by auto
  ultimately show ?thesis using eq by (intro exI [of _ "n + 1"] exI conjI) auto
next
  case True
  note I = batch_invD [OF inv]
  define c where "c = wk_curr_ts (ws t)"
  define w where "w = (ws t)\<lparr>wk_curr_ts := c + 1\<rparr>"
  have c: "unat c mod b \<noteq> 0" "batch_of b c < n" using True I(2) [OF True] by (auto simp: active_def c_def)
  have "unat c - 1 < n * b" using c(2) cf(4) by (simp add: batch_of_def div_less_iff_less_mult)
  then have nx: "unat (c + 1) = unat c + 1" using room by (simp add: unat_word_ariths mult.commute)
  have "unat c > 0" using c(1) by (cases "unat c") auto
  then obtain k where k: "unat c = Suc k" by (cases "unat c") auto
  have same: "batch_of b (c + 1) = batch_of b c" unfolding batch_of_def nx k using c(1) by (simp add: k div_Suc)
  have eq: "get_next_ts cf now mg (ws t) = Some (c, mg, w)"
    using cf(1,3) c(1) by (simp add: get_next_ts_def c_def w_def word_unat_eq_iff unat_mod)
  have "batch_inv b n mg (ws(t := w)) (insert c out)"
  proof (rule batch_update [OF inv])
    show "c < wk_curr_ts w" using nx by (simp add: word_less_nat_alt w_def)
    show "batch_of b (wk_curr_ts (ws t')) \<noteq> batch_of b c" if "t' \<noteq> t" "active b (ws t')" for t'
      using I(3) [OF True that(2,1)] by (simp add: c_def)
  qed (use c same I(1) I(4) [OF True] in \<open>auto simp: w_def c_def\<close>)
  moreover have "c \<notin> out" using I(4) [OF True, of c] by (auto simp: c_def)
  ultimately show ?thesis using eq by (intro exI [of _ n] exI conjI) auto
qed

lemma alloc_run_distinct:
  assumes step: "\<And>n mg ws out now t. n < k \<Longrightarrow> I n mg ws out \<Longrightarrow>
    \<exists>ts mg' w n'. get_next_ts cf now mg (ws t) = Some (ts, mg', w) \<and> n' \<le> n + 1 \<and> ts \<notin> out \<and> I n' mg' (ws(t := w)) (insert ts out)"
  shows "n + length ops \<le> k \<Longrightarrow> I n mg ws out \<Longrightarrow>
    \<exists>outs mg' ws'. alloc_run cf ops mg ws = Some (outs, mg', ws') \<and> length outs = length ops \<and> distinct outs \<and> set outs \<inter> out = {}"
proof (induction ops arbitrary: n mg ws out)
  case (Cons op ops)
  obtain now t where op: "op = (now, t)" by (cases op)
  from step [OF _ Cons.prems(2), of now t] Cons.prems(1) obtain ts mg1 w n1 where
    s: "get_next_ts cf now mg (ws t) = Some (ts, mg1, w)" "n1 \<le> n + 1" "ts \<notin> out" "I n1 mg1 (ws(t := w)) (insert ts out)" by auto
  have "n1 + length ops \<le> k" using s(2) Cons.prems(1) by simp
  from Cons.IH [OF this s(4)] obtain outs mg2 ws2 where
    "alloc_run cf ops mg1 (ws(t := w)) = Some (outs, mg2, ws2)" "length outs = length ops" "distinct outs" "set outs \<inter> insert ts out = {}"
    by blast
  with s(1,3) show ?case by (auto simp: op)
qed simp

definition counter_inv :: "ts_cfg \<Rightarrow> nat \<Rightarrow> manager \<Rightarrow> (nat \<Rightarrow> worker) \<Rightarrow> u64 set \<Rightarrow> bool" where
  "counter_inv cf n mg ws out \<longleftrightarrow> unat (mg_timestamp mg) = 1 + n \<and>
     (\<forall>i \<in> out. if g_ts_alloc cf = TS_CAS then i < mg_timestamp mg else i \<le> mg_timestamp mg)"

lemma counter_step:
  assumes "counter_inv cf n mg ws out" "\<not> g_ts_batch_alloc cf" "g_ts_alloc cf = TS_CAS \<or> g_ts_alloc cf = TS_MUTEX" "n + 2 < 2 ^ 64"
  shows "\<exists>ts mg' w n'. get_next_ts cf now mg (ws t) = Some (ts, mg', w) \<and> n' \<le> n + 1 \<and> ts \<notin> out \<and>
    counter_inv cf n' mg' (ws(t := w)) (insert ts out)"
proof -
  define c where "c = mg_timestamp mg"
  have c: "unat (c + 1) = 1 + (n + 1)" "c < c + 1"
    using assms(1,4) by (simp_all add: counter_inv_def unat_word_ariths word_less_nat_alt c_def)
  define ts where "ts = (if g_ts_alloc cf = TS_CAS then c else c + 1)"
  have eq: "get_next_ts cf now mg (ws t) = Some (ts, mg\<lparr>mg_timestamp := c + 1\<rparr>, (ws t)\<lparr>wk_curr_ts := ts\<rparr>)"
    using assms(2,3) by (auto simp: get_next_ts_def get_ts_def c_def ts_def)
  have old: "i < ts" if "i \<in> out" for i
    using assms(1) c(2) that by (auto simp: counter_inv_def ts_def c_def split: if_splits intro: less_trans le_less_trans)
  have "counter_inv cf (n + 1) (mg\<lparr>mg_timestamp := c + 1\<rparr>) (ws(t := (ws t)\<lparr>wk_curr_ts := ts\<rparr>)) (insert ts out)"
    using c old by (fastforce simp: counter_inv_def ts_def split: if_splits intro: less_trans less_imp_le)
  moreover have "ts \<notin> out" using old by blast
  ultimately show ?thesis using eq by (intro exI [of _ "n + 1"] exI conjI) auto
qed

text \<open>C27: A counter gives every transaction of a node its own timestamp: whichever threads ask in whichever order, one by one, no allocation fails and all timestamps differ, as long as the counter does not wrap around. The same holds in batches if what the memory of \<^verbatim>\<open>_curr_ts\<close> holds at the start happens to be a multiple of the batch size in every thread: the code never initialises it.\<close>

theorem timestamps_unique:
  assumes "g_ts_alloc cf = TS_CAS \<or> g_ts_alloc cf = TS_MUTEX \<and> \<not> g_ts_batch_alloc cf"
    "g_ts_batch_alloc cf \<longrightarrow> g_ts_batch_num cf \<noteq> 0 \<and> (\<forall>t. wk_curr_ts (ws t) mod ucast (g_ts_batch_num cf) = 0)"
    "max 1 (unat (g_ts_batch_num cf)) * length ops + 2 < 2 ^ 64"
  shows "\<exists>outs mg' ws'. alloc_run cf ops manager_init ws = Some (outs, mg', ws') \<and> length outs = length ops \<and> distinct outs"
proof (cases "g_ts_batch_alloc cf")
  case True
  let ?b = "unat (g_ts_batch_num cf)"
  have b: "?b > 0" using assms(2) True by (simp add: unat_gt_0)
  have "batch_inv ?b 0 manager_init ws {}" using assms(2) True by (simp add: batch_inv_def active_def manager_init_def word_unat_eq_iff unat_mod)
  moreover have "?b * (n + 1) + 2 < 2 ^ 64" if "n < length ops" for n
  proof -
    have "?b * (n + 1) \<le> max 1 ?b * length ops" using that by (intro mult_le_mono) simp_all
    with assms(3) show ?thesis by linarith
  qed
  ultimately show ?thesis
    using alloc_run_distinct [of "length ops" "batch_inv ?b" cf 0 ops manager_init ws "{}"] batch_step [of ?b] assms(1) True b by auto
next
  case False
  have room: "n + 2 < 2 ^ 64" if "n < length ops" for n
  proof -
    have "length ops \<le> max 1 (unat (g_ts_batch_num cf)) * length ops" by simp
    with assms(3) that show ?thesis by linarith
  qed
  have "\<exists>outs mg' ws'. alloc_run cf ops manager_init ws = Some (outs, mg', ws') \<and> length outs = length ops \<and> distinct outs \<and> set outs \<inter> {} = {}"
  proof (rule alloc_run_distinct [where I = "counter_inv cf" and k = "length ops" and n = 0])
    show "\<exists>ts mg' w n'. get_next_ts cf now mg (ws t) = Some (ts, mg', w) \<and> n' \<le> n + 1 \<and> ts \<notin> out \<and>
      counter_inv cf n' mg' (ws(t := w)) (insert ts out)" if "n < length ops" "counter_inv cf n mg ws out" for n mg ws out now t
      using counter_step [OF that(2) False _ room [OF that(1)]] assms(1) by blast
  qed (simp_all add: counter_inv_def manager_init_def)
  then show ?thesis by blast
qed

section \<open>Timestamps from the clock\<close>

lemma unat_clock_ts:
  assumes "unat (g_node_id cf) < unat (g_node_cnt cf)" "unat t < unat (g_thread_cnt cf)"
    "unat (g_node_cnt cf) + unat (g_thread_cnt cf) < 2 ^ 32" "unat (g_node_cnt cf) * unat (g_thread_cnt cf) < 2 ^ 32"
    "unat now * (unat (g_node_cnt cf) + unat (g_thread_cnt cf)) + unat (g_node_cnt cf) * unat (g_thread_cnt cf) < 2 ^ 64"
  shows "unat (clock_ts cf now t) = (unat (g_node_id cf) * unat (g_thread_cnt cf) + unat t) + (unat (g_node_cnt cf) + unat (g_thread_cnt cf)) * unat now"
    and "unat (g_node_id cf) * unat (g_thread_cnt cf) + unat t < unat (g_node_cnt cf) * unat (g_thread_cnt cf)"
proof -
  let ?n = "unat (g_node_id cf)" and ?N = "unat (g_node_cnt cf)" and ?T = "unat (g_thread_cnt cf)"
  have "Suc ?n * ?T \<le> ?N * ?T" using assms(1) by (intro mult_le_mono1) simp
  then show a: "?n * ?T + unat t < ?N * ?T" using assms(2) by simp
  have "unat (clock_ts cf now t) = (unat now * ((?N + ?T) mod 2 ^ 32) + ((?n * ?T mod 2 ^ 32) + unat t)) mod 2 ^ 64"
    by (simp add: clock_ts_def unat_word_ariths mod_simps)
  also have "\<dots> = unat now * (?N + ?T) + (?n * ?T + unat t)" using assms(3-5) a by simp
  finally show "unat (clock_ts cf now t) = (?n * ?T + unat t) + (?N + ?T) * unat now" by (simp add: algebra_simps)
qed

text \<open>When a thread of a node may take a timestamp at a time of the clock without an overflow.\<close>

definition ticks :: "ts_cfg \<Rightarrow> u32 \<Rightarrow> u64 \<Rightarrow> u64 \<Rightarrow> bool" where
  "ticks cf n t now \<longleftrightarrow> unat n < unat (g_node_cnt cf) \<and> unat t < unat (g_thread_cnt cf) \<and>
     unat now * (unat (g_node_cnt cf) + unat (g_thread_cnt cf)) + unat (g_node_cnt cf) * unat (g_thread_cnt cf) < 2 ^ 64"

lemma clock_ts_injective:
  assumes small: "unat (g_node_cnt cf) + unat (g_thread_cnt cf) < 2 ^ 32" "unat (g_node_cnt cf) * unat (g_thread_cnt cf) < 2 ^ 32"
    and le: "unat (g_node_cnt cf) * unat (g_thread_cnt cf) \<le> unat (g_node_cnt cf) + unat (g_thread_cnt cf)"
    and t: "ticks cf n t now" "ticks cf n' t' now'"
    and eq: "clock_ts (cf\<lparr>g_node_id := n\<rparr>) now t = clock_ts (cf\<lparr>g_node_id := n'\<rparr>) now' t'"
  shows "now = now' \<and> n = n' \<and> t = t'"
proof -
  let ?N = "unat (g_node_cnt cf)" and ?T = "unat (g_thread_cnt cf)"
  have u: "unat (clock_ts (cf\<lparr>g_node_id := n\<rparr>) now t) = (unat n * ?T + unat t) + (?N + ?T) * unat now" "unat n * ?T + unat t < ?N * ?T"
    using unat_clock_ts [of "cf\<lparr>g_node_id := n\<rparr>" t now] small t(1) unfolding ticks_def by simp_all
  have u': "unat (clock_ts (cf\<lparr>g_node_id := n'\<rparr>) now' t') = (unat n' * ?T + unat t') + (?N + ?T) * unat now'" "unat n' * ?T + unat t' < ?N * ?T"
    using unat_clock_ts [of "cf\<lparr>g_node_id := n'\<rparr>" t' now'] small t(2) unfolding ticks_def by simp_all
  have eq2: "(unat n * ?T + unat t) + (?N + ?T) * unat now = (unat n' * ?T + unat t') + (?N + ?T) * unat now'"
    using eq u(1) u'(1) by simp
  have "unat n * ?T + unat t < ?N + ?T" "unat n' * ?T + unat t' < ?N + ?T" using u(2) u'(2) le by linarith+
  from mixed_radix_eq [OF this eq2] have e: "unat t + ?T * unat n = unat t' + ?T * unat n'" "unat now = unat now'"
    by (simp_all add: algebra_simps)
  have "unat t < ?T" "unat t' < ?T" using t by (simp_all add: ticks_def)
  from mixed_radix_eq [OF this e(1)] e(2) show ?thesis unfolding word_unat_eq_iff by blast
qed

text \<open>C28: Timestamps from the clock identify node, thread and time exactly when the number of threads in the system is at most the number of nodes plus the number of threads of a node: the clock is scaled by the sum where the identifiers range over the product.\<close>

theorem clock_ts_unique_iff:
  assumes small: "unat (g_node_cnt cf) + unat (g_thread_cnt cf) < 2 ^ 16" "unat (g_node_cnt cf) * unat (g_thread_cnt cf) < 2 ^ 32"
    and pos: "g_node_cnt cf \<noteq> 0" "g_thread_cnt cf \<noteq> 0"
  shows "(\<forall>n t now n' t' now'. ticks cf n t now \<and> ticks cf n' t' now' \<and>
      clock_ts (cf\<lparr>g_node_id := n\<rparr>) now t = clock_ts (cf\<lparr>g_node_id := n'\<rparr>) now' t' \<longrightarrow> now = now' \<and> n = n' \<and> t = t') \<longleftrightarrow>
    unat (g_node_cnt cf) * unat (g_thread_cnt cf) \<le> unat (g_node_cnt cf) + unat (g_thread_cnt cf)"
    (is "?unique \<longleftrightarrow> _")
proof
  let ?N = "unat (g_node_cnt cf)" and ?T = "unat (g_thread_cnt cf)"
  have p: "?N > 0" "?T > 0" using pos by (simp_all add: unat_gt_0)
  assume uniq: ?unique
  show "?N * ?T \<le> ?N + ?T"
  proof (rule ccontr)
    assume gt: "\<not> ?N * ?T \<le> ?N + ?T"
    define n :: u32 where "n = of_nat ((?N + ?T) div ?T)"
    define t :: u64 where "t = of_nat ((?N + ?T) mod ?T)"
    have lt: "(?N + ?T) div ?T < ?N" using gt p by (simp add: div_less_iff_less_mult)
    have un: "unat n = (?N + ?T) div ?T" using lt small(1) by (simp add: n_def unat_of_nat take_bit_nat_eq_self)
    have ut: "unat t = (?N + ?T) mod ?T" 
      using less_trans [OF mod_less_divisor [OF p(2), of "?N + ?T"], of "2 ^ 64"] small(1) by (simp add: t_def unat_of_nat take_bit_nat_eq_self)
    have tk: "ticks cf n t 0" "ticks cf 0 0 1"
      using lt p small by (simp_all add: ticks_def un ut)
    have "unat n * ?T + unat t = ?N + ?T" unfolding un ut by (rule div_mult_mod_eq)
    then have "unat (clock_ts (cf\<lparr>g_node_id := n\<rparr>) 0 t) = ?N + ?T"
      using unat_clock_ts(1) [of "cf\<lparr>g_node_id := n\<rparr>" t 0] small tk(1) by (simp add: ticks_def)
    moreover have "unat (clock_ts (cf\<lparr>g_node_id := 0\<rparr>) 1 0) = ?N + ?T"
      using unat_clock_ts(1) [of "cf\<lparr>g_node_id := 0\<rparr>" 0 1] small tk(2) by (simp add: ticks_def)
    ultimately have "clock_ts (cf\<lparr>g_node_id := n\<rparr>) 0 t = clock_ts (cf\<lparr>g_node_id := 0\<rparr>) 1 0" by (simp add: word_unat_eq_iff)
    with uniq tk show False by (metis zero_neq_one)
  qed
next
  assume le: "unat (g_node_cnt cf) * unat (g_thread_cnt cf) \<le> unat (g_node_cnt cf) + unat (g_thread_cnt cf)"
  have "unat (g_node_cnt cf) + unat (g_thread_cnt cf) < 2 ^ 32" using small(1) by simp
  from clock_ts_injective [OF this small(2) le] show ?unique by blast
qed

section \<open>Concrete instances\<close>

definition demo_ts_cfg :: ts_cfg where
  "demo_ts_cfg = \<lparr>g_node_id = 0, g_node_cnt = 2, g_thread_cnt = 4, g_ts_alloc = TS_CAS, g_ts_batch_alloc = True, g_ts_batch_num = 4\<rparr>"

definition demo_worker :: "nat \<Rightarrow> worker" where
  "demo_worker t = \<lparr>wk_thd_id = of_nat t, wk_thd_txn_id = 5, wk_curr_ts = 8\<rparr>"

theorem txn_ids_unique_witness:
  "issue_run demo_ts_cfg [(0, 3), (1, 1), (0, 3)] (\<lambda>(n, t). worker_setup t 0) = [6, 3, 14] \<and>
   distinct (issue_run demo_ts_cfg [(0, 3), (1, 1), (0, 3)] (\<lambda>(n, t). worker_setup t 0))"
proof -
  have "issue_run demo_ts_cfg [(0, 3), (1, 1), (0, 3)] (\<lambda>(n, t). worker_setup t 0) = [6, 3, 14]"
    by (simp add: demo_ts_cfg_def worker_setup_def get_next_txn_id_def)
  then show ?thesis using txn_ids_unique [of demo_ts_cfg "[(0, 3), (1, 1), (0, 3)]" "\<lambda>_ _. 0"] by (simp add: demo_ts_cfg_def callers_def)
qed

definition demo_allocs :: "(u64 \<times> nat) list" where
  "demo_allocs = [(0, 0), (0, 1), (0, 0), (0, 0), (0, 1), (0, 0)]"

theorem timestamps_unique_witness:
  "\<exists>outs mg' ws'. alloc_run demo_ts_cfg demo_allocs manager_init demo_worker = Some (outs, mg', ws') \<and> length outs = 6 \<and> distinct outs"
proof -
  have "length demo_allocs = 6" "\<forall>t. wk_curr_ts (demo_worker t) = 8" by (simp_all add: demo_allocs_def demo_worker_def)
  then show ?thesis
    using timestamps_unique [of demo_ts_cfg demo_worker demo_allocs] by (simp add: demo_ts_cfg_def)
qed

theorem clock_ts_unique_iff_witness:
  "\<exists>n t now n' t' now'. ticks demo_ts_cfg n t now \<and> ticks demo_ts_cfg n' t' now' \<and>
     clock_ts (demo_ts_cfg\<lparr>g_node_id := n\<rparr>) now t = clock_ts (demo_ts_cfg\<lparr>g_node_id := n'\<rparr>) now' t' \<and>
     \<not> (now = now' \<and> n = n' \<and> t = t')"
proof -
  have "\<not> (\<forall>n t now n' t' now'. ticks demo_ts_cfg n t now \<and> ticks demo_ts_cfg n' t' now' \<and>
      clock_ts (demo_ts_cfg\<lparr>g_node_id := n\<rparr>) now t = clock_ts (demo_ts_cfg\<lparr>g_node_id := n'\<rparr>) now' t' \<longrightarrow> now = now' \<and> n = n' \<and> t = t')"
    using clock_ts_unique_iff [of demo_ts_cfg] by (simp add: demo_ts_cfg_def)
  then show ?thesis by blast
qed

end
