(* ===== verification/Txn_Table.thy ===== *)
theory Txn_Table
  imports Bucket_Table Timestamps Message
begin

text \<open>
  The transaction table of a node (\<^verbatim>\<open>system/txn_table.cpp\<close>): an array of pools, each a chain of transaction
  managers, and the low-water mark of MVCC that it computes together with \<^verbatim>\<open>Manager::get_min_ts\<close> of
  \<^verbatim>\<open>system/manager.cpp\<close>. An operation holds the \<^verbatim>\<open>modify\<close> bit of its pool, so it is one step. Of a manager only
  the fields the table uses are kept. A manager comes from an object pool with the timestamp of the
  transaction that used it before.

  The table refines a map, and the mark it computes is not above the timestamp of a transaction whose
  timestamp has been published.
\<close>

section \<open>The table\<close>

record txn_ent =
  tn_txn_id :: txnid_t
  tn_batch_id :: u64
  tn_timestamp :: ts_t

record pool_node =
  pn_nodes :: "txn_ent list"
  pn_cnt :: u64
  pn_min_ts :: u64

record txn_table =
  pool_size :: u64
  pool :: "pool_node list"

definition txn_table_init :: "32 word \<Rightarrow> txn_table" where
  "txn_table_init inflight_max =
     (let n = scast (inflight_max + 1)
      in \<lparr>pool_size = n, pool = replicate (unat n) \<lparr>pn_nodes = [], pn_cnt = 0, pn_min_ts = UINT64_MAX\<rparr>\<rparr>)"

definition pool_id :: "txn_table \<Rightarrow> u64 \<Rightarrow> nat" where
  "pool_id tb txn = unat (txn mod pool_size tb)"

definition is_matching_txn_node :: "cc_alg \<Rightarrow> txn_ent \<Rightarrow> u64 \<Rightarrow> u64 \<Rightarrow> bool" where
  "is_matching_txn_node cc e txn batch \<longleftrightarrow>
     (if cc = CALVIN then tn_txn_id e = txn \<and> tn_batch_id e = batch else tn_txn_id e = txn)"

definition lower_min_ts :: "u64 \<Rightarrow> pool_node \<Rightarrow> pool_node" where
  "lower_min_ts ts pn = (if ts < pn_min_ts pn then pn\<lparr>pn_min_ts := ts\<rparr> else pn)"

definition update_min_ts :: "u64 \<Rightarrow> u64 \<Rightarrow> txn_table \<Rightarrow> txn_table" where
  "update_min_ts txn ts tb = (let i = pool_id tb txn in tb\<lparr>pool := (pool tb)[i := lower_min_ts ts (pool tb ! i)]\<rparr>)"

text \<open>\<open>fresh\<close> is the timestamp the manager that comes from the pool still has.\<close>

definition get_transaction_manager :: "cc_alg \<Rightarrow> ts_t \<Rightarrow> u64 \<Rightarrow> u64 \<Rightarrow> txn_table \<Rightarrow> txn_ent \<times> txn_table" where
  "get_transaction_manager cc fresh txn batch tb =
     (let i = pool_id tb txn; pn = pool tb ! i;
          (txn_man, pn) = (case List.find (\<lambda>e. is_matching_txn_node cc e txn batch) (pn_nodes pn) of
              Some e \<Rightarrow> (e, pn)
            | None \<Rightarrow> let e = \<lparr>tn_txn_id = txn, tn_batch_id = batch, tn_timestamp = fresh\<rparr>
                      in (e, pn\<lparr>pn_nodes := pn_nodes pn @ [e], pn_cnt := pn_cnt pn + 1\<rparr>));
          pn = (if cc = MVCC then lower_min_ts (tn_timestamp txn_man) pn else pn)
      in (txn_man, tb\<lparr>pool := (pool tb)[i := pn]\<rparr>))"

text \<open>\<^verbatim>\<open>restart_txn\<close> puts at most one message into the work queue.\<close>

definition table_restart_txn :: "cc_alg \<Rightarrow> bool \<Rightarrow> u64 \<Rightarrow> u64 \<Rightarrow> txn_table \<Rightarrow> (RemReqType \<times> txn_ent) list" where
  "table_restart_txn cc is_local txn batch tb =
     (case List.find (\<lambda>e. is_matching_txn_node cc e txn batch) (pn_nodes (pool tb ! pool_id tb txn)) of
        None \<Rightarrow> []
      | Some e \<Rightarrow> [(if cc = CALVIN then RTXN else if is_local then RTXN_CONT else RQRY_CONT, e)])"

text \<open>The loop of \<^verbatim>\<open>release_transaction_manager\<close> under MVCC: it runs over the whole chain, unlinks the node and
  computes the smallest timestamp of the others.\<close>

fun release_scan :: "(txn_ent \<Rightarrow> bool) \<Rightarrow> txn_ent list \<Rightarrow> u64 \<Rightarrow> u64 \<Rightarrow> txn_ent option \<Rightarrow> txn_ent list \<times> u64 \<times> u64 \<times> txn_ent option" where
  "release_scan m [] cnt min_ts saved = ([], cnt, min_ts, saved)"
| "release_scan m (e # es) cnt min_ts saved =
     (if m e then release_scan m es (cnt - 1) min_ts (Some e)
      else case release_scan m es cnt (if tn_timestamp e < min_ts then tn_timestamp e else min_ts) saved of
             (kept, r) \<Rightarrow> (e # kept, r))"

definition release_transaction_manager :: "cc_alg \<Rightarrow> u64 \<Rightarrow> u64 \<Rightarrow> txn_table \<Rightarrow> (txn_ent \<times> txn_table) option" where
  "release_transaction_manager cc txn batch tb =
     (let i = pool_id tb txn; pn = pool tb ! i; m = (\<lambda>e. is_matching_txn_node cc e txn batch);
          (t_node, pn) = (if cc = MVCC
             then case release_scan m (pn_nodes pn) (pn_cnt pn) UINT64_MAX None of (nodes, cnt, min_ts, saved) \<Rightarrow>
               (saved, \<lparr>pn_nodes = nodes, pn_cnt = cnt, pn_min_ts = min_ts\<rparr>)
             else case List.find m (pn_nodes pn) of
                 None \<Rightarrow> (None, pn)
               | Some e \<Rightarrow> (Some e, pn\<lparr>pn_nodes := remove_first m (pn_nodes pn), pn_cnt := pn_cnt pn - 1\<rparr>))
      in do { e \<leftarrow> t_node; Some (e, tb\<lparr>pool := (pool tb)[i := pn]\<rparr>) })"

text \<open>\<^verbatim>\<open>get_min_ts\<close> of the table reads the pools one after the other without their \<^verbatim>\<open>modify\<close> bits, and
  \<^verbatim>\<open>Manager::get_min_ts\<close> reads and writes its fields without a lock. \<open>mark_access\<close> is one access to shared memory by a
  thread that executes them: the thread tests the time of the last scan, sets it, reads each pool, compares the minimum with
  the mark, stores it, and reads the mark that it returns and then holds.\<close>

datatype mark_pc = Outside | Entering u64 | Scanning nat u64 | Comparing u64 | Storing u64 | Returning | Holding u64

definition scan_pool :: "pool_node \<Rightarrow> u64 \<Rightarrow> u64" where
  "scan_pool pn min_ts = (if pn_min_ts pn < min_ts then pn_min_ts pn else min_ts)"

fun mark_access :: "u64 \<Rightarrow> u64 \<Rightarrow> txn_table \<Rightarrow> manager \<Rightarrow> mark_pc \<Rightarrow> manager \<times> mark_pc" where
  "mark_access intvl now tb mg Outside = (mg, if now - mg_last_min_ts_time mg > intvl then Entering now else Returning)"
| "mark_access intvl now tb mg (Entering start) = (mg\<lparr>mg_last_min_ts_time := start\<rparr>, Scanning 0 UINT64_MAX)"
| "mark_access intvl now tb mg (Scanning i min_ts) =
     (mg, if i < unat (pool_size tb) then Scanning (i + 1) (scan_pool (pool tb ! i) min_ts) else Comparing min_ts)"
| "mark_access intvl now tb mg (Comparing mn) = (mg, if mn > mg_min_ts mg then Storing mn else Returning)"
| "mark_access intvl now tb mg (Storing mn) = (mg\<lparr>mg_min_ts := mn\<rparr>, Returning)"
| "mark_access intvl now tb mg Returning = (mg, Holding (mg_min_ts mg))"
| "mark_access intvl now tb mg (Holding t_th) = (mg, Outside)"

text \<open>A change that is made to a manager through its pointer.\<close>

definition with_txn_man :: "cc_alg \<Rightarrow> (txn_ent \<Rightarrow> txn_ent) \<Rightarrow> u64 \<Rightarrow> u64 \<Rightarrow> txn_table \<Rightarrow> txn_table" where
  "with_txn_man cc f txn batch tb =
     (let i = pool_id tb txn; pn = pool tb ! i
      in tb\<lparr>pool := (pool tb)[i := pn\<lparr>pn_nodes := modify_first (\<lambda>e. is_matching_txn_node cc e txn batch) f (pn_nodes pn)\<rparr>]\<rparr>)"

section \<open>The table as a map\<close>

definition tkey :: "cc_alg \<Rightarrow> u64 \<Rightarrow> u64 \<Rightarrow> u64 \<times> u64" where
  "tkey cc txn batch = (txn, if cc = CALVIN then batch else 0)"

definition ent_key :: "cc_alg \<Rightarrow> txn_ent \<Rightarrow> u64 \<times> u64" where
  "ent_key cc e = tkey cc (tn_txn_id e) (tn_batch_id e)"

definition tb_hash :: "txn_table \<Rightarrow> u64 \<times> u64 \<Rightarrow> nat" where
  "tb_hash tb k = pool_id tb (fst k)"

definition tb_find :: "cc_alg \<Rightarrow> txn_table \<Rightarrow> u64 \<times> u64 \<Rightarrow> txn_ent option" where
  "tb_find cc tb k = List.find (\<lambda>e. ent_key cc e = k) (pn_nodes (pool tb ! tb_hash tb k))"

definition tb_ok :: "cc_alg \<Rightarrow> txn_table \<Rightarrow> bool" where
  "tb_ok cc tb \<longleftrightarrow> pool_size tb \<noteq> 0 \<and> length (pool tb) = unat (pool_size tb) \<and>
     chains_ok (tb_hash tb) (ent_key cc) (map pn_nodes (pool tb)) \<and> (\<forall>pn \<in> set (pool tb). pn_cnt pn = of_nat (length (pn_nodes pn)))"

lemma matching_key: "is_matching_txn_node cc e txn batch \<longleftrightarrow> ent_key cc e = tkey cc txn batch"
  by (simp add: is_matching_txn_node_def ent_key_def tkey_def)

lemma tb_hash_tkey [simp]: "tb_hash tb (tkey cc txn batch) = pool_id tb txn"
  by (simp add: tb_hash_def tkey_def)

lemma tb_hash_pool [simp]: "tb_hash (tb\<lparr>pool := x\<rparr>) = tb_hash tb" "pool_id (tb\<lparr>pool := x\<rparr>) = pool_id tb"
  by (simp_all add: fun_eq_iff tb_hash_def pool_id_def)

lemma tb_okD:
  assumes "tb_ok cc tb"
  shows "tb_hash tb k < length (pool tb)" "pool_id tb txn < length (pool tb)" "chains_ok (tb_hash tb) (ent_key cc) (map pn_nodes (pool tb))"
    "i < length (pool tb) \<Longrightarrow> pn_cnt (pool tb ! i) = of_nat (length (pn_nodes (pool tb ! i)))"
proof -
  have "unat (x mod pool_size tb) < unat (pool_size tb)" for x
    using assms by (simp add: tb_ok_def unat_mod unat_gt_0)
  then show "tb_hash tb k < length (pool tb)" "pool_id tb txn < length (pool tb)"
    using assms by (simp_all add: tb_ok_def tb_hash_def pool_id_def)
qed (use assms in \<open>simp_all add: tb_ok_def\<close>)

lemma tb_find_chain: "tb_ok cc tb \<Longrightarrow> tb_find cc tb k = chain_find (tb_hash tb) (ent_key cc) (map pn_nodes (pool tb)) k"
  using tb_okD(1) [of cc tb k] by (simp add: tb_find_def chain_find_def)

lemma tb_replace:
  assumes ok: "tb_ok cc tb" and ch: "chains_ok (tb_hash tb) (ent_key cc) ((map pn_nodes (pool tb))[i := pn_nodes pn])"
    and cnt: "pn_cnt pn = of_nat (length (pn_nodes pn))"
  shows "tb_ok cc (tb\<lparr>pool := (pool tb)[i := pn]\<rparr>)"
    and "tb_find cc (tb\<lparr>pool := (pool tb)[i := pn]\<rparr>) k =
      chain_find (tb_hash tb) (ent_key cc) ((map pn_nodes (pool tb))[i := pn_nodes pn]) k"
proof -
  have "\<forall>x \<in> set ((pool tb)[i := pn]). pn_cnt x = of_nat (length (pn_nodes x))"
    using ok cnt set_update_subset_insert [of "pool tb" i pn] by (auto simp: tb_ok_def)
  then show ok': "tb_ok cc (tb\<lparr>pool := (pool tb)[i := pn]\<rparr>)" using ok ch by (simp add: tb_ok_def map_update)
  show "tb_find cc (tb\<lparr>pool := (pool tb)[i := pn]\<rparr>) k =
      chain_find (tb_hash tb) (ent_key cc) ((map pn_nodes (pool tb))[i := pn_nodes pn]) k"
    using tb_find_chain [OF ok'] by (simp add: map_update)
qed

lemma lower_min_ts_fields [simp]: "pn_nodes (lower_min_ts ts pn) = pn_nodes pn" "pn_cnt (lower_min_ts ts pn) = pn_cnt pn"
  by (simp_all add: lower_min_ts_def)

lemma chain_same: "i < length xs \<Longrightarrow> pn_nodes pn = pn_nodes (xs ! i) \<Longrightarrow> (map pn_nodes xs)[i := pn_nodes pn] = map pn_nodes xs"
  by (metis list_update_id nth_map)

lemma update_min_ts_map:
  assumes "tb_ok cc tb"
  shows "tb_ok cc (update_min_ts txn ts tb)" "tb_find cc (update_min_ts txn ts tb) = tb_find cc tb"
proof -
  let ?pn = "lower_min_ts ts (pool tb ! pool_id tb txn)"
  have i: "pool_id tb txn < length (pool tb)" using tb_okD(2) [OF assms] .
  then have ch: "(map pn_nodes (pool tb))[pool_id tb txn := pn_nodes ?pn] = map pn_nodes (pool tb)" by (intro chain_same) simp_all
  have cnt: "pn_cnt ?pn = of_nat (length (pn_nodes ?pn))" using tb_okD(4) [OF assms i] by simp
  note r = tb_replace [OF assms _ cnt, of "pool_id tb txn", unfolded ch, OF tb_okD(3) [OF assms]]
  show "tb_ok cc (update_min_ts txn ts tb)" using r(1) by (simp add: update_min_ts_def Let_def)
  show "tb_find cc (update_min_ts txn ts tb) = tb_find cc tb"
    using r(2) tb_find_chain [OF assms] by (simp add: fun_eq_iff update_min_ts_def Let_def)
qed

lemma find_matching: "tb_ok cc tb \<Longrightarrow>
    List.find (\<lambda>e. is_matching_txn_node cc e txn batch) (pn_nodes (pool tb ! pool_id tb txn)) = tb_find cc tb (tkey cc txn batch)"
  by (simp add: tb_find_def matching_key)

lemma get_manager_map:
  assumes ok: "tb_ok cc tb" and get: "get_transaction_manager cc fresh txn batch tb = (e, tb')"
  shows "tb_ok cc tb'" "tb_find cc tb' = (tb_find cc tb)(tkey cc txn batch \<mapsto> e)"
    "e = (case tb_find cc tb (tkey cc txn batch) of Some e \<Rightarrow> e | None \<Rightarrow> \<lparr>tn_txn_id = txn, tn_batch_id = batch, tn_timestamp = fresh\<rparr>)"
proof -
  let ?i = "pool_id tb txn"
  have i: "?i < length (pool tb)" using tb_okD(2) [OF ok] .
  note ch0 = tb_okD(3) [OF ok]
  define new where "new = \<lparr>tn_txn_id = txn, tn_batch_id = batch, tn_timestamp = fresh\<rparr>"
  have key: "ent_key cc new = tkey cc txn batch" by (simp add: new_def ent_key_def)
  define lo where "lo = (\<lambda>pn. if cc = MVCC then lower_min_ts (tn_timestamp e) pn else pn)"
  have lo: "pn_nodes (lo pn) = pn_nodes pn" "pn_cnt (lo pn) = pn_cnt pn" for pn by (simp_all add: lo_def)
  show e: "e = (case tb_find cc tb (tkey cc txn batch) of Some e \<Rightarrow> e | None \<Rightarrow> \<lparr>tn_txn_id = txn, tn_batch_id = batch, tn_timestamp = fresh\<rparr>)"
    using get unfolding get_transaction_manager_def find_matching [OF ok] Let_def by (auto split: option.splits prod.splits)
  have "tb_ok cc tb' \<and> tb_find cc tb' = (tb_find cc tb)(tkey cc txn batch \<mapsto> e)"
  proof (cases "tb_find cc tb (tkey cc txn batch)")
    case (Some e0)
    then have eq: "tb' = tb\<lparr>pool := (pool tb)[?i := lo (pool tb ! ?i)]\<rparr>" "e = e0"
      using get e unfolding get_transaction_manager_def find_matching [OF ok] Let_def by (auto simp: lo_def)
    have ch: "(map pn_nodes (pool tb))[?i := pn_nodes (lo (pool tb ! ?i))] = map pn_nodes (pool tb)" using i lo by (intro chain_same) simp_all
    have cnt: "pn_cnt (lo (pool tb ! ?i)) = of_nat (length (pn_nodes (lo (pool tb ! ?i))))" using tb_okD(4) [OF ok i] lo by simp
    from tb_replace [OF ok _ cnt, of ?i, unfolded ch, OF ch0] show ?thesis
      using Some tb_find_chain [OF ok] unfolding eq by (auto simp: fun_eq_iff)
  next
    case None
    define pn where "pn = lo ((pool tb ! ?i)\<lparr>pn_nodes := pn_nodes (pool tb ! ?i) @ [new], pn_cnt := pn_cnt (pool tb ! ?i) + 1\<rparr>)"
    have eq: "tb' = tb\<lparr>pool := (pool tb)[?i := pn]\<rparr>" "e = new"
      using get e None unfolding get_transaction_manager_def find_matching [OF ok] Let_def by (auto simp: pn_def lo_def new_def)
    have cnt: "pn_cnt pn = of_nat (length (pn_nodes pn))" using tb_okD(4) [OF ok i] by (simp add: pn_def lo)
    have nodes: "(map pn_nodes (pool tb))[?i := pn_nodes pn] =
        (map pn_nodes (pool tb))[tb_hash tb (ent_key cc new) := (map pn_nodes (pool tb)) ! tb_hash tb (ent_key cc new) @ [new]]"
      using i by (simp add: key pn_def lo)
    have none: "chain_find (tb_hash tb) (ent_key cc) (map pn_nodes (pool tb)) (ent_key cc new) = None"
      using None tb_find_chain [OF ok] key by simp
    note a = chain_find_append [OF ch0 none]
    from tb_replace [OF ok _ cnt, of ?i, unfolded nodes, OF a(1)] a(2) show ?thesis
      using tb_find_chain [OF ok] unfolding eq by (auto simp: fun_eq_iff key)
  qed
  then show "tb_ok cc tb'" "tb_find cc tb' = (tb_find cc tb)(tkey cc txn batch \<mapsto> e)" by auto
qed

lemma with_txn_man_map:
  assumes ok: "tb_ok cc tb" and f: "\<And>e. ent_key cc (f e) = ent_key cc e"
  shows "tb_ok cc (with_txn_man cc f txn batch tb)"
    "tb_find cc (with_txn_man cc f txn batch tb) k =
      (if k = tkey cc txn batch then map_option f (tb_find cc tb k) else tb_find cc tb k)"
proof -
  let ?i = "pool_id tb txn"
  define pn where "pn = (pool tb ! ?i)\<lparr>pn_nodes := modify_first (\<lambda>e. ent_key cc e = tkey cc txn batch) f (pn_nodes (pool tb ! ?i))\<rparr>"
  have i: "?i < length (pool tb)" using tb_okD(2) [OF ok] .
  have eq: "with_txn_man cc f txn batch tb = tb\<lparr>pool := (pool tb)[?i := pn]\<rparr>"
    by (simp add: with_txn_man_def pn_def matching_key Let_def)
  have "length (modify_first P f es) = length es" for P es by (induction es) auto
  then have cnt: "pn_cnt pn = of_nat (length (pn_nodes pn))" using tb_okD(4) [OF ok i] by (simp add: pn_def)
  have nodes: "(map pn_nodes (pool tb))[?i := pn_nodes pn] = (map pn_nodes (pool tb))[tb_hash tb (tkey cc txn batch) :=
      modify_first (\<lambda>e. ent_key cc e = tkey cc txn batch) f ((map pn_nodes (pool tb)) ! tb_hash tb (tkey cc txn batch))]"
    using i by (simp add: pn_def)
  note a = chain_find_modify [OF tb_okD(3) [OF ok], of f "tkey cc txn batch", OF f]
  note r = tb_replace [OF ok _ cnt, of ?i, unfolded nodes, OF a(1)]
  show "tb_ok cc (with_txn_man cc f txn batch tb)" using r(1) unfolding eq .
  show "tb_find cc (with_txn_man cc f txn batch tb) k =
      (if k = tkey cc txn batch then map_option f (tb_find cc tb k) else tb_find cc tb k)"
    using r(2) a(2) tb_find_chain [OF ok] unfolding eq by simp
qed

definition min_of :: "txn_ent list \<Rightarrow> u64 \<Rightarrow> u64" where
  "min_of es m = fold (\<lambda>e a. if tn_timestamp e < a then tn_timestamp e else a) es m"

lemma min_of_le: "min_of es m \<le> m" "e \<in> set es \<Longrightarrow> min_of es m \<le> tn_timestamp e"
proof (induction es arbitrary: m)
  case (Cons x es)
  {
    case 1
    show ?case using Cons.IH(1) [of "if tn_timestamp x < m then tn_timestamp x else m"] by (auto simp: min_of_def split: if_splits)
  next
    case 2
    then show ?case
      using Cons.IH(1) [of "if tn_timestamp x < m then tn_timestamp x else m"] Cons.IH(2) [of "if tn_timestamp x < m then tn_timestamp x else m"]
      by (auto simp: min_of_def split: if_splits)
  }
qed (simp_all add: min_of_def)

lemma release_scan_eq:
  "release_scan m es cnt mn saved = (filter (\<lambda>e. \<not> m e) es, cnt - of_nat (length (filter m es)), min_of (filter (\<lambda>e. \<not> m e) es) mn,
     if filter m es = [] then saved else Some (last (filter m es)))"
  by (induction es arbitrary: cnt mn saved) (auto simp: min_of_def)

lemma distinct_key_filter:
  assumes "distinct (map key es)"
  shows "remove_first (\<lambda>e. key e = k) es = filter (\<lambda>e. key e \<noteq> k) es"
    and "filter (\<lambda>e. key e = k) es = (case List.find (\<lambda>e. key e = k) es of None \<Rightarrow> [] | Some e \<Rightarrow> [e])"
proof -
  have ne: "filter (\<lambda>e. key e = k) es = [] \<and> filter (\<lambda>e. key e \<noteq> k) es = es" if "k \<notin> key ` set es" for k es
    using that by (induction es) auto
  show "remove_first (\<lambda>e. key e = k) es = filter (\<lambda>e. key e \<noteq> k) es"
    using assms ne by (induction es) auto
  show "filter (\<lambda>e. key e = k) es = (case List.find (\<lambda>e. key e = k) es of None \<Rightarrow> [] | Some e \<Rightarrow> [e])"
    using assms ne by (induction es) auto
qed

lemma release_map:
  assumes ok: "tb_ok cc tb"
  shows "tb_find cc tb (tkey cc txn batch) = None \<Longrightarrow> release_transaction_manager cc txn batch tb = None"
    and "tb_find cc tb (tkey cc txn batch) = Some e \<Longrightarrow> \<exists>pn. let i = pool_id tb txn; tb' = tb\<lparr>pool := (pool tb)[i := pn]\<rparr> in
      release_transaction_manager cc txn batch tb = Some (e, tb') \<and> tb_ok cc tb' \<and> tb_find cc tb' = (tb_find cc tb)(tkey cc txn batch := None) \<and>
      set (pn_nodes pn) \<subseteq> set (pn_nodes (pool tb ! i)) \<and> (cc = MVCC \<longrightarrow> (\<forall>e \<in> set (pn_nodes pn). pn_min_ts pn \<le> tn_timestamp e))"
proof -
  let ?i = "pool_id tb txn" and ?k = "tkey cc txn batch"
  let ?es = "pn_nodes (pool tb ! ?i)"
  have i: "?i < length (pool tb)" using tb_okD(2) [OF ok] .
  note ch0 = tb_okD(3) [OF ok]
  have "distinct (map (ent_key cc) ?es)" using chains_ok_bucket(2) [OF ch0, of ?k] i by simp
  note dk = distinct_key_filter [OF this, of ?k]
  have fnd: "List.find (\<lambda>e. ent_key cc e = ?k) ?es = tb_find cc tb ?k" by (simp add: tb_find_def)
  show "release_transaction_manager cc txn batch tb = None" if "tb_find cc tb ?k = None"
    using that dk fnd by (cases "cc = MVCC") (simp_all add: release_transaction_manager_def release_scan_eq matching_key Let_def)
  assume e: "tb_find cc tb ?k = Some e"
  have flt: "filter (\<lambda>e. ent_key cc e = ?k) ?es = [e]" "remove_first (\<lambda>e. ent_key cc e = ?k) ?es = filter (\<lambda>e. ent_key cc e \<noteq> ?k) ?es"
    unfolding dk fnd e by simp_all
  have "length ?es = length (filter (\<lambda>e. ent_key cc e \<noteq> ?k) ?es) + 1"
    using sum_length_filter_compl [of "\<lambda>e. ent_key cc e = ?k" ?es] unfolding flt(1) by simp
  then have len: "(of_nat (length ?es) :: u64) = of_nat (length (filter (\<lambda>e. ent_key cc e \<noteq> ?k) ?es)) + 1"
    by (simp only: of_nat_add of_nat_1)
  define pn where "pn = (if cc = MVCC
    then \<lparr>pn_nodes = filter (\<lambda>e. ent_key cc e \<noteq> ?k) ?es, pn_cnt = pn_cnt (pool tb ! ?i) - 1, pn_min_ts = min_of (filter (\<lambda>e. ent_key cc e \<noteq> ?k) ?es) UINT64_MAX\<rparr>
    else (pool tb ! ?i)\<lparr>pn_nodes := filter (\<lambda>e. ent_key cc e \<noteq> ?k) ?es, pn_cnt := pn_cnt (pool tb ! ?i) - 1\<rparr>)"
  have pn: "pn_nodes pn = filter (\<lambda>e. ent_key cc e \<noteq> ?k) ?es" "pn_cnt pn = pn_cnt (pool tb ! ?i) - 1" by (simp_all add: pn_def)
  have cnt: "pn_cnt pn = of_nat (length (pn_nodes pn))" using tb_okD(4) [OF ok i] len pn by simp
  have rel: "release_transaction_manager cc txn batch tb = Some (e, tb\<lparr>pool := (pool tb)[?i := pn]\<rparr>)"
    using flt e fnd tb_okD(4) [OF ok i]
    by (cases "cc = MVCC") (simp_all add: release_transaction_manager_def release_scan_eq matching_key Let_def pn_def)
  have nodes: "(map pn_nodes (pool tb))[?i := pn_nodes pn] = (map pn_nodes (pool tb))[tb_hash tb ?k :=
      remove_first (\<lambda>e. ent_key cc e = ?k) ((map pn_nodes (pool tb)) ! tb_hash tb ?k)]"
    using i flt(2) pn by simp
  note a = chain_find_remove [OF ch0, of ?k]
  note r = tb_replace [OF ok _ cnt, of ?i, unfolded nodes, OF a(1)]
  have "cc = MVCC \<longrightarrow> (\<forall>e \<in> set (pn_nodes pn). pn_min_ts pn \<le> tn_timestamp e)" by (auto simp: pn_def intro!: min_of_le)
  moreover have "tb_find cc (tb\<lparr>pool := (pool tb)[?i := pn]\<rparr>) = (tb_find cc tb)(?k := None)"
    using r(2) a(2) tb_find_chain [OF ok] by (auto simp: fun_eq_iff)
  ultimately show "\<exists>pn. let i = ?i; tb' = tb\<lparr>pool := (pool tb)[i := pn]\<rparr> in
      release_transaction_manager cc txn batch tb = Some (e, tb') \<and> tb_ok cc tb' \<and> tb_find cc tb' = (tb_find cc tb)(?k := None) \<and>
      set (pn_nodes pn) \<subseteq> set (pn_nodes (pool tb ! i)) \<and> (cc = MVCC \<longrightarrow> (\<forall>e \<in> set (pn_nodes pn). pn_min_ts pn \<le> tn_timestamp e))"
    using rel r(1) pn(1) by (intro exI [of _ pn]) (auto simp: Let_def)
qed

text \<open>The operations as those of a keyed table. A key with a batch number names no transaction unless the
  protocol is Calvin.\<close>

definition canonical :: "cc_alg \<Rightarrow> u64 \<times> u64 \<Rightarrow> bool" where
  "canonical cc k \<longleftrightarrow> tkey cc (fst k) (snd k) = k"

definition enter :: "cc_alg \<Rightarrow> txn_ent \<Rightarrow> txn_table \<Rightarrow> txn_table" where
  "enter cc e tb = snd (get_transaction_manager cc (tn_timestamp e) (tn_txn_id e) (tn_batch_id e) tb)"

definition change :: "cc_alg \<Rightarrow> (txn_ent \<Rightarrow> txn_ent) \<Rightarrow> u64 \<times> u64 \<Rightarrow> txn_table \<Rightarrow> txn_table" where
  "change cc f k tb = (if canonical cc k then with_txn_man cc f (fst k) (snd k) tb else tb)"

definition leave :: "cc_alg \<Rightarrow> u64 \<times> u64 \<Rightarrow> txn_table \<Rightarrow> txn_table" where
  "leave cc k tb = (if canonical cc k then case release_transaction_manager cc (fst k) (snd k) tb of None \<Rightarrow> tb | Some (_, tb') \<Rightarrow> tb' else tb)"

lemma not_canonical: "\<not> canonical cc k \<Longrightarrow> tb_find cc tb k = None"
  by (auto simp: tb_find_def find_None_iff canonical_def ent_key_def tkey_def)

lemma leave_map:
  assumes ok: "tb_ok cc tb"
  shows "tb_ok cc (leave cc k tb)" "tb_find cc (leave cc k tb) k' = (if k' = k then None else tb_find cc tb k')"
proof -
  have "tb_ok cc (leave cc k tb) \<and> tb_find cc (leave cc k tb) k' = (if k' = k then None else tb_find cc tb k')"
  proof (cases "canonical cc k")
    case True
    then have k: "tkey cc (fst k) (snd k) = k" by (simp add: canonical_def)
    show ?thesis
    proof (cases "tb_find cc tb k")
      case None
      then show ?thesis using release_map(1) [OF ok, of "fst k" "snd k"] ok True k by (simp add: leave_def)
    next
      case (Some e)
      with release_map(2) [OF ok, of "fst k" "snd k" e] k show ?thesis by (auto simp: leave_def True Let_def)
    qed
  qed (use ok not_canonical [of cc k tb] in \<open>auto simp: leave_def\<close>)
  then show "tb_ok cc (leave cc k tb)" "tb_find cc (leave cc k tb) k' = (if k' = k then None else tb_find cc tb k')" by simp_all
qed

interpretation txn_map: keyed_table "tb_ok cc" "ent_key cc" "tb_find cc" "change cc" "enter cc" "leave cc" for cc
proof (unfold_locales, goal_cases)
  case (1 tb f k)
  then show ?case by (simp add: change_def with_txn_man_map(1))
next
  case (2 tb f k k')
  then show ?case
    using with_txn_man_map(2) [of cc tb f "fst k" "snd k" k', OF 2] not_canonical [of cc k tb]
    by (cases "canonical cc k") (auto simp: change_def canonical_def)
next
  case (3 tb e)
  then show ?case using get_manager_map(1) [OF 3(1), of "tn_timestamp e" "tn_txn_id e" "tn_batch_id e"] by (simp add: enter_def split_beta prod_eq_iff)
next
  case (4 tb e k')
  obtain x tb' where g: "get_transaction_manager cc (tn_timestamp e) (tn_txn_id e) (tn_batch_id e) tb = (x, tb')" by fastforce
  have "x = e" using get_manager_map(3) [OF 4(1) g] 4(2) by (simp add: ent_key_def)
  then show ?case using get_manager_map(2) [OF 4(1) g] by (simp add: enter_def g ent_key_def)
qed (simp_all add: leave_map)

section \<open>Refinement of a map\<close>

datatype tb_op = OpGet ts_t u64 u64 | OpSetTs ts_t u64 u64 | OpRelease u64 u64 | OpUpdateMin u64 u64 | OpRestart bool u64 u64

definition set_ts :: "ts_t \<Rightarrow> txn_ent \<Rightarrow> txn_ent" where
  "set_ts ts e = e\<lparr>tn_timestamp := ts\<rparr>"

text \<open>What a call returns: a manager, or the messages of a restart.\<close>

type_synonym tb_result = "txn_ent option \<times> (RemReqType \<times> txn_ent) list"

fun tb_exec :: "cc_alg \<Rightarrow> tb_op \<Rightarrow> txn_table \<Rightarrow> (tb_result \<times> txn_table) option" where
  "tb_exec cc (OpGet fresh txn batch) tb = (case get_transaction_manager cc fresh txn batch tb of (e, tb') \<Rightarrow> Some ((Some e, []), tb'))"
| "tb_exec cc (OpSetTs ts txn batch) tb = Some ((None, []), with_txn_man cc (set_ts ts) txn batch tb)"
| "tb_exec cc (OpRelease txn batch) tb = map_option (\<lambda>(e, tb'). ((Some e, []), tb')) (release_transaction_manager cc txn batch tb)"
| "tb_exec cc (OpUpdateMin txn ts) tb = Some ((None, []), update_min_ts txn ts tb)"
| "tb_exec cc (OpRestart is_local txn batch) tb = Some ((None, table_restart_txn cc is_local txn batch tb), tb)"

fun map_exec :: "cc_alg \<Rightarrow> tb_op \<Rightarrow> (u64 \<times> u64 \<rightharpoonup> txn_ent) \<Rightarrow> (tb_result \<times> (u64 \<times> u64 \<rightharpoonup> txn_ent)) option" where
  "map_exec cc (OpGet fresh txn batch) m =
     (let e = (case m (tkey cc txn batch) of None \<Rightarrow> \<lparr>tn_txn_id = txn, tn_batch_id = batch, tn_timestamp = fresh\<rparr> | Some e \<Rightarrow> e)
      in Some ((Some e, []), m(tkey cc txn batch \<mapsto> e)))"
| "map_exec cc (OpSetTs ts txn batch) m = Some ((None, []), m(tkey cc txn batch := map_option (set_ts ts) (m (tkey cc txn batch))))"
| "map_exec cc (OpRelease txn batch) m = map_option (\<lambda>e. ((Some e, []), m(tkey cc txn batch := None))) (m (tkey cc txn batch))"
| "map_exec cc (OpUpdateMin txn ts) m = Some ((None, []), m)"
| "map_exec cc (OpRestart is_local txn batch) m =
     Some ((None, case m (tkey cc txn batch) of None \<Rightarrow> []
       | Some e \<Rightarrow> [(if cc = CALVIN then RTXN else if is_local then RTXN_CONT else RQRY_CONT, e)]), m)"

lemma tb_exec_refines:
  assumes ok: "tb_ok cc tb"
  shows "pred_option (\<lambda>(r, tb'). tb_ok cc tb') (tb_exec cc op tb) \<and>
    map_option (\<lambda>(r, tb'). (r, tb_find cc tb')) (tb_exec cc op tb) = map_exec cc op (tb_find cc tb)"
proof (cases op)
  case (OpGet fresh txn batch)
  obtain e tb' where g: "get_transaction_manager cc fresh txn batch tb = (e, tb')" by fastforce
  show ?thesis using get_manager_map [OF ok g] by (auto simp: OpGet g Let_def split: option.splits)
next
  case (OpSetTs ts txn batch)
  have key: "\<And>e. ent_key cc (set_ts ts e) = ent_key cc e" by (simp add: ent_key_def set_ts_def)
  show ?thesis using with_txn_man_map [OF ok, of "set_ts ts", OF key] by (auto simp: OpSetTs fun_eq_iff)
next
  case (OpRelease txn batch)
  show ?thesis
  proof (cases "tb_find cc tb (tkey cc txn batch)")
    case None
    then show ?thesis using release_map(1) [OF ok None] by (simp add: OpRelease)
  next
    case (Some e)
    then show ?thesis using release_map(2) [OF ok Some] by (auto simp: OpRelease Let_def)
  qed
next
  case (OpUpdateMin txn ts)
  show ?thesis using update_min_ts_map [OF ok] by (simp add: OpUpdateMin)
next
  case (OpRestart is_local txn batch)
  show ?thesis using ok by (auto simp: OpRestart table_restart_txn_def find_matching [OF ok] split: option.splits)
qed

lemma tb_ok_init:
  assumes "(scast (n + 1 :: 32 word) :: u64) \<noteq> 0"
  shows "tb_ok cc (txn_table_init n)" "tb_find cc (txn_table_init n) = Map.empty"
proof -
  define s :: u64 where "s = scast (n + 1)"
  have s: "s \<noteq> 0" using assms by (simp add: s_def)
  have h: "tb_hash (txn_table_init n) k < unat s" for k
    using s by (simp add: tb_hash_def pool_id_def txn_table_init_def Let_def s_def unat_mod unat_gt_0)
  then show "tb_ok cc (txn_table_init n)"
    using s by (auto simp: tb_ok_def txn_table_init_def Let_def s_def intro!: chains_ok_empty)
  show "tb_find cc (txn_table_init n) = Map.empty"
    using h by (auto simp: fun_eq_iff tb_find_def txn_table_init_def Let_def s_def)
qed

text \<open>C29: The transaction table is a map from transactions to their managers: for every sequence of lookups, timestamp changes, restarts and releases, the pools of chains return what the map returns, and fail an assertion exactly when the sequence releases a transaction that is not in the map.\<close>

theorem txn_table_refines_map:
  assumes "(scast (n + 1 :: 32 word) :: u64) \<noteq> 0"
  shows "map_option (\<lambda>(rs, tb). (rs, tb_find cc tb)) (run_ops (tb_exec cc) ops (txn_table_init n)) = run_ops (map_exec cc) ops Map.empty"
  using run_ops_refine [of "tb_ok cc" "tb_exec cc" "tb_find cc" "map_exec cc", OF tb_exec_refines tb_ok_init(1) [OF assms]] tb_ok_init(2) [OF assms]
  by simp

section \<open>The low-water mark\<close>

text \<open>
  MVCC discards versions below the mark. A worker gets the manager of a new transaction or of a query that
  another node sends, sets its timestamp and then publishes it with \<^verbatim>\<open>update_min_ts\<close>; in between the
  transaction is in \<open>lw_pend\<close>. A restarted transaction gets a larger timestamp, which is published under the
  wrong number (\<^verbatim>\<open>UINT64_MAX\<close>). Any number of threads may be in \<^verbatim>\<open>Manager::get_min_ts\<close> at the same time, each at the
  point \<open>lw_pc\<close> gives. \<open>lw_late\<close> are the transactions that published a timestamp too late: below the mark, or below the
  minimum of a thread that has passed their pool, or below the mark that a thread holds.
\<close>

record low_water =
  lw_tb :: txn_table
  lw_mg :: manager
  lw_pc :: "nat \<Rightarrow> mark_pc"
  lw_pend :: "u64 set"
  lw_late :: "u64 set"

abbreviation live :: "low_water \<Rightarrow> u64 \<Rightarrow> txn_ent option" where
  "live s txn \<equiv> tb_find MVCC (lw_tb s) (txn, 0)"

fun passes :: "nat \<Rightarrow> u64 \<Rightarrow> mark_pc \<Rightarrow> bool" where
  "passes i ts (Scanning k m) \<longleftrightarrow> i < k \<and> ts < m"
| "passes i ts (Comparing m) \<longleftrightarrow> ts < m"
| "passes i ts (Storing m) \<longleftrightarrow> ts < m"
| "passes i ts (Holding m) \<longleftrightarrow> ts < m"
| "passes i ts _ \<longleftrightarrow> False"

definition passed :: "low_water \<Rightarrow> u64 \<Rightarrow> u64 \<Rightarrow> bool" where
  "passed s txn ts \<longleftrightarrow> ts < mg_min_ts (lw_mg s) \<or> (\<exists>th. passes (pool_id (lw_tb s) txn) ts (lw_pc s th))"

inductive lw_step :: "u64 \<Rightarrow> low_water \<Rightarrow> low_water \<Rightarrow> bool" for intvl where
  arrive: "live s txn = None \<Longrightarrow> get_transaction_manager MVCC fresh txn 0 (lw_tb s) = (e, tb) \<Longrightarrow>
    lw_step intvl s (s\<lparr>lw_tb := tb, lw_pend := insert txn (lw_pend s), lw_late := lw_late s - {txn}\<rparr>)"
| stamp: "txn \<in> lw_pend s \<Longrightarrow> lw_step intvl s (s\<lparr>lw_tb := with_txn_man MVCC (set_ts ts) txn 0 (lw_tb s)\<rparr>)"
| publish: "txn \<in> lw_pend s \<Longrightarrow> live s txn = Some e \<Longrightarrow>
    lw_step intvl s (s\<lparr>lw_tb := update_min_ts txn (tn_timestamp e) (lw_tb s), lw_pend := lw_pend s - {txn},
      lw_late := (if passed s txn (tn_timestamp e) then insert txn (lw_late s) else lw_late s)\<rparr>)"
| lookup: "live s txn = Some e \<Longrightarrow> get_transaction_manager MVCC fresh txn 0 (lw_tb s) = (e', tb) \<Longrightarrow> lw_step intvl s (s\<lparr>lw_tb := tb\<rparr>)"
| restamp: "live s txn = Some e \<Longrightarrow> tn_timestamp e \<le> ts \<Longrightarrow> lw_step intvl s (s\<lparr>lw_tb := with_txn_man MVCC (set_ts ts) txn 0 (lw_tb s)\<rparr>)"
| republish: "lw_step intvl s (s\<lparr>lw_tb := update_min_ts txn ts (lw_tb s)\<rparr>)"
| finish: "release_transaction_manager MVCC txn 0 (lw_tb s) = Some (e, tb) \<Longrightarrow>
    lw_step intvl s (s\<lparr>lw_tb := tb, lw_pend := lw_pend s - {txn}, lw_late := lw_late s - {txn}\<rparr>)"
| mark: "mark_access intvl now (lw_tb s) (lw_mg s) (lw_pc s th) = (mg, pc) \<Longrightarrow> lw_step intvl s (s\<lparr>lw_mg := mg, lw_pc := (lw_pc s)(th := pc)\<rparr>)"

definition lw_init :: "32 word \<Rightarrow> low_water" where
  "lw_init n = \<lparr>lw_tb = txn_table_init n, lw_mg = manager_init, lw_pc = (\<lambda>_. Outside), lw_pend = {}, lw_late = {}\<rparr>"

inductive lw_reach :: "u64 \<Rightarrow> 32 word \<Rightarrow> low_water \<Rightarrow> bool" for intvl n where
  init: "lw_reach intvl n (lw_init n)"
| step: "lw_reach intvl n s \<Longrightarrow> lw_step intvl s s' \<Longrightarrow> lw_reach intvl n s'"

definition pool_min :: "txn_table \<Rightarrow> u64 \<Rightarrow> u64" where
  "pool_min tb txn = pn_min_ts (pool tb ! pool_id tb txn)"

definition lw_inv :: "low_water \<Rightarrow> bool" where
  "lw_inv s \<longleftrightarrow> tb_ok MVCC (lw_tb s) \<and>
     (\<forall>txn e. live s txn = Some e \<longrightarrow> txn \<notin> lw_pend s \<longrightarrow> pool_min (lw_tb s) txn \<le> tn_timestamp e \<and>
        (txn \<notin> lw_late s \<longrightarrow> \<not> passed s txn (tn_timestamp e)))"

lemma mvcc_key [simp]: "tkey MVCC txn 0 = (txn, 0)"
  by (simp add: tkey_def)

lemma passes_mono: "passes i ts' pc \<Longrightarrow> ts \<le> ts' \<Longrightarrow> passes i ts pc"
  by (cases pc) (auto intro: le_less_trans)

lemma passed_mono: "passed s txn ts' \<Longrightarrow> ts \<le> ts' \<Longrightarrow> passed s txn ts"
  unfolding passed_def by (meson le_less_trans passes_mono)

lemma pool_min_upd:
  assumes "pool_id tb txn < length (pool tb)"
  shows "pool_min (tb\<lparr>pool := (pool tb)[pool_id tb txn := pn]\<rparr>) x = (if pool_id tb x = pool_id tb txn then pn_min_ts pn else pool_min tb x)"
  using assms by (simp add: pool_min_def)

lemma pool_min_update:
  assumes "tb_ok cc tb"
  shows "pool_min (update_min_ts txn ts tb) x \<le> pool_min tb x" "pool_min (update_min_ts txn ts tb) txn \<le> ts"
  using pool_min_upd [OF tb_okD(2) [OF assms], of txn] 
  by (auto simp: update_min_ts_def Let_def lower_min_ts_def pool_min_def)

lemma pool_min_with: "tb_ok cc tb \<Longrightarrow> pool_min (with_txn_man cc f txn batch tb) x = pool_min tb x"
  using pool_min_upd [OF tb_okD(2), of cc tb txn] by (auto simp: with_txn_man_def Let_def pool_min_def)

lemma pool_min_get:
  assumes ok: "tb_ok MVCC tb" and get: "get_transaction_manager MVCC fresh txn 0 tb = (e, tb')"
  shows "pool_min tb' x \<le> pool_min tb x"
proof -
  have "\<exists>pn. tb' = tb\<lparr>pool := (pool tb)[pool_id tb txn := lower_min_ts (tn_timestamp e) pn]\<rparr> \<and> pn_min_ts pn = pn_min_ts (pool tb ! pool_id tb txn)"
    using get by (auto simp: get_transaction_manager_def Let_def split: option.splits)
  then show ?thesis using pool_min_upd [OF tb_okD(2) [OF ok], of txn] by (auto simp: lower_min_ts_def pool_min_def less_imp_le)
qed

lemma pool_min_release:
  assumes ok: "tb_ok MVCC tb" and rel: "release_transaction_manager MVCC txn 0 tb = Some (e, tb')"
    and x: "tb_find MVCC tb' (x, 0) = Some e'" "pool_min tb x \<le> tn_timestamp e'"
  shows "pool_min tb' x \<le> tn_timestamp e'"
proof -
  have "tb_find MVCC tb (tkey MVCC txn 0) = Some e"
    using release_map(1) [OF ok, of txn 0] release_map(2) [OF ok, of txn 0] rel by (cases "tb_find MVCC tb (tkey MVCC txn 0)") (auto simp: Let_def)
  from release_map(2) [OF ok this] rel obtain pn where
    pn: "tb' = tb\<lparr>pool := (pool tb)[pool_id tb txn := pn]\<rparr>" "\<forall>e \<in> set (pn_nodes pn). pn_min_ts pn \<le> tn_timestamp e"
    by (auto simp: Let_def)
  show ?thesis
  proof (cases "pool_id tb x = pool_id tb txn")
    case True
    then have "e' \<in> set (pn_nodes pn)"
      using x(1) tb_okD(2) [OF ok, of txn] by (auto simp: pn(1) tb_find_def tb_hash_def find_Some_iff in_set_conv_nth)
    then show ?thesis using pn(2) True pool_min_upd [OF tb_okD(2) [OF ok], of txn pn x] by (simp add: pn(1))
  next
    case False
    then show ?thesis using x(2) pool_min_upd [OF tb_okD(2) [OF ok], of txn pn x] by (simp add: pn(1))
  qed
qed

lemma lw_invD:
  assumes "lw_inv s"
  shows "tb_ok MVCC (lw_tb s)" "live s txn = Some e \<Longrightarrow> txn \<notin> lw_pend s \<Longrightarrow> pool_min (lw_tb s) txn \<le> tn_timestamp e"
    "live s txn = Some e \<Longrightarrow> txn \<notin> lw_pend s \<Longrightarrow> txn \<notin> lw_late s \<Longrightarrow> \<not> passed s txn (tn_timestamp e)"
  using assms unfolding lw_inv_def by blast+

lemma lw_invI:
  assumes "tb_ok MVCC (lw_tb s)" "\<And>txn e. live s txn = Some e \<Longrightarrow> txn \<notin> lw_pend s \<Longrightarrow> pool_min (lw_tb s) txn \<le> tn_timestamp e"
    "\<And>txn e. live s txn = Some e \<Longrightarrow> txn \<notin> lw_pend s \<Longrightarrow> txn \<notin> lw_late s \<Longrightarrow> \<not> passed s txn (tn_timestamp e)"
  shows "lw_inv s"
  using assms unfolding lw_inv_def by blast

text \<open>The operations of the table keep the number of pools, so that what threads have passed stays the same.\<close>

lemma pool_size_ops:
  "pool_size (update_min_ts txn ts tb) = pool_size tb"
  "pool_size (with_txn_man cc f txn batch tb) = pool_size tb"
  "get_transaction_manager cc fresh txn batch tb = (e, tb') \<Longrightarrow> pool_size tb' = pool_size tb"
  "release_transaction_manager cc txn batch tb = Some (e, tb') \<Longrightarrow> pool_size tb' = pool_size tb"
  by (auto simp: update_min_ts_def with_txn_man_def get_transaction_manager_def release_transaction_manager_def Let_def
      split: prod.splits option.splits bind_splits)

lemma passed_table:
  "pool_size tb = pool_size (lw_tb s) \<Longrightarrow> passed (s\<lparr>lw_tb := tb, lw_pend := p, lw_late := l\<rparr>) txn ts \<longleftrightarrow> passed s txn ts"
  "pool_size tb = pool_size (lw_tb s) \<Longrightarrow> passed (s\<lparr>lw_tb := tb\<rparr>) txn ts \<longleftrightarrow> passed s txn ts"
  by (simp_all add: passed_def pool_id_def)

lemma set_ts_key: "ent_key cc (set_ts ts e) = ent_key cc e"
  by (simp add: ent_key_def set_ts_def)

lemma lw_get:
  assumes inv: "lw_inv s" and get: "get_transaction_manager MVCC fresh txn 0 (lw_tb s) = (e, tb)"
  shows "tb_ok MVCC tb" "live s t = Some e' \<Longrightarrow> t \<notin> lw_pend s \<Longrightarrow> pool_min tb t \<le> tn_timestamp e'"
proof -
  note I = lw_invD [OF inv]
  show "tb_ok MVCC tb" using get_manager_map(1) [OF I(1) get] .
  show "pool_min tb t \<le> tn_timestamp e'" if "live s t = Some e'" "t \<notin> lw_pend s"
    using order.trans [OF pool_min_get [OF I(1) get] I(2) [OF that]] .
qed

lemma lw_arrive:
  assumes inv: "lw_inv s" and get: "get_transaction_manager MVCC fresh txn 0 (lw_tb s) = (e, tb)"
  shows "lw_inv (s\<lparr>lw_tb := tb, lw_pend := insert txn (lw_pend s), lw_late := lw_late s - {txn}\<rparr>)"
  by (rule lw_invI)
    (use get_manager_map(2) [OF lw_invD(1) [OF inv] get] lw_invD(3) [OF inv] lw_get [OF inv get] passed_table(1) [OF pool_size_ops(3) [OF get]]
      in \<open>auto split: if_splits\<close>)

lemma lw_lookup:
  assumes inv: "lw_inv s" and e: "live s txn = Some e" and get: "get_transaction_manager MVCC fresh txn 0 (lw_tb s) = (e', tb)"
  shows "lw_inv (s\<lparr>lw_tb := tb\<rparr>)"
proof -
  have "tb_find MVCC tb = tb_find MVCC (lw_tb s)"
    using get_manager_map(2,3) [OF lw_invD(1) [OF inv] get] e by (auto simp: fun_eq_iff)
  then show ?thesis
    by (intro lw_invI) (use lw_invD(3) [OF inv] lw_get [OF inv get] passed_table(2) [OF pool_size_ops(3) [OF get]] in auto)
qed

lemma lw_publish:
  assumes inv: "lw_inv s" and e: "live s txn = Some e"
  shows "lw_inv (s\<lparr>lw_tb := update_min_ts txn (tn_timestamp e) (lw_tb s), lw_pend := lw_pend s - {txn},
    lw_late := (if passed s txn (tn_timestamp e) then insert txn (lw_late s) else lw_late s)\<rparr>)"
proof -
  note I = lw_invD [OF inv]
  note u = update_min_ts_map [OF I(1), of txn "tn_timestamp e"] and m = pool_min_update [OF I(1), of txn "tn_timestamp e"]
  note p = passed_table(1) [OF pool_size_ops(1)]
  show ?thesis
  proof (rule lw_invI, goal_cases)
    case 1
    then show ?case using u(1) by simp
  next
    case (2 t e')
    then show ?case using e u(2) m(2) order.trans [OF m(1) I(2) [of t e']] by (cases "t = txn") auto
  next
    case (3 t e')
    then show ?case using e u(2) I(3) [of t e'] by (cases "t = txn") (auto simp: p split: if_splits)
  qed
qed

lemma lw_republish:
  assumes inv: "lw_inv s"
  shows "lw_inv (s\<lparr>lw_tb := update_min_ts txn ts (lw_tb s)\<rparr>)"
proof -
  note I = lw_invD [OF inv]
  note u = update_min_ts_map [OF I(1), of txn ts]
  show ?thesis
    by (rule lw_invI) (use u I(3) order.trans [OF pool_min_update(1) [OF I(1)] I(2)] passed_table(2) [OF pool_size_ops(1)] in auto)
qed

lemma lw_restamp:
  assumes inv: "lw_inv s" and e: "live s txn = Some e" "tn_timestamp e \<le> ts"
  shows "lw_inv (s\<lparr>lw_tb := with_txn_man MVCC (set_ts ts) txn 0 (lw_tb s)\<rparr>)"
proof -
  note I = lw_invD [OF inv]
  note w = with_txn_man_map [OF I(1), of "set_ts ts" txn 0, OF set_ts_key]
  have old: "\<exists>e0. live s t = Some e0 \<and> tn_timestamp e0 \<le> tn_timestamp e'"
    if "tb_find MVCC (with_txn_man MVCC (set_ts ts) txn 0 (lw_tb s)) (t, 0) = Some e'" for t e'
    using that e unfolding w(2) by (cases "t = txn") (auto simp: set_ts_def)
  show ?thesis
  proof (rule lw_invI, goal_cases)
    case 1
    then show ?case using w(1) by simp
  next
    case (2 t e')
    then show ?case using old [of t e'] I(2) [of t] pool_min_with [OF I(1), of "set_ts ts" txn 0 t] by (auto intro: order.trans)
  next
    case (3 t e')
    then show ?case using old [of t e'] I(3) [of t] by (auto simp: passed_table(2) [OF pool_size_ops(2)] dest: passed_mono)
  qed
qed

lemma lw_finish:
  assumes inv: "lw_inv s" and rel: "release_transaction_manager MVCC txn 0 (lw_tb s) = Some (e, tb)"
  shows "lw_inv (s\<lparr>lw_tb := tb, lw_pend := lw_pend s - {txn}, lw_late := lw_late s - {txn}\<rparr>)"
proof -
  note I = lw_invD [OF inv]
  have f: "tb_find MVCC (lw_tb s) (tkey MVCC txn 0) = Some e"
    using release_map(1) [OF I(1), of txn 0] release_map(2) [OF I(1), of txn 0] rel
    by (cases "tb_find MVCC (lw_tb s) (tkey MVCC txn 0)") (auto simp: Let_def)
  from release_map(2) [OF I(1) f] rel have r: "tb_ok MVCC tb" "tb_find MVCC tb = (tb_find MVCC (lw_tb s))((txn, 0) := None)"
    by (auto simp: Let_def)
  show ?thesis
  proof (rule lw_invI, goal_cases)
    case 1
    then show ?case using r(1) by simp
  next
    case (2 t e')
    then show ?case using r(2) I(2) [of t e'] pool_min_release [OF I(1) rel, of t e'] by (cases "t = txn") auto
  next
    case (3 t e')
    then show ?case using r(2) I(3) [of t e'] by (cases "t = txn") (auto simp: passed_table(1) [OF pool_size_ops(4) [OF rel]])
  qed
qed

lemma lw_stamp:
  assumes inv: "lw_inv s" and "txn \<in> lw_pend s"
  shows "lw_inv (s\<lparr>lw_tb := with_txn_man MVCC (set_ts ts) txn 0 (lw_tb s)\<rparr>)"
proof -
  note I = lw_invD [OF inv]
  note w = with_txn_man_map [OF I(1), of "set_ts ts" txn 0, OF set_ts_key]
  show ?thesis
    by (rule lw_invI) (use w I(2,3) assms(2) pool_min_with [OF I(1)] passed_table(2) [OF pool_size_ops(2)] in \<open>auto split: if_splits\<close>)
qed

text \<open>An access of a thread does not pass a timestamp that the pool of its transaction is not above.\<close>

lemma mark_access_passes:
  assumes acc: "mark_access intvl now tb mg pc = (mg', pc')" and i: "i < unat (pool_size tb)" "pn_min_ts (pool tb ! i) \<le> ts"
    and old: "\<not> passes i ts pc" "mg_min_ts mg \<le> ts"
  shows "\<not> passes i ts pc' \<and> mg_min_ts mg' \<le> ts"
proof (cases pc)
  case (Scanning k m)
  then show ?thesis using acc i old by (cases "i = k") (auto simp: scan_pool_def split: if_splits)
qed (use acc i old in \<open>auto simp: not_less split: if_splits\<close>)

lemma lw_mark:
  assumes inv: "lw_inv s" and acc: "mark_access intvl now (lw_tb s) (lw_mg s) (lw_pc s th) = (mg, pc)"
  shows "lw_inv (s\<lparr>lw_mg := mg, lw_pc := (lw_pc s)(th := pc)\<rparr>)"
proof -
  note I = lw_invD [OF inv]
  have "\<not> passed (s\<lparr>lw_mg := mg, lw_pc := (lw_pc s)(th := pc)\<rparr>) txn (tn_timestamp e)"
    if e: "live s txn = Some e" "txn \<notin> lw_pend s" "txn \<notin> lw_late s" for txn e
  proof -
    have "pool_id (lw_tb s) txn < unat (pool_size (lw_tb s))" using tb_okD(2) [OF I(1), of txn] I(1) by (simp add: tb_ok_def)
    moreover have "\<not> passes (pool_id (lw_tb s) txn) (tn_timestamp e) (lw_pc s t)" "mg_min_ts (lw_mg s) \<le> tn_timestamp e" for t
      using I(3) [OF e] by (auto simp: passed_def not_less)
    ultimately show ?thesis
      using mark_access_passes [OF acc] I(2) [OF e(1,2)] by (auto simp: passed_def pool_min_def not_less)
  qed
  then show ?thesis by (intro lw_invI) (use I in auto)
qed

lemma lw_step_inv: "lw_step intvl s s' \<Longrightarrow> lw_inv s \<Longrightarrow> lw_inv s'"
proof (induction rule: lw_step.induct)
  case (arrive s txn fresh e tb)
  then show ?case by (intro lw_arrive)
next
  case (stamp txn s ts)
  then show ?case by (intro lw_stamp)
next
  case (publish txn s e)
  then show ?case by (intro lw_publish)
next
  case (lookup s txn e fresh e' tb)
  then show ?case by (intro lw_lookup)
next
  case (restamp s txn e ts)
  then show ?case by (intro lw_restamp)
next
  case (republish s txn ts)
  then show ?case by (intro lw_republish)
next
  case (finish txn s e tb)
  then show ?case by (intro lw_finish)
next
  case (mark now s th mg pc)
  then show ?case by (intro lw_mark)
qed

lemma lw_reach_inv: "lw_reach intvl n s \<Longrightarrow> (scast (n + 1 :: 32 word) :: u64) \<noteq> 0 \<Longrightarrow> lw_inv s"
proof (induction rule: lw_reach.induct)
  case init
  then show ?case by (simp add: lw_inv_def lw_init_def tb_ok_init)
next
  case (step s s')
  then show ?case using lw_step_inv by blast
qed

text \<open>C30: The low-water mark of MVCC is safe: at every moment, whatever transactions have come, restarted and gone and however many threads are computing the mark in between, neither the mark that Manager holds nor the mark that a thread has got from it is above the timestamp of a transaction in the table, except one that has not published its timestamp yet and one that published it too late: when the mark, the mark a thread had got, or the minimum of a thread that had already read the pool of the transaction was above it.\<close>

theorem low_water_mark_safe:
  assumes "lw_reach intvl n s" "(scast (n + 1 :: 32 word) :: u64) \<noteq> 0" "live s txn = Some e" "txn \<notin> lw_pend s" "txn \<notin> lw_late s"
  shows "mg_min_ts (lw_mg s) \<le> tn_timestamp e \<and> (\<forall>th t_th. lw_pc s th = Holding t_th \<longrightarrow> t_th \<le> tn_timestamp e)"
proof -
  have "\<not> passed s txn (tn_timestamp e)" using lw_invD(3) [OF lw_reach_inv [OF assms(1,2)] assms(3-5)] .
  then show ?thesis unfolding passed_def by (metis not_less passes.simps(4))
qed

section \<open>Concrete instances\<close>

definition demo_tb_ops :: "tb_op list" where
  "demo_tb_ops = [OpGet 7 1 0, OpGet 8 5 0, OpSetTs 9 5 0, OpRestart True 1 0, OpRelease 1 0, OpGet 0 5 0]"

theorem txn_table_refines_map_witness:
  "map_option (\<lambda>(rs, tb). (rs, tb_find MVCC tb)) (run_ops (tb_exec MVCC) demo_tb_ops (txn_table_init 3)) = run_ops (map_exec MVCC) demo_tb_ops Map.empty \<and>
   map_option (\<lambda>(rs, tb). rs) (run_ops (tb_exec MVCC) demo_tb_ops (txn_table_init 3)) =
     Some [(Some \<lparr>tn_txn_id = 1, tn_batch_id = 0, tn_timestamp = 7\<rparr>, []), (Some \<lparr>tn_txn_id = 5, tn_batch_id = 0, tn_timestamp = 8\<rparr>, []), (None, []),
       (None, [(RTXN_CONT, \<lparr>tn_txn_id = 1, tn_batch_id = 0, tn_timestamp = 7\<rparr>)]), (Some \<lparr>tn_txn_id = 1, tn_batch_id = 0, tn_timestamp = 7\<rparr>, []),
       (Some \<lparr>tn_txn_id = 5, tn_batch_id = 0, tn_timestamp = 9\<rparr>, [])]"
proof
  have "(scast (3 + 1 :: 32 word) :: u64) \<noteq> 0" by simp
  then show "map_option (\<lambda>(rs, tb). (rs, tb_find MVCC tb)) (run_ops (tb_exec MVCC) demo_tb_ops (txn_table_init 3)) = run_ops (map_exec MVCC) demo_tb_ops Map.empty"
    by (rule txn_table_refines_map)
qed code_simp

text \<open>A node runs a transaction with timestamp 10 and a thread reads the mark; then a query of a transaction with timestamp 5 arrives.\<close>

definition demo_tb1 :: txn_table where
  "demo_tb1 = update_min_ts 1 10 (with_txn_man MVCC (set_ts 10) 1 0 (snd (get_transaction_manager MVCC UINT64_MAX 1 0 (txn_table_init 0))))"

definition demo_tb2 :: txn_table where
  "demo_tb2 = update_min_ts 2 5 (with_txn_man MVCC (set_ts 5) 2 0 (snd (get_transaction_manager MVCC UINT64_MAX 2 0 demo_tb1)))"

definition demo_mg :: manager where
  "demo_mg = \<lparr>mg_timestamp = 1, mg_last_min_ts_time = 100, mg_min_ts = 10\<rparr>"

definition demo_lw :: "txn_table \<Rightarrow> u64 set \<Rightarrow> low_water" where
  "demo_lw tb late = \<lparr>lw_tb = tb, lw_mg = demo_mg, lw_pc = (\<lambda>_. Outside)(0 := Holding 10), lw_pend = {}, lw_late = late\<rparr>"

lemma new_txn_reach:
  assumes "lw_reach intvl n \<lparr>lw_tb = tb, lw_mg = mg, lw_pc = pc, lw_pend = {}, lw_late = l\<rparr>" "txn \<notin> l"
    and "tb_find MVCC tb (txn, 0) = None" "tb1 = with_txn_man MVCC (set_ts ts) txn 0 (snd (get_transaction_manager MVCC fresh txn 0 tb))"
    and "tb_find MVCC tb1 (txn, 0) = Some e" "tn_timestamp e = ts"
  shows "lw_reach intvl n \<lparr>lw_tb = update_min_ts txn ts tb1, lw_mg = mg, lw_pc = pc, lw_pend = {},
    lw_late = (if passed \<lparr>lw_tb = tb1, lw_mg = mg, lw_pc = pc, lw_pend = {txn}, lw_late = l\<rparr> txn ts then insert txn l else l)\<rparr>"
proof -
  let ?tb = "snd (get_transaction_manager MVCC fresh txn 0 tb)"
  have "lw_reach intvl n \<lparr>lw_tb = ?tb, lw_mg = mg, lw_pc = pc, lw_pend = {txn}, lw_late = l\<rparr>"
    using lw_reach.step [OF assms(1) arrive [of _ txn fresh "fst (get_transaction_manager MVCC fresh txn 0 tb)" ?tb]] assms(2,3) by simp
  from lw_reach.step [OF this stamp [of txn _ _ ts]]
  have "lw_reach intvl n \<lparr>lw_tb = tb1, lw_mg = mg, lw_pc = pc, lw_pend = {txn}, lw_late = l\<rparr>" by (simp add: assms(4))
  from lw_reach.step [OF this publish [of txn _ e]] show ?thesis using assms(5,6) by (simp cong: if_cong)
qed

lemma mark_reach:
  "lw_reach intvl n s \<Longrightarrow> mark_access intvl now (lw_tb s) (lw_mg s) (lw_pc s th) = (mg, pc) \<Longrightarrow> lw_reach intvl n (s\<lparr>lw_mg := mg, lw_pc := (lw_pc s)(th := pc)\<rparr>)"
  by (rule lw_reach.step [OF _ lw_step.mark])

lemma demo_lw1_reach: "lw_reach 50 0 (demo_lw demo_tb1 {})"
proof -
  let ?tb1 = "with_txn_man MVCC (set_ts 10) 1 0 (snd (get_transaction_manager MVCC UINT64_MAX 1 0 (txn_table_init 0)))"
  have f: "tb_find MVCC (txn_table_init 0) (1, 0) = None" "tb_find MVCC ?tb1 (1, 0) = Some \<lparr>tn_txn_id = 1, tn_batch_id = 0, tn_timestamp = 10\<rparr>"
    by code_simp+
  have "lw_reach 50 0 \<lparr>lw_tb = txn_table_init 0, lw_mg = manager_init, lw_pc = (\<lambda>_. Outside), lw_pend = {}, lw_late = {}\<rparr>"
    using lw_reach.init [of 50 0] by (simp add: lw_init_def)
  from new_txn_reach [OF this _ f(1) refl f(2)]
  have r: "lw_reach 50 0 \<lparr>lw_tb = demo_tb1, lw_mg = manager_init, lw_pc = (\<lambda>_. Outside), lw_pend = {}, lw_late = {}\<rparr>"
    by (simp add: demo_tb1_def passed_def manager_init_def)
  have sz: "pool_size demo_tb1 = 1" "pn_min_ts (pool demo_tb1 ! 0) = 10" by code_simp+
  note st = mark_reach [where th = 0 and now = 100]
  show ?thesis
    using st [OF st [OF st [OF st [OF st [OF st [OF st [OF r]]]]]]]
    by (simp add: manager_init_def sz scan_pool_def demo_lw_def demo_mg_def)
qed

lemma demo_lw2_reach: "lw_reach 50 0 (demo_lw demo_tb2 {2})"
proof -
  let ?tb1 = "with_txn_man MVCC (set_ts 5) 2 0 (snd (get_transaction_manager MVCC UINT64_MAX 2 0 demo_tb1))"
  have f: "tb_find MVCC demo_tb1 (2, 0) = None" "tb_find MVCC ?tb1 (2, 0) = Some \<lparr>tn_txn_id = 2, tn_batch_id = 0, tn_timestamp = 5\<rparr>"
    by code_simp+
  from new_txn_reach [OF demo_lw1_reach [unfolded demo_lw_def] _ f(1) refl f(2)] show ?thesis
    by (simp add: demo_lw_def demo_tb2_def passed_def demo_mg_def)
qed

theorem low_water_mark_safe_witness:
  "\<exists>e. live (demo_lw demo_tb2 {2}) 1 = Some e \<and> mg_min_ts (lw_mg (demo_lw demo_tb2 {2})) \<le> tn_timestamp e \<and> 10 \<le> tn_timestamp e"
proof -
  have e: "tb_find MVCC demo_tb2 (1, 0) = Some \<lparr>tn_txn_id = 1, tn_batch_id = 0, tn_timestamp = 10\<rparr>" by code_simp
  then have "live (demo_lw demo_tb2 {2}) 1 = Some \<lparr>tn_txn_id = 1, tn_batch_id = 0, tn_timestamp = 10\<rparr>" by (simp add: demo_lw_def)
  from low_water_mark_safe [OF demo_lw2_reach _ this] this show ?thesis by (auto simp: demo_lw_def)
qed

end
