(* ===== verification/Abort_Queue.thy ===== *)
theory Abort_Queue
  imports Deneva_Base
begin

text \<open>
  The queue of aborted transactions (\<^verbatim>\<open>system/abort_queue.cpp\<close>) that the abort thread
  (\<^verbatim>\<open>system/abort_thread.cpp\<close>) visits. The \<^verbatim>\<open>std::priority_queue\<close> ordered by \<^verbatim>\<open>CompareAbortEntry\<close> is the list
  of its entries by increasing \<^verbatim>\<open>penalty_end\<close>; the order of entries with equal ends is left open by the
  library and plays no role. Operations hold the mutex, so they are single steps; the clock is an argument.
\<close>

unbundle bit_operations_syntax

section \<open>The queue\<close>

record abort_entry =
  penalty_end :: u64
  ae_txn_id :: txnid_t

record abort_cfg =
  g_abort_penalty :: u64
  g_abort_penalty_max :: u64
  BACKOFF :: bool

definition abort_queue_init :: "abort_entry list" where
  "abort_queue_init = []"

definition abort_penalty :: "abort_cfg \<Rightarrow> u64 \<Rightarrow> u64" where
  "abort_penalty cf abort_cnt =
     (let penalty = g_abort_penalty cf
      in if BACKOFF cf then max (penalty * 2 XOR abort_cnt) (g_abort_penalty_max cf) else penalty)"

definition aq_enqueue :: "abort_cfg \<Rightarrow> u64 \<Rightarrow> u64 \<Rightarrow> u64 \<Rightarrow> abort_entry list \<Rightarrow> u64 \<times> abort_entry list" where
  "aq_enqueue cf starttime txn abort_cnt q =
     (let penalty = abort_penalty cf abort_cnt + starttime;
          entry = \<lparr>penalty_end = penalty, ae_txn_id = txn\<rparr>
      in (penalty - starttime, insort_key penalty_end entry q))"

text \<open>The result of \<^verbatim>\<open>process\<close> is the list of the messages \<^verbatim>\<open>RTXN\<close> it puts into the work queue.\<close>

fun aq_process :: "u64 \<Rightarrow> abort_entry list \<Rightarrow> txnid_t list \<times> abort_entry list" where
  "aq_process starttime [] = ([], [])"
| "aq_process starttime (entry # q) =
     (if penalty_end entry < starttime
      then case aq_process starttime q of (msgs, q') \<Rightarrow> (ae_txn_id entry # msgs, q')
      else ([], entry # q))"

datatype aq_op = AqAbort u64 txnid_t u64 | AqProcess u64

fun aq_step :: "abort_cfg \<Rightarrow> aq_op \<Rightarrow> abort_entry list \<Rightarrow> txnid_t list \<times> abort_entry list" where
  "aq_step cf (AqAbort now txn cnt) q = ([], snd (aq_enqueue cf now txn cnt q))"
| "aq_step cf (AqProcess now) q = aq_process now q"

text \<open>What each of a sequence of operations restarts, and the queue at the end.\<close>

fun aq_run :: "abort_cfg \<Rightarrow> aq_op list \<Rightarrow> abort_entry list \<Rightarrow> txnid_t list list \<times> abort_entry list" where
  "aq_run cf [] q = ([], q)"
| "aq_run cf (op # ops) q = (case aq_step cf op q of (msgs, q) \<Rightarrow> case aq_run cf ops q of (out, q) \<Rightarrow> (msgs # out, q))"

section \<open>What the queue promises\<close>

text \<open>The end of the penalty of an abort, on a clock that does not wrap around, and the visit that restarts it: the
  first one whose clock is past that end.\<close>

fun aborted_txn :: "aq_op \<Rightarrow> txnid_t" where
  "aborted_txn (AqAbort now txn cnt) = txn"
| "aborted_txn (AqProcess now) = 0"

fun penalty_due :: "abort_cfg \<Rightarrow> aq_op \<Rightarrow> nat" where
  "penalty_due cf (AqAbort now txn cnt) = unat now + unat (abort_penalty cf cnt)"
| "penalty_due cf (AqProcess now) = 0"

fun is_abort :: "aq_op \<Rightarrow> bool" where
  "is_abort (AqAbort now txn cnt) \<longleftrightarrow> True"
| "is_abort (AqProcess now) \<longleftrightarrow> False"

fun visits_after :: "nat \<Rightarrow> aq_op \<Rightarrow> bool" where
  "visits_after due (AqAbort now txn cnt) \<longleftrightarrow> False"
| "visits_after due (AqProcess now) \<longleftrightarrow> due < unat now"

definition still_queued :: "abort_cfg \<Rightarrow> aq_op list \<Rightarrow> nat \<Rightarrow> nat \<Rightarrow> bool" where
  "still_queued cf ops j i \<longleftrightarrow> i < j \<and> is_abort (ops ! i) \<and> (\<forall>k \<in> {i<..<j}. \<not> visits_after (penalty_due cf (ops ! i)) (ops ! k))"

definition restarts :: "abort_cfg \<Rightarrow> aq_op list \<Rightarrow> nat \<Rightarrow> nat \<Rightarrow> bool" where
  "restarts cf ops j i \<longleftrightarrow> still_queued cf ops j i \<and> visits_after (penalty_due cf (ops ! i)) (ops ! j)"

definition entry_of :: "abort_cfg \<Rightarrow> aq_op \<Rightarrow> abort_entry" where
  "entry_of cf op = \<lparr>penalty_end = of_nat (penalty_due cf op), ae_txn_id = aborted_txn op\<rparr>"

definition in_range :: "abort_cfg \<Rightarrow> aq_op list \<Rightarrow> bool" where
  "in_range cf ops \<longleftrightarrow> list_all (\<lambda>op. penalty_due cf op < 2 ^ 64) ops"

lemma aq_process_eq:
  "aq_process now q = (map ae_txn_id (takeWhile (\<lambda>e. penalty_end e < now) q), dropWhile (\<lambda>e. penalty_end e < now) q)"
  by (induction q) auto

lemma split_sorted:
  "sorted (map f q) \<Longrightarrow> takeWhile (\<lambda>e. f e < (now :: 'b :: linorder)) q = filter (\<lambda>e. f e < now) q \<and>
     dropWhile (\<lambda>e. f e < now) q = filter (\<lambda>e. \<not> f e < now) q"
proof (induction q)
  case (Cons e q)
  show ?case
  proof (cases "f e < now")
    case False
    then have "\<forall>x \<in> set q. \<not> f x < now" using Cons.prems by (auto simp: not_less intro: order.trans)
    then show ?thesis using False by simp
  qed (use Cons in simp)
qed simp

lemma insort_key_map: "insort_key f (g x) (map g xs) = map g (insort_key (\<lambda>y. f (g y)) x xs)"
  by (induction xs) auto

lemma aq_enqueue_entry:
  "snd (aq_enqueue cf now txn cnt q) = insort_key penalty_end (entry_of cf (AqAbort now txn cnt)) q"
  by (simp add: aq_enqueue_def entry_of_def Let_def add.commute)

lemma penalty_end_less: "penalty_due cf op < 2 ^ 64 \<Longrightarrow> penalty_end (entry_of cf op) < now \<longleftrightarrow> penalty_due cf op < unat now"
  by (simp add: entry_of_def word_less_nat_alt unat_of_nat)

lemma penalty_end_le:
  "penalty_due cf op < 2 ^ 64 \<Longrightarrow> penalty_due cf op' < 2 ^ 64 \<Longrightarrow> penalty_end (entry_of cf op) \<le> penalty_end (entry_of cf op') \<longleftrightarrow> penalty_due cf op \<le> penalty_due cf op'"
  by (simp add: entry_of_def word_le_nat_alt unat_of_nat)

lemma aq_run_snoc:
  "aq_run cf (ops @ [op]) q = (case aq_run cf ops q of (out, q) \<Rightarrow> case aq_step cf op q of (msgs, q) \<Rightarrow> (out @ [msgs], q))"
  by (induction ops arbitrary: q) (simp_all split: prod.splits)

lemma still_queued_append: "j \<le> length ops \<Longrightarrow> still_queued cf (ops @ ops') j i \<longleftrightarrow> still_queued cf ops j i"
  by (auto simp: still_queued_def nth_append)

lemma still_queued_Suc:
  "still_queued cf ops (Suc j) i \<longleftrightarrow> (if i = j then is_abort (ops ! j) else still_queued cf ops j i \<and> \<not> visits_after (penalty_due cf (ops ! i)) (ops ! j))"
  by (auto simp: still_queued_def less_Suc_eq)

text \<open>The entries of the queue are those of the aborts that are still queued, by the ends of their penalties.\<close>

definition queue_of :: "abort_cfg \<Rightarrow> aq_op list \<Rightarrow> nat \<Rightarrow> nat list \<Rightarrow> abort_entry list \<Rightarrow> bool" where
  "queue_of cf ops j is q \<longleftrightarrow> q = map (\<lambda>i. entry_of cf (ops ! i)) is \<and> distinct is \<and> set is = {i. still_queued cf ops j i} \<and> sorted (map penalty_end q)"

lemma queue_of_step:
  assumes q: "queue_of cf ops j is q" and j: "j < length ops" and r: "in_range cf ops" and st: "aq_step cf (ops ! j) q = (msgs, q')"
  shows "\<exists>is'. queue_of cf ops (Suc j) is' q'"
    and "\<exists>is'. distinct is' \<and> set is' = {i. restarts cf ops j i} \<and> sorted (map (\<lambda>i. penalty_due cf (ops ! i)) is') \<and> msgs = map (\<lambda>i. aborted_txn (ops ! i)) is'"
proof -
  let ?e = "\<lambda>i. entry_of cf (ops ! i)"
  have eq: "q = map ?e is" "distinct is" "set is = {i. still_queued cf ops j i}" "sorted (map penalty_end q)" using q unfolding queue_of_def by blast+
  have lt: "i < length ops" if "i \<in> set is" for i using that j eq(3) by (auto simp: still_queued_def)
  have due: "penalty_due cf (ops ! i) < 2 ^ 64" if "i \<in> set is" for i using r lt [OF that] by (simp add: in_range_def list_all_length)
  have nj: "j \<notin> set is" using eq(3) by (auto simp: still_queued_def)
  show "\<exists>is'. queue_of cf ops (Suc j) is' q'"
  proof (cases "ops ! j")
    case (AqAbort now txn cnt)
    let ?is = "insort_key (\<lambda>i. penalty_end (?e i)) j is"
    have "q' = map ?e ?is" using st by (auto simp: AqAbort aq_enqueue_entry eq(1) insort_key_map [of penalty_end ?e, symmetric])
    moreover have "set ?is = {i. still_queued cf ops (Suc j) i}" using eq(3) AqAbort by (auto simp: set_insort_key still_queued_Suc)
    moreover have "sorted (map penalty_end q')" using st eq(4) by (auto simp: AqAbort aq_enqueue_entry sorted_insort_key)
    ultimately show ?thesis unfolding queue_of_def using eq(2) nj by (intro exI [of _ ?is]) (simp add: distinct_insort)
  next
    case (AqProcess now)
    let ?is = "filter (\<lambda>i. \<not> penalty_end (?e i) < now) is"
    have "q' = filter (\<lambda>e. \<not> penalty_end e < now) q" using st split_sorted [OF eq(4), of now] by (simp add: AqProcess aq_process_eq)
    then have q': "q' = map ?e ?is" "sorted (map penalty_end q')" using eq(4) by (simp_all add: eq(1) filter_map o_def sorted_filter [of "\<lambda>i. penalty_end (?e i)"])
    have "set ?is = {i. still_queued cf ops (Suc j) i}" using eq(3) AqProcess due penalty_end_less nj by (auto simp: still_queued_Suc)
    then show ?thesis unfolding queue_of_def using eq(2) q' by (intro exI [of _ ?is]) simp
  qed
  show "\<exists>is'. distinct is' \<and> set is' = {i. restarts cf ops j i} \<and> sorted (map (\<lambda>i. penalty_due cf (ops ! i)) is') \<and> msgs = map (\<lambda>i. aborted_txn (ops ! i)) is'"
  proof (cases "ops ! j")
    case (AqAbort now txn cnt)
    then show ?thesis using st by (intro exI [of _ "[]"]) (auto simp: restarts_def)
  next
    case (AqProcess now)
    let ?is = "filter (\<lambda>i. penalty_end (?e i) < now) is"
    have "sorted (map (\<lambda>i. penalty_end (?e i)) ?is)" using eq(4) by (simp add: eq(1) o_def sorted_filter [of "\<lambda>i. penalty_end (?e i)"])
    then have "sorted (map (\<lambda>i. penalty_due cf (ops ! i)) ?is)"
      unfolding sorted_map by (rule sorted_wrt_mono_rel [rotated]) (auto simp: penalty_end_le [OF due due])
    moreover have "msgs = map (\<lambda>i. aborted_txn (ops ! i)) ?is"
      using st split_sorted [OF eq(4), of now] by (auto simp: AqProcess aq_process_eq eq(1) filter_map o_def entry_of_def)
    moreover have "set ?is = {i. restarts cf ops j i}" using eq(3) AqProcess due penalty_end_less by (auto simp: restarts_def)
    ultimately show ?thesis using eq(2) by (intro exI [of _ ?is]) simp
  qed
qed

lemma aq_run_prefix:
  assumes r: "in_range cf ops" and j: "j \<le> length ops"
  shows "\<exists>is. queue_of cf ops j is (snd (aq_run cf (take j ops) abort_queue_init))"
  using j
proof (induction j)
  case 0
  then show ?case by (simp add: queue_of_def abort_queue_init_def still_queued_def)
next
  case (Suc j)
  then obtain "is" where "is": "queue_of cf ops j is (snd (aq_run cf (take j ops) abort_queue_init))" by auto
  have "snd (aq_run cf (take (Suc j) ops) abort_queue_init) = snd (aq_step cf (ops ! j) (snd (aq_run cf (take j ops) abort_queue_init)))"
    using Suc.prems by (simp add: take_Suc_conv_app_nth aq_run_snoc split: prod.splits)
  then show ?case using queue_of_step(1) [OF "is" _ r] Suc.prems by (metis Suc_le_eq prod.collapse)
qed

lemma aq_run_nth:
  "j < length ops \<Longrightarrow> fst (aq_run cf ops q) ! j = fst (aq_step cf (ops ! j) (snd (aq_run cf (take j ops) q)))"
proof (induction ops arbitrary: j q)
  case (Cons op ops)
  show ?case
  proof (cases j)
    case (Suc k)
    then show ?thesis using Cons.IH [of k "snd (aq_step cf op q)"] Cons.prems by (simp add: split_beta)
  qed (simp add: split_beta)
qed simp

text \<open>C33: The abort queue restarts every aborted transaction exactly once and never early: whatever the sequence of aborts and visits of the abort thread, a visit restarts exactly the aborts before it whose penalty has ended by its clock, that is the time of the abort plus the penalty of its abort count, and that no visit in between has restarted already, each once and in the order of the ends of the penalties. An abort restarts nothing.\<close>

theorem abort_queue_exact:
  assumes "in_range cf ops" "j < length ops"
  shows "\<exists>is. distinct is \<and> set is = {i. restarts cf ops j i} \<and> sorted (map (\<lambda>i. penalty_due cf (ops ! i)) is) \<and>
    fst (aq_run cf ops abort_queue_init) ! j = map (\<lambda>i. aborted_txn (ops ! i)) is"
proof -
  obtain "is" where "is": "queue_of cf ops j is (snd (aq_run cf (take j ops) abort_queue_init))" using aq_run_prefix [OF assms(1)] assms(2) by fastforce
  show ?thesis unfolding aq_run_nth [OF assms(2)] using queue_of_step(2) [OF "is" assms(2,1)] by (metis prod.collapse)
qed

definition demo_aborts :: "aq_op list" where
  "demo_aborts = [AqAbort 100 7 0, AqAbort 50 8 0, AqProcess 160, AqProcess 300, AqProcess 400]"

definition demo_abort_cfg :: abort_cfg where
  "demo_abort_cfg = \<lparr>g_abort_penalty = 100, g_abort_penalty_max = 500, BACKOFF = False\<rparr>"

theorem abort_queue_exact_witness:
  "in_range demo_abort_cfg demo_aborts \<and> fst (aq_run demo_abort_cfg demo_aborts abort_queue_init) = [[], [], [8], [7], []] \<and>
   (\<exists>is. distinct is \<and> set is = {i. restarts demo_abort_cfg demo_aborts 3 i} \<and> [7] = map (\<lambda>i. aborted_txn (demo_aborts ! i)) is)"
proof -
  have r: "in_range demo_abort_cfg demo_aborts" by (simp add: in_range_def demo_aborts_def demo_abort_cfg_def abort_penalty_def)
  have o: "fst (aq_run demo_abort_cfg demo_aborts abort_queue_init) = [[], [], [8], [7], []]" by code_simp
  show ?thesis using abort_queue_exact [OF r, of 3] r o by (auto simp: demo_aborts_def)
qed

section \<open>The penalty\<close>

text \<open>The values of \<^verbatim>\<open>config.h\<close>: 10 ms and 500 ms, with \<^verbatim>\<open>BACKOFF\<close>.\<close>

definition default_abort_cfg :: abort_cfg where
  "default_abort_cfg = \<lparr>g_abort_penalty = 10 * 1000000, g_abort_penalty_max = 5 * 100 * 1000000, BACKOFF = True\<rparr>"

text \<open>There is no backoff: with the configured constants every abort costs the maximum penalty of 500 ms, however often the transaction has been aborted (up to 2^24 times). The code means to double a penalty of 10 ms with every abort up to that maximum; it takes the exclusive or with the abort count, and the larger of the two values.\<close>

theorem backoff_is_constant:
  assumes "unat abort_cnt < 2 ^ 24"
  shows "fst (aq_enqueue default_abort_cfg now txn abort_cnt q) = 500000000"
proof -
  have "unat abort_cnt < 33554432" using assms by simp
  then have "int (unat abort_cnt) < 33554432" by linarith
  then have c: "uint abort_cnt < 33554432" by simp
  have "20000000 XOR uint abort_cnt < 2 ^ 25" by (rule XOR_upper) (use c in simp_all)
  then have "uint (20000000 XOR abort_cnt :: u64) < 33554432" unfolding unsigned_xor_eq by simp
  then have "uint (20000000 XOR abort_cnt :: u64) < uint (500000000 :: u64)" by simp
  then have "20000000 XOR abort_cnt < (500000000 :: u64)" unfolding word_less_def .
  then have "max (20000000 XOR abort_cnt) (500000000 :: u64) = 500000000" by (simp only: max_def less_imp_le if_True)
  then show ?thesis by (simp add: aq_enqueue_def abort_penalty_def default_abort_cfg_def Let_def)
qed

theorem backoff_is_constant_witness:
  "fst (aq_enqueue default_abort_cfg 0 1 1 []) = 500000000 \<and> fst (aq_enqueue default_abort_cfg 0 1 20 []) = 500000000"
  using backoff_is_constant [of 1 0 1 "[]"] backoff_is_constant [of 20 0 1 "[]"] by simp

end
