(* ===== verification/Hash_Index.thy ===== *)
theory Hash_Index
  imports Bucket_Table
begin

text \<open>
  The hash index (\<^verbatim>\<open>storage/index_hash.cpp\<close>, \<^verbatim>\<open>storage/index_hash.h\<close>): an array of buckets, each a chain of
  nodes with a key and a chain of items. It refines a map from keys to chains of rows.
\<close>

section \<open>Buckets\<close>

type_synonym idx_key_t = u64
type_synonym row_ptr = nat

text \<open>A \<^verbatim>\<open>BucketNode\<close> is its key and its chain of items, an item the row it points to.\<close>

record bucket_node =
  bn_key :: idx_key_t
  bn_items :: "row_ptr list"

fun insert_item :: "idx_key_t \<Rightarrow> row_ptr \<Rightarrow> bucket_node list \<Rightarrow> bucket_node list" where
  "insert_item key item [] = [\<lparr>bn_key = key, bn_items = [item]\<rparr>]"
| "insert_item key item (n # ns) = (if bn_key n = key then n\<lparr>bn_items := item # bn_items n\<rparr> # ns else n # insert_item key item ns)"

definition insert_item_nonunique :: "idx_key_t \<Rightarrow> row_ptr \<Rightarrow> bucket_node list \<Rightarrow> bucket_node list" where
  "insert_item_nonunique key item ns = \<lparr>bn_key = key, bn_items = [item]\<rparr> # ns"

fun read_item :: "idx_key_t \<Rightarrow> bucket_node list \<Rightarrow> row_ptr list option" where
  "read_item key [] = None"
| "read_item key (n # ns) = (if bn_key n = key then Some (bn_items n) else read_item key ns)"

text \<open>The overloading with a counter; the null pointer is the empty chain.\<close>

fun read_item_count :: "idx_key_t \<Rightarrow> u32 \<Rightarrow> u32 \<Rightarrow> bucket_node list \<Rightarrow> row_ptr list" where
  "read_item_count key cnt ctr [] = []"
| "read_item_count key cnt ctr (n # ns) =
     (if bn_key n = key
      then if ctr = cnt then bn_items n else read_item_count key cnt (ctr + 1) ns
      else read_item_count key cnt ctr ns)"

definition delete_bucket :: "bucket_node list \<Rightarrow> row_ptr list" where
  "delete_bucket ns = map (\<lambda>n. hd (bn_items n)) ns"

section \<open>The index\<close>

record index_hash =
  bucket_cnt_per_part :: u64
  buckets :: "bucket_node list list"

definition index_init :: "u64 \<Rightarrow> index_hash" where
  "index_init bucket_cnt = \<lparr>bucket_cnt_per_part = bucket_cnt, buckets = replicate (unat bucket_cnt) []\<rparr>"

definition idx_hash :: "workload \<Rightarrow> u32 \<Rightarrow> index_hash \<Rightarrow> idx_key_t \<Rightarrow> nat" where
  "idx_hash wl part_cnt ix key =
     unat ((if wl = YCSB then key div ucast part_cnt else key) mod bucket_cnt_per_part ix)"

text \<open>\<^verbatim>\<open>get_latch\<close> and \<^verbatim>\<open>release_latch\<close> make an insertion one step. The node of a new key is linked when it is
  complete, so a reader, which takes no latch, sees the chain before or after the insertion.\<close>

definition index_insert :: "workload \<Rightarrow> u32 \<Rightarrow> idx_key_t \<Rightarrow> row_ptr \<Rightarrow> index_hash \<Rightarrow> index_hash option" where
  "index_insert wl part_cnt key item ix = do {
     let i = idx_hash wl part_cnt ix key;
     ASSERT (i < unat (bucket_cnt_per_part ix));
     Some (ix\<lparr>buckets := (buckets ix)[i := insert_item key item (buckets ix ! i)]\<rparr>) }"

definition index_insert_nonunique :: "workload \<Rightarrow> u32 \<Rightarrow> idx_key_t \<Rightarrow> row_ptr \<Rightarrow> index_hash \<Rightarrow> index_hash option" where
  "index_insert_nonunique wl part_cnt key item ix = do {
     let i = idx_hash wl part_cnt ix key;
     ASSERT (i < unat (bucket_cnt_per_part ix));
     Some (ix\<lparr>buckets := (buckets ix)[i := insert_item_nonunique key item (buckets ix ! i)]\<rparr>) }"

definition index_read :: "workload \<Rightarrow> u32 \<Rightarrow> idx_key_t \<Rightarrow> index_hash \<Rightarrow> row_ptr list option" where
  "index_read wl part_cnt key ix = do {
     let i = idx_hash wl part_cnt ix key;
     ASSERT (i < unat (bucket_cnt_per_part ix));
     read_item key (buckets ix ! i) }"

definition index_read_count :: "workload \<Rightarrow> u32 \<Rightarrow> idx_key_t \<Rightarrow> u32 \<Rightarrow> index_hash \<Rightarrow> row_ptr list option" where
  "index_read_count wl part_cnt key cnt ix = do {
     let i = idx_hash wl part_cnt ix key;
     ASSERT (i < unat (bucket_cnt_per_part ix));
     Some (read_item_count key cnt 0 (buckets ix ! i)) }"

definition index_delete :: "index_hash \<Rightarrow> row_ptr list" where
  "index_delete ix = concat (map delete_bucket (buckets ix))"

section \<open>Refinement of a map\<close>

text \<open>The contents of the index: for every key the chains of its nodes.\<close>

definition groups :: "idx_key_t \<Rightarrow> bucket_node list \<Rightarrow> row_ptr list list" where
  "groups key ns = map bn_items (filter (\<lambda>n. bn_key n = key) ns)"

definition contents :: "workload \<Rightarrow> u32 \<Rightarrow> index_hash \<Rightarrow> idx_key_t \<Rightarrow> row_ptr list list" where
  "contents wl part_cnt ix key = groups key (buckets ix ! idx_hash wl part_cnt ix key)"

definition ix_ok :: "index_hash \<Rightarrow> bool" where
  "ix_ok ix \<longleftrightarrow> bucket_cnt_per_part ix \<noteq> 0 \<and> length (buckets ix) = unat (bucket_cnt_per_part ix)"

datatype ix_op = IxInsert idx_key_t row_ptr | IxInsertNonunique idx_key_t row_ptr | IxRead idx_key_t | IxReadCount idx_key_t u32

fun ix_exec :: "workload \<Rightarrow> u32 \<Rightarrow> ix_op \<Rightarrow> index_hash \<Rightarrow> (row_ptr list \<times> index_hash) option" where
  "ix_exec wl pc (IxInsert key item) ix = map_option (\<lambda>ix. ([], ix)) (index_insert wl pc key item ix)"
| "ix_exec wl pc (IxInsertNonunique key item) ix = map_option (\<lambda>ix. ([], ix)) (index_insert_nonunique wl pc key item ix)"
| "ix_exec wl pc (IxRead key) ix = map_option (\<lambda>items. (items, ix)) (index_read wl pc key ix)"
| "ix_exec wl pc (IxReadCount key cnt) ix = map_option (\<lambda>items. (items, ix)) (index_read_count wl pc key cnt ix)"

fun ix_spec :: "ix_op \<Rightarrow> (idx_key_t \<Rightarrow> row_ptr list list) \<Rightarrow> (row_ptr list \<times> (idx_key_t \<Rightarrow> row_ptr list list)) option" where
  "ix_spec (IxInsert key item) m =
     Some ([], m(key := (case m key of [] \<Rightarrow> [[item]] | g # gs \<Rightarrow> (item # g) # gs)))"
| "ix_spec (IxInsertNonunique key item) m = Some ([], m(key := [item] # m key))"
| "ix_spec (IxRead key) m = (case m key of [] \<Rightarrow> None | g # gs \<Rightarrow> Some (g, m))"
| "ix_spec (IxReadCount key cnt) m = Some (if unat cnt < length (m key) then m key ! unat cnt else [], m)"

lemma groups_insert: "groups k (insert_item key item ns) =
    (if k = key then case groups key ns of [] \<Rightarrow> [[item]] | g # gs \<Rightarrow> (item # g) # gs else groups k ns)"
  by (induction ns) (auto simp: groups_def split: list.splits)

lemma groups_insert_nonunique: "groups k (insert_item_nonunique key item ns) = (if k = key then [item] # groups key ns else groups k ns)"
  by (simp add: groups_def insert_item_nonunique_def)

lemma read_item_groups: "read_item key ns = (case groups key ns of [] \<Rightarrow> None | g # gs \<Rightarrow> Some g)"
  by (induction ns) (auto simp: groups_def)

lemma unat_lt_2_32: "unat (x :: u32) < 4294967296"
  by (rule less_le_trans [OF unsigned_less]) simp

lemma read_item_count_groups:
  "unat ctr \<le> unat cnt \<Longrightarrow> read_item_count key cnt ctr ns =
     (if unat cnt - unat ctr < length (groups key ns) then groups key ns ! (unat cnt - unat ctr) else [])"
proof (induction ns arbitrary: ctr)
  case (Cons n ns)
  show ?case
  proof (cases "bn_key n = key \<and> ctr \<noteq> cnt")
    case True
    then have lt: "unat ctr < unat cnt" using Cons.prems by (simp add: word_unat_eq_iff)
    then have u: "unat (ctr + 1) = unat ctr + 1" using lt unat_lt_2_32 [of cnt] by (simp add: unat_word_ariths)
    have "unat cnt - unat ctr = Suc (unat cnt - unat (ctr + 1))" using lt u by simp
    then show ?thesis using True lt u Cons.IH [of "ctr + 1"] by (simp add: groups_def)
  qed (use Cons in \<open>auto simp: groups_def\<close>)
qed (simp add: groups_def)

lemma ix_okD:
  assumes "ix_ok ix"
  shows "idx_hash wl pc ix key < unat (bucket_cnt_per_part ix)" "idx_hash wl pc ix key < length (buckets ix)"
  using assms by (simp_all add: ix_ok_def idx_hash_def unat_mod unat_gt_0)

lemma idx_hash_upd [simp]: "idx_hash wl pc (ix\<lparr>buckets := b\<rparr>) = idx_hash wl pc ix"
  by (simp add: fun_eq_iff idx_hash_def)

lemma ix_exec_refines:
  assumes ok: "ix_ok ix"
  shows "pred_option (\<lambda>(r, ix'). ix_ok ix') (ix_exec wl pc op ix) \<and>
    map_option (\<lambda>(r, ix'). (r, contents wl pc ix')) (ix_exec wl pc op ix) = ix_spec op (contents wl pc ix)"
proof (cases op)
  case (IxInsert key item)
  show ?thesis using ok ix_okD [OF ok]
    by (auto simp: IxInsert index_insert_def ix_ok_def fun_eq_iff contents_def nth_list_update groups_insert Let_def split: list.splits)
next
  case (IxInsertNonunique key item)
  show ?thesis using ok ix_okD [OF ok]
    by (auto simp: IxInsertNonunique index_insert_nonunique_def ix_ok_def fun_eq_iff contents_def nth_list_update groups_insert_nonunique Let_def)
next
  case (IxRead key)
  show ?thesis using ok ix_okD [OF ok] by (auto simp: IxRead index_read_def contents_def read_item_groups Let_def split: list.splits)
next
  case (IxReadCount key cnt)
  show ?thesis using ok ix_okD [OF ok]
    read_item_count_groups [of 0 cnt] by (simp add: IxReadCount index_read_count_def contents_def Let_def)
qed

text \<open>C36: The hash index refines a map: for every sequence of insertions and reads, the buckets return what a map from keys to chains of rows returns, the newest row of a key first; a read with a counter returns the chain with that number or none, and a read of a key that was never inserted fails its assertion.\<close>

theorem hash_index_refines_map:
  assumes "bucket_cnt \<noteq> 0"
  shows "map_option (\<lambda>(rs, ix). (rs, contents wl pc ix)) (run_ops (ix_exec wl pc) ops (index_init bucket_cnt)) = run_ops ix_spec ops (\<lambda>key. [])"
proof -
  have ok: "ix_ok (index_init bucket_cnt)" using assms by (simp add: ix_ok_def index_init_def)
  have "contents wl pc (index_init bucket_cnt) = (\<lambda>key. [])"
    using ix_okD(2) [OF ok] by (simp add: fun_eq_iff contents_def groups_def index_init_def)
  then show ?thesis using run_ops_refine [of ix_ok "ix_exec wl pc" "contents wl pc" ix_spec, OF ix_exec_refines ok] by simp
qed

definition demo_ix_ops :: "ix_op list" where
  "demo_ix_ops = [IxInsert 3 10, IxInsert 7 11, IxInsert 3 12, IxInsertNonunique 7 13, IxRead 3, IxReadCount 7 1]"

theorem hash_index_refines_map_witness:
  "\<exists>ix. run_ops (ix_exec TPCC 2) demo_ix_ops (index_init 4) = Some ([[], [], [], [], [12, 10], [11]], ix)"
proof -
  have "run_ops ix_spec demo_ix_ops (\<lambda>key. []) = Some ([[], [], [], [], [12, 10], [11]], (\<lambda>key. [])(3 := [[12, 10]], 7 := [[13], [11]]))"
    by (simp add: demo_ix_ops_def)
  with hash_index_refines_map [of 4 TPCC 2 demo_ix_ops] show ?thesis by (auto simp: map_option_eq_Some)
qed

end
