(* ===== verification/Storage.thy ===== *)
theory Storage
  imports Wire
begin

text \<open>
  Catalogs and rows (\<^verbatim>\<open>storage/catalog.cpp\<close>, \<^verbatim>\<open>storage/row.cpp\<close>, \<^verbatim>\<open>storage/row.h\<close>): the layout of a tuple and
  the access to its columns as copies of bytes (\<^verbatim>\<open>SIM_FULL_ROW\<close> is true). A copy outside of the memory of the
  row, which is undefined in the source, is \<open>None\<close>. The concurrency control of a row is in the theories of
  the row managers and, for locking, in \<open>Rollback\<close>.
\<close>

section \<open>Catalogs\<close>

record column =
  col_id :: u64
  col_size :: u32
  col_index :: u32
  col_type :: string
  col_name :: string

record catalog =
  cat_table_name :: string
  cat_table_id :: u32
  cat_field_cnt :: u32
  cat_capacity :: nat
  cat_columns :: "column list"
  cat_tuple_size :: u32

definition catalog_init :: "string \<Rightarrow> u32 \<Rightarrow> nat \<Rightarrow> catalog" where
  "catalog_init name table_id field_cnt = \<lparr>cat_table_name = name, cat_table_id = table_id, cat_field_cnt = 0,
     cat_capacity = field_cnt, cat_columns = [], cat_tuple_size = 0\<rparr>"

text \<open>Writing a column beyond the array, or a name or type into its buffer of 80 characters that does not fit,
  is an error of the program.\<close>

definition add_col :: "string \<Rightarrow> u64 \<Rightarrow> string \<Rightarrow> catalog \<Rightarrow> catalog option" where
  "add_col name sz type c = do {
     ASSERT (length (cat_columns c) < cat_capacity c);
     ASSERT (length type < 80 \<and> length name < 80);
     let col = \<lparr>col_id = ucast (cat_field_cnt c), col_size = ucast sz, col_index = cat_tuple_size c, col_type = type, col_name = name\<rparr>;
     Some (c\<lparr>cat_columns := cat_columns c @ [col], cat_tuple_size := cat_tuple_size c + ucast sz, cat_field_cnt := cat_field_cnt c + 1\<rparr>) }"

definition the_column :: "catalog \<Rightarrow> nat \<Rightarrow> column option" where
  "the_column c fid = (if fid < length (cat_columns c) then Some (cat_columns c ! fid) else None)"

definition get_field_size :: "catalog \<Rightarrow> nat \<Rightarrow> u64 option" where
  "get_field_size c fid = map_option (\<lambda>col. ucast (col_size col)) (the_column c fid)"

definition get_field_index :: "catalog \<Rightarrow> nat \<Rightarrow> u64 option" where
  "get_field_index c fid = map_option (\<lambda>col. ucast (col_index col)) (the_column c fid)"

definition get_field_type :: "catalog \<Rightarrow> nat \<Rightarrow> string option" where
  "get_field_type c fid = map_option col_type (the_column c fid)"

definition get_field_name :: "catalog \<Rightarrow> nat \<Rightarrow> string option" where
  "get_field_name c fid = map_option col_name (the_column c fid)"

fun field_loop :: "string \<Rightarrow> column list \<Rightarrow> nat \<Rightarrow> nat" where
  "field_loop name [] i = i"
| "field_loop name (col # cols) i = (if name = col_name col then i else field_loop name cols (i + 1))"

definition get_field_id :: "catalog \<Rightarrow> string \<Rightarrow> nat option" where
  "get_field_id c name = do {
     let i = field_loop name (cat_columns c) 0;
     ASSERT (i < unat (cat_field_cnt c));
     Some i }"

section \<open>Rows\<close>

record row =
  row_id :: u64
  row_part_id :: u64
  row_schema :: catalog
  row_data :: row_bytes

text \<open>\<open>fresh\<close> is the memory the allocator returns.\<close>

definition row_init :: "catalog \<Rightarrow> u64 \<Rightarrow> u64 \<Rightarrow> row_bytes \<Rightarrow> row" where
  "row_init c part_id rid fresh =
     \<lparr>row_id = rid, row_part_id = part_id, row_schema = c, row_data = take (unat (cat_tuple_size c)) fresh\<rparr>"

text \<open>The conversion of a \<^verbatim>\<open>uint64_t\<close> to \<^verbatim>\<open>int\<close> takes the low 32 bits as a signed number.\<close>

definition to_int :: "u64 \<Rightarrow> int" where
  "to_int x = sint (ucast x :: u32)"

text \<open>\<^verbatim>\<open>memcpy(&data[pos], ptr, n)\<close> with \<^verbatim>\<open>int\<close> position and size, where \<open>bs\<close> is the memory at \<^verbatim>\<open>ptr\<close>. A negative position lies
  before the row, a negative size becomes a huge \<^verbatim>\<open>size_t\<close>.\<close>

definition memcpy_at :: "int \<Rightarrow> row_bytes \<Rightarrow> int \<Rightarrow> row_bytes \<Rightarrow> row_bytes option" where
  "memcpy_at pos bs n data =
     (if 0 \<le> pos \<and> 0 \<le> n \<and> nat n \<le> length bs \<and> nat pos + nat n \<le> length data
      then Some (take (nat pos) data @ take (nat n) bs @ drop (nat pos + nat n) data) else None)"

definition set_value :: "nat \<Rightarrow> row_bytes \<Rightarrow> row \<Rightarrow> row option" where
  "set_value fid ptr r = do {
     datasize \<leftarrow> map_option to_int (get_field_size (row_schema r) fid);
     pos \<leftarrow> map_option to_int (get_field_index (row_schema r) fid);
     data \<leftarrow> memcpy_at pos ptr datasize (row_data r);
     Some (r\<lparr>row_data := data\<rparr>) }"

definition set_value_sized :: "nat \<Rightarrow> row_bytes \<Rightarrow> int \<Rightarrow> row \<Rightarrow> row option" where
  "set_value_sized fid ptr sz r = do {
     pos \<leftarrow> map_option to_int (get_field_index (row_schema r) fid);
     data \<leftarrow> memcpy_at pos ptr sz (row_data r);
     Some (r\<lparr>row_data := data\<rparr>) }"

definition set_value_by_name :: "string \<Rightarrow> row_bytes \<Rightarrow> row \<Rightarrow> row option" where
  "set_value_by_name name ptr r = do { fid \<leftarrow> get_field_id (row_schema r) name; set_value fid ptr r }"

text \<open>The instances of \<^verbatim>\<open>SET_VALUE\<close> and \<^verbatim>\<open>GET_VALUE\<close> for the types of eight and of four bytes.\<close>

definition set_value_u64 :: "nat \<Rightarrow> u64 \<Rightarrow> row \<Rightarrow> row option" where
  "set_value_u64 fid v = set_value fid (put_u64 v)"

definition set_value_u32 :: "nat \<Rightarrow> u32 \<Rightarrow> row \<Rightarrow> row option" where
  "set_value_u32 fid v = set_value fid (put_u32 v)"

text \<open>The pointer that \<^verbatim>\<open>get_value\<close> returns is the memory from there to the end of the row. The variant by name keeps the
  position as a \<^verbatim>\<open>uint64_t\<close>.\<close>

definition get_value :: "nat \<Rightarrow> row \<Rightarrow> row_bytes option" where
  "get_value fid r = do {
     pos \<leftarrow> map_option to_int (get_field_index (row_schema r) fid);
     ASSERT (0 \<le> pos);
     Some (drop (nat pos) (row_data r)) }"

definition get_value_by_name :: "string \<Rightarrow> row \<Rightarrow> row_bytes option" where
  "get_value_by_name name r = do {
     fid \<leftarrow> get_field_id (row_schema r) name;
     pos \<leftarrow> get_field_index (row_schema r) fid;
     Some (drop (unat pos) (row_data r)) }"

definition get_value_u64 :: "nat \<Rightarrow> row \<Rightarrow> u64 option" where
  "get_value_u64 fid r = do { p \<leftarrow> get_value fid r; (v, _) \<leftarrow> get_u64 p; Some v }"

definition get_value_u32 :: "nat \<Rightarrow> row \<Rightarrow> u32 option" where
  "get_value_u32 fid r = do { p \<leftarrow> get_value fid r; (v, _) \<leftarrow> get_u32 p; Some v }"

definition set_data :: "row_bytes \<Rightarrow> row \<Rightarrow> row option" where
  "set_data bs r = do {
     data \<leftarrow> memcpy_at 0 bs (sint (cat_tuple_size (row_schema r))) (row_data r);
     Some (r\<lparr>row_data := data\<rparr>) }"

definition row_copy :: "row \<Rightarrow> row \<Rightarrow> row option" where
  "row_copy src r = do { ASSERT (row_schema src = row_schema r); set_data (row_data src) r }"

section \<open>Well-formed catalogs and rows\<close>

text \<open>The columns tile the tuple.\<close>

definition total :: "column list \<Rightarrow> nat" where
  "total cols = sum_list (map (\<lambda>col. unat (col_size col)) cols)"

definition cat_ok :: "catalog \<Rightarrow> bool" where
  "cat_ok c \<longleftrightarrow> total (cat_columns c) < 2 ^ 31 \<and> unat (cat_tuple_size c) = total (cat_columns c) \<and>
     length (cat_columns c) < 2 ^ 32 \<and> unat (cat_field_cnt c) = length (cat_columns c) \<and>
     (\<forall>i < length (cat_columns c). unat (col_id (cat_columns c ! i)) = i \<and>
        unat (col_index (cat_columns c ! i)) = total (take i (cat_columns c)))"

definition row_ok :: "row \<Rightarrow> bool" where
  "row_ok r \<longleftrightarrow> cat_ok (row_schema r) \<and> length (row_data r) = unat (cat_tuple_size (row_schema r))"

text \<open>What the schema file says about the columns of a table, and the catalog made of it.\<close>

type_synonym col_spec = "string \<times> u64 \<times> string"

fun add_cols :: "col_spec list \<Rightarrow> catalog \<Rightarrow> catalog option" where
  "add_cols [] c = Some c"
| "add_cols ((name, sz, type) # specs) c = add_col name sz type c \<bind> add_cols specs"

lemma total_simps [simp]: "total [] = 0" "total (col # cols) = unat (col_size col) + total cols" "total (a @ b) = total a + total b"
  by (simp_all add: total_def)

lemma unat_ucast_64_32: "unat (x :: u64) < 2 ^ 32 \<Longrightarrow> unat (ucast x :: u32) = unat x"
  by (simp add: unsigned_ucast_eq take_bit_nat_eq_self)

lemma add_col_ok:
  assumes ok: "cat_ok c" and add: "add_col name sz type c = Some c'" and room: "total (cat_columns c) + unat sz < 2 ^ 31" "length (cat_columns c) + 1 < 2 ^ 32"
  shows "cat_ok c'" "total (cat_columns c') = total (cat_columns c) + unat sz" "length (cat_columns c') = length (cat_columns c) + 1"
proof -
  let ?col = "\<lparr>col_id = ucast (cat_field_cnt c), col_size = ucast sz, col_index = cat_tuple_size c, col_type = type, col_name = name\<rparr>"
  have c': "c' = c\<lparr>cat_columns := cat_columns c @ [?col], cat_tuple_size := cat_tuple_size c + ucast sz, cat_field_cnt := cat_field_cnt c + 1\<rparr>"
    using add by (auto simp: add_col_def Let_def)
  have sz: "unat (ucast sz :: u32) = unat sz" using room(1) by (intro unat_ucast_64_32) simp
  then show t: "total (cat_columns c') = total (cat_columns c) + unat sz" and "length (cat_columns c') = length (cat_columns c) + 1"
    by (simp_all add: c')
  have fid: "unat (ucast (cat_field_cnt c) :: u64) = length (cat_columns c)"
    using ok by (simp add: cat_ok_def unsigned_ucast_eq take_bit_nat_eq_self)
  have "unat (cat_tuple_size c + ucast sz) = total (cat_columns c) + unat sz" "unat (cat_field_cnt c + 1) = length (cat_columns c) + 1"
    using ok room sz by (simp_all add: cat_ok_def unat_word_ariths)
  moreover have "unat (col_id (cat_columns c' ! i)) = i \<and> unat (col_index (cat_columns c' ! i)) = total (take i (cat_columns c'))"
    if "i < length (cat_columns c')" for i
    using that ok fid by (cases "i = length (cat_columns c)") (auto simp: c' cat_ok_def nth_append)
  ultimately show "cat_ok c'" using room t by (simp add: cat_ok_def c')
qed

lemma cat_ok_init: "cat_ok (catalog_init name table_id n)"
  by (simp add: cat_ok_def catalog_init_def)

lemma add_cols_ok:
  "add_cols specs c = Some c' \<Longrightarrow> cat_ok c \<Longrightarrow> total (cat_columns c) + sum_list (map (\<lambda>(_, sz, _). unat sz) specs) < 2 ^ 31 \<Longrightarrow>
   length (cat_columns c) + length specs < 2 ^ 32 \<Longrightarrow>
   cat_ok c' \<and> cat_columns c' = cat_columns c @ drop (length (cat_columns c)) (cat_columns c') \<and>
   map (\<lambda>col. (col_name col, unat (col_size col), col_type col)) (drop (length (cat_columns c)) (cat_columns c')) =
     map (\<lambda>(name, sz, type). (name, unat sz, type)) specs"
proof (induction specs arbitrary: c)
  case (Cons s specs)
  obtain name sz type where s: "s = (name, sz, type)" by (cases s)
  from Cons.prems(1) obtain c1 where c1: "add_col name sz type c = Some c1" "add_cols specs c1 = Some c'" by (auto simp: s split: bind_splits)
  have room: "total (cat_columns c) + unat sz < 2 ^ 31" "length (cat_columns c) + 1 < 2 ^ 32" using Cons.prems(3,4) by (simp_all add: s)
  note a = add_col_ok [OF Cons.prems(2) c1(1) room]
  have col: "cat_columns c1 = cat_columns c @ [\<lparr>col_id = ucast (cat_field_cnt c), col_size = ucast sz, col_index = cat_tuple_size c, col_type = type, col_name = name\<rparr>]"
    using c1(1) by (auto simp: add_col_def Let_def)
  have sz: "unat (ucast sz :: u32) = unat sz" using room(1) by (intro unat_ucast_64_32) simp
  from Cons.IH [OF c1(2) a(1)] Cons.prems(3,4) a(2,3) have IH: "cat_ok c'" "cat_columns c' = cat_columns c1 @ drop (length (cat_columns c1)) (cat_columns c')"
    "map (\<lambda>col. (col_name col, unat (col_size col), col_type col)) (drop (length (cat_columns c1)) (cat_columns c')) =
     map (\<lambda>(name, sz, type). (name, unat sz, type)) specs" by (simp_all add: s)
  define rest where "rest = drop (length (cat_columns c1)) (cat_columns c')"
  have c': "cat_columns c' = cat_columns c1 @ rest" using IH(2) by (simp add: rest_def)
  show ?case using IH(1,3) sz unfolding rest_def [symmetric] by (simp add: c' col s)
qed simp

section \<open>Rows as records of columns\<close>

definition width :: "catalog \<Rightarrow> nat \<Rightarrow> nat" where
  "width c j = unat (col_size (cat_columns c ! j))"

definition field_bytes :: "nat \<Rightarrow> row \<Rightarrow> row_bytes" where
  "field_bytes j r = take (width (row_schema r) j) (drop (total (take j (cat_columns (row_schema r)))) (row_data r))"

lemma total_split:
  assumes "j < length cols"
  shows "total cols = total (take j cols) + unat (col_size (cols ! j)) + total (drop (Suc j) cols)"
proof -
  have "total cols = total (take j cols @ cols ! j # drop (Suc j) cols)" by (rule arg_cong [OF id_take_nth_drop [OF assms]])
  then show ?thesis by (simp only: total_simps add.assoc)
qed

lemma total_take_le: "i < j \<Longrightarrow> j < length cols \<Longrightarrow> total (take i cols) + unat (col_size (cols ! i)) \<le> total (take j cols)"
  using total_split [of i "take j cols"] by (simp add: min_absorb1)

lemma sint_small:
  assumes "unat (x :: u32) < 2 ^ 31"
  shows "sint x = int (unat x)"
proof -
  have u: "uint x < 2 ^ 31" using assms by (metis of_nat_less_iff of_nat_numeral of_nat_power uint_nat)
  have "sint x = signed_take_bit 31 (uint x)" by (simp add: sint_uint)
  also have "\<dots> = uint x" using u by (intro signed_take_bit_int_eq_self) (auto intro: order.trans [of _ 0])
  finally show ?thesis by simp
qed

lemma ucast_up_down: "(ucast (ucast (x :: u32) :: u64) :: u32) = x"
  by (rule bit_word_eqI) (simp add: bit_ucast_iff)

lemma to_int_ucast: "unat (x :: u32) < 2 ^ 31 \<Longrightarrow> to_int (ucast x) = int (unat x)"
  by (simp only: to_int_def ucast_up_down sint_small)

lemma row_column:
  assumes "row_ok r" "j < length (cat_columns (row_schema r))"
  shows "map_option to_int (get_field_index (row_schema r) j) = Some (int (total (take j (cat_columns (row_schema r)))))"
    "map_option to_int (get_field_size (row_schema r) j) = Some (int (width (row_schema r) j))"
    "total (take j (cat_columns (row_schema r))) + width (row_schema r) j \<le> length (row_data r)"
proof -
  let ?col = "cat_columns (row_schema r) ! j"
  have "unat (col_index ?col) < 2 ^ 31" "unat (col_size ?col) < 2 ^ 31" "unat (col_index ?col) = total (take j (cat_columns (row_schema r)))"
    using assms total_split [of j "cat_columns (row_schema r)"] by (auto simp: row_ok_def cat_ok_def)
  then show "map_option to_int (get_field_index (row_schema r) j) = Some (int (total (take j (cat_columns (row_schema r)))))"
    "map_option to_int (get_field_size (row_schema r) j) = Some (int (width (row_schema r) j))"
    using assms(2) by (simp_all add: get_field_index_def get_field_size_def the_column_def width_def to_int_ucast)
  show "total (take j (cat_columns (row_schema r))) + width (row_schema r) j \<le> length (row_data r)"
    using assms total_split [of j "cat_columns (row_schema r)"] by (auto simp: row_ok_def cat_ok_def width_def)
qed

lemma get_value_field:
  assumes "row_ok r" "j < length (cat_columns (row_schema r))"
  shows "get_value j r = Some (field_bytes j r @ drop (total (take j (cat_columns (row_schema r))) + width (row_schema r) j) (row_data r))"
proof -
  let ?p = "total (take j (cat_columns (row_schema r)))"
  have "drop ?p (row_data r) = field_bytes j r @ drop (?p + width (row_schema r) j) (row_data r)"
    using append_take_drop_id [of "width (row_schema r) j" "drop ?p (row_data r)"] by (simp add: field_bytes_def add.commute)
  then show ?thesis by (simp add: get_value_def row_column(1) [OF assms])
qed

lemma nth_update:
  assumes "length bs = n" "pos + n \<le> length data" "k < pos \<or> pos + n \<le> k"
  shows "(take pos data @ bs @ drop (pos + n) data) ! k = data ! k"
  using assms by (auto simp: nth_append)

lemma take_drop_same:
  assumes "length xs = length ys" "\<And>k. q \<le> k \<Longrightarrow> k < q + m \<Longrightarrow> k < length ys \<Longrightarrow> xs ! k = ys ! k"
  shows "take m (drop q xs) = take m (drop q ys)"
  by (rule nth_equalityI) (use assms in auto)

lemma take_drop_update:
  assumes "length bs = n" "pos + n \<le> length data"
  shows "take n (drop pos (take pos data @ bs @ drop (pos + n) data)) = bs"
    and "q + m \<le> pos \<or> pos + n \<le> q \<Longrightarrow> take m (drop q (take pos data @ bs @ drop (pos + n) data)) = take m (drop q data)"
proof -
  show "take n (drop pos (take pos data @ bs @ drop (pos + n) data)) = bs" using assms by simp
  assume out: "q + m \<le> pos \<or> pos + n \<le> q"
  show "take m (drop q (take pos data @ bs @ drop (pos + n) data)) = take m (drop q data)"
  proof (rule take_drop_same)
    show "(take pos data @ bs @ drop (pos + n) data) ! k = data ! k" if "q \<le> k" "k < q + m" for k
      using out that by (intro nth_update [OF assms]) auto
  qed (use assms in simp)
qed

lemma set_value_field:
  assumes ok: "row_ok r" and f: "fid < length (cat_columns (row_schema r))" "length bs = width (row_schema r) fid"
  shows "\<exists>r'. set_value fid bs r = Some r' \<and> row_schema r' = row_schema r \<and> row_ok r' \<and>
    (\<forall>j < length (cat_columns (row_schema r)). field_bytes j r' = (if j = fid then bs else field_bytes j r))"
proof -
  let ?c = "row_schema r"
  let ?pos = "total (take fid (cat_columns ?c))" and ?n = "width ?c fid"
  define data where "data = take ?pos (row_data r) @ bs @ drop (?pos + ?n) (row_data r)"
  note col = row_column [OF ok f(1)]
  have eq: "set_value fid bs r = Some (r\<lparr>row_data := data\<rparr>)" using col(3) f(2) by (simp add: set_value_def memcpy_at_def data_def col(1,2))
  have len: "length data = length (row_data r)" using col(3) f(2) by (simp add: data_def)
  have "field_bytes j (r\<lparr>row_data := data\<rparr>) = (if j = fid then bs else field_bytes j r)" if j: "j < length (cat_columns ?c)" for j
  proof (cases "j = fid")
    case True
    then show ?thesis using take_drop_update(1) [OF f(2) col(3)] by (simp add: field_bytes_def data_def)
  next
    case False
    then have "total (take j (cat_columns ?c)) + width ?c j \<le> ?pos \<or> ?pos + ?n \<le> total (take j (cat_columns ?c))"
      using total_take_le [of j fid "cat_columns ?c"] total_take_le [of fid j "cat_columns ?c"] j f(1) by (cases "j < fid") (auto simp: width_def)
    from take_drop_update(2) [OF f(2) col(3) this] show ?thesis using False by (simp add: field_bytes_def data_def)
  qed
  then show ?thesis using eq len ok by (auto simp: row_ok_def)
qed

fun set_values :: "(nat \<times> row_bytes) list \<Rightarrow> row \<Rightarrow> row option" where
  "set_values [] r = Some r"
| "set_values ((fid, bs) # ops) r = set_value fid bs r \<bind> set_values ops"

definition assign :: "(nat \<times> row_bytes) list \<Rightarrow> (nat \<Rightarrow> row_bytes) \<Rightarrow> nat \<Rightarrow> row_bytes" where
  "assign ops m = fold (\<lambda>(fid, bs) m. m(fid := bs)) ops m"

lemma assign_simps [simp]: "assign [] m = m" "assign ((fid, bs) # ops) m = assign ops (m(fid := bs))"
  by (simp_all add: assign_def)

lemma assign_cong: "f j = g j \<Longrightarrow> assign ops f j = assign ops g j"
proof (induction ops arbitrary: f g)
  case (Cons op ops)
  obtain fid bs where op: "op = (fid, bs)" by (cases op)
  show ?case unfolding op assign_simps by (rule Cons.IH) (use Cons.prems in simp)
qed simp

lemma set_values_fields:
  "row_ok r \<Longrightarrow> \<forall>(fid, bs) \<in> set ops. fid < length (cat_columns (row_schema r)) \<and> length bs = width (row_schema r) fid \<Longrightarrow>
   \<exists>r'. set_values ops r = Some r' \<and> row_ok r' \<and> row_schema r' = row_schema r \<and>
     (\<forall>j < length (cat_columns (row_schema r)). field_bytes j r' = assign ops (\<lambda>j. field_bytes j r) j)"
proof (induction ops arbitrary: r)
  case (Cons op ops)
  obtain fid bs where op: "op = (fid, bs)" by (cases op)
  have "fid < length (cat_columns (row_schema r))" "length bs = width (row_schema r) fid" using Cons.prems(2) by (simp_all add: op)
  from set_value_field [OF Cons.prems(1) this] obtain r1 where
    r1: "set_value fid bs r = Some r1" "row_schema r1 = row_schema r" "row_ok r1"
      "\<forall>j < length (cat_columns (row_schema r)). field_bytes j r1 = (if j = fid then bs else field_bytes j r)" by blast
  have "\<forall>(fid, bs) \<in> set ops. fid < length (cat_columns (row_schema r1)) \<and> length bs = width (row_schema r1) fid"
    using Cons.prems(2) unfolding r1(2) by simp
  from Cons.IH [OF r1(3) this] obtain r2 where r2: "set_values ops r1 = Some r2" "row_ok r2" "row_schema r2 = row_schema r"
    "\<forall>j < length (cat_columns (row_schema r)). field_bytes j r2 = assign ops (\<lambda>j. field_bytes j r1) j"
    unfolding r1(2) by blast
  have "assign ops (\<lambda>j. field_bytes j r1) j = assign (op # ops) (\<lambda>j. field_bytes j r) j" if "j < length (cat_columns (row_schema r))" for j
    unfolding op assign_simps by (rule assign_cong) (use r1(4) that in simp)
  with r2 show ?case by (intro exI [of _ r2]) (simp add: op r1(1))
qed simp

text \<open>C35: Rows are well typed: with a catalog built by add_col whose tuple has less than 2^31 bytes, the range of the int positions and sizes, a row is as long as its tuple and its columns tile it; any sequence of assignments with values of the width of their columns succeeds, keeps the row well formed, and leaves in every column the value assigned to it last.\<close>

theorem rows_well_typed:
  assumes "add_cols specs (catalog_init name table_id n) = Some c" "sum_list (map (\<lambda>(_, sz, _). unat sz) specs) < 2 ^ 31" "length specs < 2 ^ 32"
    "unat (cat_tuple_size c) \<le> length fresh" "\<forall>(fid, bs) \<in> set ops. fid < length specs \<and> length bs = unat (fst (snd (specs ! fid)))"
  shows "\<exists>r. set_values ops (row_init c part rid fresh) = Some r \<and> row_ok r \<and>
    (\<forall>j < length specs. length (field_bytes j r) = unat (fst (snd (specs ! j))) \<and>
       field_bytes j r = assign ops (\<lambda>j. field_bytes j (row_init c part rid fresh)) j)"
proof -
  have init: "cat_columns (catalog_init name table_id n) = []" by (simp add: catalog_init_def)
  have room: "total (cat_columns (catalog_init name table_id n)) + sum_list (map (\<lambda>(_, sz, _). unat sz) specs) < 2 ^ 31"
    "length (cat_columns (catalog_init name table_id n)) + length specs < 2 ^ 32" using assms(2,3) unfolding init by simp_all
  have cols: "cat_ok c" "map (\<lambda>col. (col_name col, unat (col_size col), col_type col)) (cat_columns c) = map (\<lambda>(name, sz, type). (name, unat sz, type)) specs"
    using add_cols_ok [OF assms(1) cat_ok_init room] unfolding init by simp_all
  have len: "length (cat_columns c) = length specs" using arg_cong [OF cols(2), of length] by simp
  have w: "width c j = unat (fst (snd (specs ! j)))" if "j < length specs" for j
  proof -
    have "(map (\<lambda>col. (col_name col, unat (col_size col), col_type col)) (cat_columns c)) ! j = map (\<lambda>(name, sz, type). (name, unat sz, type)) specs ! j"
      by (rule arg_cong [OF cols(2)])
    then show ?thesis using that len by (simp add: width_def split_beta)
  qed
  have ok: "row_ok (row_init c part rid fresh)" using cols(1) assms(4) by (simp add: row_ok_def row_init_def)
  have sch: "row_schema (row_init c part rid fresh) = c" by (simp add: row_init_def)
  have "\<forall>(fid, bs) \<in> set ops. fid < length (cat_columns c) \<and> length bs = width c fid" using assms(5) w unfolding len by fastforce
  from set_values_fields [OF ok, unfolded sch, OF this] obtain r where r: "set_values ops (row_init c part rid fresh) = Some r" "row_ok r" "row_schema r = c"
    "\<forall>j < length specs. field_bytes j r = assign ops (\<lambda>j. field_bytes j (row_init c part rid fresh)) j"
    unfolding len by blast
  have "length (field_bytes j r) = unat (fst (snd (specs ! j)))" if "j < length specs" for j
    using row_column(3) [OF r(2), of j] that w r(3) len by (simp add: field_bytes_def)
  with r show ?thesis by blast
qed

lemma value_u64_round_trip:
  assumes "row_ok r" "fid < length (cat_columns (row_schema r))" "width (row_schema r) fid = 8"
  shows "\<exists>r'. set_value_u64 fid v r = Some r' \<and> row_ok r' \<and> get_value_u64 fid r' = Some v"
proof -
  have len: "length (put_u64 v) = width (row_schema r) fid" using assms(3) by (simp add: put_u64_def)
  obtain r' where r': "set_value fid (put_u64 v) r = Some r'" "row_schema r' = row_schema r" "row_ok r'" "field_bytes fid r' = put_u64 v"
    using set_value_field [OF assms(1,2) len] assms(2) by auto
  then have "get_value fid r' = Some (put_u64 v @ drop (total (take fid (cat_columns (row_schema r))) + 8) (row_data r'))"
    using get_value_field [OF r'(3), of fid] assms(2,3) by simp
  then show ?thesis using r'(1,3) by (simp add: set_value_u64_def get_value_u64_def)
qed

lemma row_copy_data:
  assumes "row_ok src" "row_ok r" "row_schema src = row_schema r"
  shows "row_copy src r = Some (r\<lparr>row_data := row_data src\<rparr>)"
  using assms sint_small [of "cat_tuple_size (row_schema r)"]
  by (simp add: row_copy_def set_data_def memcpy_at_def row_ok_def cat_ok_def)

definition demo_specs :: "col_spec list" where
  "demo_specs = [(''KEY'', 8, ''int64_t''), (''CNT'', 4, ''int32_t''), (''VAL'', 8, ''int64_t'')]"

definition demo_catalog :: catalog where
  "demo_catalog = the (add_cols demo_specs (catalog_init ''DEMO'' 0 3))"

theorem rows_well_typed_witness:
  "\<exists>r. set_values [(0, put_u64 7), (2, put_u64 9), (0, put_u64 8)] (row_init demo_catalog 0 0 (replicate 20 0)) = Some r \<and>
     field_bytes 0 r = put_u64 8 \<and> field_bytes 1 r = [0, 0, 0, 0] \<and> field_bytes 2 r = put_u64 9"
proof -
  let ?ops = "[(0, put_u64 7), (2, put_u64 9), (0, put_u64 8)]"
  have c: "add_cols demo_specs (catalog_init ''DEMO'' 0 3) = Some demo_catalog" "cat_tuple_size demo_catalog = 20" by code_simp+
  have f: "field_bytes 1 (row_init demo_catalog 0 0 (replicate 20 0)) = [0, 0, 0, 0]" by code_simp
  have "\<forall>(fid, bs) \<in> set ?ops. fid < length demo_specs \<and> length bs = unat (fst (snd (demo_specs ! fid)))"
    by (simp add: demo_specs_def put_u64_def)
  then obtain r where "set_values ?ops (row_init demo_catalog 0 0 (replicate 20 0)) = Some r"
    "\<forall>j < length demo_specs. field_bytes j r = assign ?ops (\<lambda>j. field_bytes j (row_init demo_catalog 0 0 (replicate 20 0))) j"
    using rows_well_typed [OF c(1), of "replicate 20 0" ?ops 0 0] c(2) by (auto simp: demo_specs_def)
  then show ?thesis using f by (simp add: demo_specs_def)
qed

end
