(* ===== verification/Rollback.thy ===== *)
theory Rollback
  imports Storage
begin

text \<open>
  How a transaction accesses rows under two-phase locking and gives them back (\<^verbatim>\<open>system/txn.cpp\<close>: \<^verbatim>\<open>get_row\<close>,
  \<^verbatim>\<open>get_row_post_wait\<close>, \<^verbatim>\<open>insert_row\<close>, \<^verbatim>\<open>cleanup_row\<close>, \<^verbatim>\<open>cleanup\<close>; \<^verbatim>\<open>storage/row.cpp\<close>: \<^verbatim>\<open>return_row\<close>), in the
  configuration \<^verbatim>\<open>ROLL_BACK\<close>, \<^verbatim>\<open>ISOLATION_LEVEL SERIALIZABLE\<close>, \<^verbatim>\<open>CC_ALG\<close> \<^verbatim>\<open>NO_WAIT\<close> or \<^verbatim>\<open>WAIT_DIE\<close>, without
  \<^verbatim>\<open>LOGGING\<close>. Rows live in a store, so that an access refers to a row by its address and a write through an
  access changes the row of the store; the copy kept for an abort is a value. \<open>tr_released\<close> lists the calls of
  \<^verbatim>\<open>lock_release\<close> and \<open>tr_freed\<close> counts the copies given back to the pool. The calls of the framework object in
  \<^verbatim>\<open>get_row\<close>, which only records keys, and the statistics are left out.
\<close>

section \<open>Accesses\<close>

type_synonym row_store = "nat \<Rightarrow> row"

record row_access =
  ac_type :: access_t
  ac_orig_row :: nat
  ac_data :: "nat option"
  ac_orig_data :: "row option"

record txn_rows =
  tr_accesses :: "row_access list"
  tr_row_cnt :: u64
  tr_write_cnt :: u64
  tr_last_row :: "nat option"
  tr_last_type :: access_t
  tr_insert_rows :: "nat list"
  tr_released :: "nat list"
  tr_freed :: nat

definition txn_rows_init :: txn_rows where
  "txn_rows_init = \<lparr>tr_accesses = [], tr_row_cnt = 0, tr_write_cnt = 0, tr_last_row = None, tr_last_type = RD, tr_insert_rows = [],
     tr_released = [], tr_freed = 0\<rparr>"

definition MAX_ROW_PER_TXN :: nat where
  "MAX_ROW_PER_TXN = 64"

text \<open>The copy of a row that a write keeps: \<^verbatim>\<open>init\<close> with memory of any contents, then \<^verbatim>\<open>copy\<close>.\<close>

definition save_row :: "row \<Rightarrow> row option" where
  "save_row r = row_copy r (row_init (row_schema r) (row_part_id r) 0 (replicate (unat (cat_tuple_size (row_schema r))) 0))"

definition add_access :: "nat \<Rightarrow> access_t \<Rightarrow> row_store \<Rightarrow> txn_rows \<Rightarrow> txn_rows option" where
  "add_access row type rows tr = do {
     orig \<leftarrow> (if type = WR then map_option Some (save_row (rows row)) else Some None);
     let a = \<lparr>ac_type = type, ac_orig_row = row, ac_data = Some row, ac_orig_data = orig\<rparr>;
     ASSERT (length (tr_accesses tr) < MAX_ROW_PER_TXN);
     Some (tr\<lparr>tr_row_cnt := tr_row_cnt tr + 1, tr_write_cnt := (if type = WR then tr_write_cnt tr + 1 else tr_write_cnt tr),
       tr_accesses := tr_accesses tr @ [a]\<rparr>) }"

text \<open>\<open>rc\<close> is what \<^verbatim>\<open>lock_get\<close> of the row returns.\<close>

definition tm_get_row :: "RC \<Rightarrow> nat \<Rightarrow> access_t \<Rightarrow> row_store \<Rightarrow> txn_rows \<Rightarrow> (RC \<times> txn_rows) option" where
  "tm_get_row rc row type rows tr = do {
     let tr = tr\<lparr>tr_last_row := Some row, tr_last_type := type\<rparr>;
     if rc = Abort \<or> rc = WAIT then Some (rc, tr)
     else do { tr \<leftarrow> add_access row type rows tr; Some (rc, tr) } }"

definition tm_get_row_post_wait :: "row_store \<Rightarrow> txn_rows \<Rightarrow> (RC \<times> txn_rows) option" where
  "tm_get_row_post_wait rows tr = do {
     row \<leftarrow> tr_last_row tr;
     tr \<leftarrow> add_access row (tr_last_type tr) rows tr;
     Some (RCOK, tr) }"

definition insert_row :: "nat \<Rightarrow> txn_rows \<Rightarrow> txn_rows option" where
  "insert_row row tr = do {
     ASSERT (length (tr_insert_rows tr) < MAX_ROW_PER_TXN);
     Some (tr\<lparr>tr_insert_rows := tr_insert_rows tr @ [row]\<rparr>) }"

section \<open>Returning rows\<close>

text \<open>The argument \<^verbatim>\<open>row\<close> of \<^verbatim>\<open>return_row\<close> is the row itself or the private copy.\<close>

datatype row_arg = StoreRow "nat option" | CopyRow "row option"

definition return_row :: "access_t \<Rightarrow> nat \<Rightarrow> row_arg \<Rightarrow> row_store \<Rightarrow> row_store option" where
  "return_row type this arg rows = do {
     ASSERT (case arg of StoreRow p \<Rightarrow> p = None \<or> p = Some this \<or> type = XP | CopyRow _ \<Rightarrow> type = XP);
     if type = XP
     then do {
       src \<leftarrow> (case arg of StoreRow p \<Rightarrow> map_option rows p | CopyRow c \<Rightarrow> c);
       r \<leftarrow> row_copy src (rows this);
       Some (rows(this := r)) }
     else Some rows }"

definition cleanup_row :: "RC \<Rightarrow> nat \<Rightarrow> row_store \<times> txn_rows \<Rightarrow> (row_store \<times> txn_rows) option" where
  "cleanup_row rc rid s =
     (let (rows, tr) = s; a = tr_accesses tr ! rid; type = (if ac_type a = WR \<and> rc = Abort then XP else ac_type a)
      in do {
        rows \<leftarrow> return_row type (ac_orig_row a) (if type = XP then CopyRow (ac_orig_data a) else StoreRow (ac_data a)) rows;
        Some (rows, tr\<lparr>tr_released := tr_released tr @ [ac_orig_row a], tr_freed := tr_freed tr + (if type = WR then 1 else 0),
          tr_accesses := (tr_accesses tr)[rid := a\<lparr>ac_data := None\<rparr>]\<rparr>) })"

fun cleanup_rows :: "RC \<Rightarrow> nat \<Rightarrow> row_store \<times> txn_rows \<Rightarrow> (row_store \<times> txn_rows) option" where
  "cleanup_rows rc 0 s = Some s"
| "cleanup_rows rc (Suc rid) s = cleanup_row rc rid s \<bind> cleanup_rows rc rid"

definition cleanup :: "RC \<Rightarrow> row_store \<Rightarrow> txn_rows \<Rightarrow> (row_store \<times> txn_rows) option" where
  "cleanup rc rows tr = do {
     ASSERT (of_nat (length (tr_accesses tr)) = tr_row_cnt tr);
     (rows, tr) \<leftarrow> cleanup_rows rc (length (tr_accesses tr)) (rows, tr);
     Some (rows, if rc = Abort then tr\<lparr>tr_insert_rows := []\<rparr> else tr) }"

section \<open>A transaction among others\<close>

text \<open>
  The transaction asks for rows, waits, and writes rows it has asked for with \<open>WR\<close>; others write rows it has
  not asked for with \<open>WR\<close>, which is what the exclusive locks of \<open>Lock_System\<close> allow. \<open>rb_shadow\<close> is what the
  rows would be without the transaction.
\<close>

record rollback =
  rb_rows :: row_store
  rb_tr :: txn_rows
  rb_shadow :: row_store

definition writes :: "txn_rows \<Rightarrow> nat \<Rightarrow> bool" where
  "writes tr row \<longleftrightarrow> (\<exists>a \<in> set (tr_accesses tr). ac_type a = WR \<and> ac_orig_row a = row)"

definition set_bytes :: "nat \<Rightarrow> row_bytes \<Rightarrow> row_store \<Rightarrow> row_store" where
  "set_bytes row bs rows = rows(row := (rows row)\<lparr>row_data := bs\<rparr>)"

inductive rb_step :: "rollback \<Rightarrow> rollback \<Rightarrow> bool" where
  get: "type \<noteq> XP \<Longrightarrow> tm_get_row rc row type (rb_rows s) (rb_tr s) = Some (rc', tr) \<Longrightarrow> rb_step s (s\<lparr>rb_tr := tr\<rparr>)"
| resume: "tr_last_type (rb_tr s) \<noteq> XP \<Longrightarrow> tm_get_row_post_wait (rb_rows s) (rb_tr s) = Some (rc', tr) \<Longrightarrow> rb_step s (s\<lparr>rb_tr := tr\<rparr>)"
| insert: "insert_row row (rb_tr s) = Some tr \<Longrightarrow> rb_step s (s\<lparr>rb_tr := tr\<rparr>)"
| put: "writes (rb_tr s) row \<Longrightarrow> length bs = length (row_data (rb_rows s row)) \<Longrightarrow> rb_step s (s\<lparr>rb_rows := set_bytes row bs (rb_rows s)\<rparr>)"
| other: "\<not> writes (rb_tr s) row \<Longrightarrow> length bs = length (row_data (rb_rows s row)) \<Longrightarrow>
    rb_step s (s\<lparr>rb_rows := set_bytes row bs (rb_rows s), rb_shadow := set_bytes row bs (rb_shadow s)\<rparr>)"

inductive rb_reach :: "row_store \<Rightarrow> rollback \<Rightarrow> bool" for rows0 where
  init: "rb_reach rows0 \<lparr>rb_rows = rows0, rb_tr = txn_rows_init, rb_shadow = rows0\<rparr>"
| step: "rb_reach rows0 s \<Longrightarrow> rb_step s s' \<Longrightarrow> rb_reach rows0 s'"

section \<open>The invariant\<close>

text \<open>Undoing the accesses, the last one first.\<close>

fun undo :: "row_access list \<Rightarrow> (nat \<Rightarrow> row_bytes) \<Rightarrow> nat \<Rightarrow> row_bytes" where
  "undo [] m = m"
| "undo (a # as) m = (if ac_type a = WR then (undo as m)(ac_orig_row a := row_data (the (ac_orig_data a))) else undo as m)"

lemma undo_append: "undo (as @ bs) m = undo as (undo bs m)"
  by (induction as) auto

definition same_shape :: "row_store \<Rightarrow> row_store \<Rightarrow> bool" where
  "same_shape rows sh \<longleftrightarrow> (\<forall>p. row_ok (rows p) \<and> row_schema (sh p) = row_schema (rows p))"

definition acc_ok :: "row_store \<Rightarrow> row_access \<Rightarrow> bool" where
  "acc_ok rows a \<longleftrightarrow> ac_type a \<noteq> XP \<and> ac_data a = Some (ac_orig_row a) \<and>
     (ac_type a = WR \<longrightarrow> (\<exists>d. ac_orig_data a = Some d \<and> row_ok d \<and> row_schema d = row_schema (rows (ac_orig_row a))))"

definition bytes :: "row_store \<Rightarrow> nat \<Rightarrow> row_bytes" where
  "bytes rows p = row_data (rows p)"

definition rb_inv :: "rollback \<Rightarrow> bool" where
  "rb_inv s \<longleftrightarrow> same_shape (rb_rows s) (rb_shadow s) \<and> (\<forall>a \<in> set (tr_accesses (rb_tr s)). acc_ok (rb_rows s) a) \<and>
     tr_row_cnt (rb_tr s) = of_nat (length (tr_accesses (rb_tr s))) \<and>
     undo (tr_accesses (rb_tr s)) (bytes (rb_rows s)) = bytes (rb_shadow s) \<and> tr_released (rb_tr s) = []"

lemma undo_unwritten: "\<forall>a \<in> set as. \<not> (ac_type a = WR \<and> ac_orig_row a = p) \<Longrightarrow> undo as m p = m p"
  by (induction as) auto

lemma undo_written: "\<exists>a \<in> set as. ac_type a = WR \<and> ac_orig_row a = p \<Longrightarrow> undo as m p = undo as m' p"
  by (induction as) (simp, simp, blast)

lemma undo_set_written: "\<exists>a \<in> set as. ac_type a = WR \<and> ac_orig_row a = p \<Longrightarrow> undo as (m(p := x)) = undo as m"
proof
  fix q assume w: "\<exists>a \<in> set as. ac_type a = WR \<and> ac_orig_row a = p"
  show "undo as (m(p := x)) q = undo as m q"
  proof (cases "\<exists>a \<in> set as. ac_type a = WR \<and> ac_orig_row a = q")
    case True
    then show ?thesis by (rule undo_written)
  next
    case False
    then have "q \<noteq> p" "undo as (m(p := x)) q = (m(p := x)) q" "undo as m q = m q" using w undo_unwritten [of as q] by blast+
    then show ?thesis by simp
  qed
qed

lemma undo_set_unwritten: "\<not> (\<exists>a \<in> set as. ac_type a = WR \<and> ac_orig_row a = p) \<Longrightarrow> undo as (m(p := x)) = (undo as m)(p := x)"
  by (induction as) (auto simp: fun_upd_twist)

lemma save_row_data:
  assumes "row_ok r"
  shows "\<exists>d. save_row r = Some d \<and> row_ok d \<and> row_schema d = row_schema r \<and> row_data d = row_data r"
proof -
  let ?n = "row_init (row_schema r) (row_part_id r) 0 (replicate (unat (cat_tuple_size (row_schema r))) 0)"
  have "row_ok ?n" "row_schema ?n = row_schema r" using assms by (simp_all add: row_ok_def row_init_def)
  then show ?thesis using row_copy_data [OF assms, of ?n] assms by (auto simp: save_row_def row_ok_def)
qed

lemma add_access_inv:
  assumes shape: "same_shape rows sh" and ok: "\<forall>a \<in> set (tr_accesses tr). acc_ok rows a" and cnt: "tr_row_cnt tr = of_nat (length (tr_accesses tr))"
    and u: "undo (tr_accesses tr) (bytes rows) = bytes sh" and type: "type \<noteq> XP" and add: "add_access row type rows tr = Some tr'"
  shows "(\<forall>a \<in> set (tr_accesses tr'). acc_ok rows a) \<and> tr_row_cnt tr' = of_nat (length (tr_accesses tr')) \<and>
    undo (tr_accesses tr') (bytes rows) = bytes sh \<and> tr_released tr' = tr_released tr"
proof -
  obtain d where d: "save_row (rows row) = Some d" "row_ok d" "row_schema d = row_schema (rows row)" "row_data d = row_data (rows row)"
    using save_row_data [of "rows row"] shape by (auto simp: same_shape_def)
  define a where "a = \<lparr>ac_type = type, ac_orig_row = row, ac_data = Some row, ac_orig_data = (if type = WR then Some d else None)\<rparr>"
  have tr': "tr_accesses tr' = tr_accesses tr @ [a]" "tr_row_cnt tr' = tr_row_cnt tr + 1" "tr_released tr' = tr_released tr"
    using add d(1) by (auto simp: add_access_def Let_def a_def split: if_splits)
  have "undo [a] (bytes rows) = bytes rows" using d(4) by (auto simp: a_def bytes_def)
  moreover have "acc_ok rows a" using d type by (simp add: acc_ok_def a_def)
  ultimately show ?thesis using ok cnt u by (simp add: tr' undo_append)
qed

lemma rb_step_inv:
  assumes "rb_step s s'" "rb_inv s"
  shows "rb_inv s'"
  using assms
proof (induction rule: rb_step.induct)
  case (get type rc row s rc' tr)
  then show ?case
    using add_access_inv [of "rb_rows s" "rb_shadow s" "(rb_tr s)\<lparr>tr_last_row := Some row, tr_last_type := type\<rparr>" type row]
    by (auto simp: rb_inv_def tm_get_row_def Let_def split: if_splits bind_splits)
next
  case (resume s rc' tr)
  then show ?case using add_access_inv [of "rb_rows s" "rb_shadow s" "rb_tr s" "tr_last_type (rb_tr s)"]
    by (auto simp: rb_inv_def tm_get_row_post_wait_def split: bind_splits)
next
  case (insert row s tr)
  then show ?case by (auto simp: rb_inv_def insert_row_def)
next
  case (put s row bs)
  have "bytes (set_bytes row bs (rb_rows s)) = (bytes (rb_rows s))(row := bs)" by (auto simp: bytes_def set_bytes_def)
  with put undo_set_written [of "tr_accesses (rb_tr s)" row "bytes (rb_rows s)" bs] show ?case
    by (auto simp: rb_inv_def writes_def same_shape_def acc_ok_def set_bytes_def row_ok_def)
next
  case (other s row bs)
  have "bytes (set_bytes row bs rows) = (bytes rows)(row := bs)" for rows by (auto simp: bytes_def set_bytes_def)
  with other undo_set_unwritten [of "tr_accesses (rb_tr s)" row "bytes (rb_rows s)" bs] show ?case
    by (auto simp: rb_inv_def writes_def same_shape_def acc_ok_def set_bytes_def row_ok_def)
qed

lemma rb_reach_inv: "rb_reach rows0 s \<Longrightarrow> \<forall>p. row_ok (rows0 p) \<Longrightarrow> rb_inv s"
proof (induction rule: rb_reach.induct)
  case init
  then show ?case by (simp add: rb_inv_def same_shape_def txn_rows_init_def)
qed (blast intro: rb_step_inv)

lemma cleanup_rows_abort:
  assumes "n \<le> length (tr_accesses tr)" "\<forall>p. row_ok (rows p)" "\<forall>a \<in> set (take n (tr_accesses tr)). acc_ok rows a"
  shows "\<exists>rows' tr'. cleanup_rows Abort n (rows, tr) = Some (rows', tr') \<and> bytes rows' = undo (take n (tr_accesses tr)) (bytes rows) \<and>
    (\<forall>p. row_schema (rows' p) = row_schema (rows p)) \<and> tr_released tr' = tr_released tr @ rev (map ac_orig_row (take n (tr_accesses tr)))"
  using assms
proof (induction n arbitrary: rows tr)
  case (Suc n)
  define a where "a = tr_accesses tr ! n"
  have n: "n < length (tr_accesses tr)" and tk: "take (Suc n) (tr_accesses tr) = take n (tr_accesses tr) @ [a]"
    using Suc.prems(1) by (simp_all add: take_Suc_conv_app_nth a_def)
  have a: "acc_ok rows a" using Suc.prems(3) by (simp add: tk)
  define rows1 where "rows1 = (if ac_type a = WR then rows(ac_orig_row a := (rows (ac_orig_row a))\<lparr>row_data := row_data (the (ac_orig_data a))\<rparr>) else rows)"
  define tr1 where "tr1 = tr\<lparr>tr_released := tr_released tr @ [ac_orig_row a], tr_freed := tr_freed tr, tr_accesses := (tr_accesses tr)[n := a\<lparr>ac_data := None\<rparr>]\<rparr>"
  have step: "cleanup_row Abort n (rows, tr) = Some (rows1, tr1)"
  proof (cases "ac_type a = WR")
    case True
    then obtain d where d: "ac_orig_data a = Some d" "row_ok d" "row_schema d = row_schema (rows (ac_orig_row a))" using a by (auto simp: acc_ok_def)
    then have "row_copy d (rows (ac_orig_row a)) = Some ((rows (ac_orig_row a))\<lparr>row_data := row_data d\<rparr>)" using Suc.prems(2) by (intro row_copy_data) auto
    then show ?thesis using True d(1) by (simp add: cleanup_row_def a_def [symmetric] return_row_def rows1_def tr1_def)
  next
    case False
    then show ?thesis using a by (simp add: cleanup_row_def a_def [symmetric] return_row_def rows1_def tr1_def acc_ok_def)
  qed
  have r1: "bytes rows1 = undo [a] (bytes rows)" "\<forall>p. row_schema (rows1 p) = row_schema (rows p)" by (auto simp: rows1_def bytes_def)
  have ok1: "\<forall>p. row_ok (rows1 p)" using Suc.prems(2) a by (auto simp: rows1_def acc_ok_def row_ok_def)
  have tk1: "take n (tr_accesses tr1) = take n (tr_accesses tr)" by (simp add: tr1_def)
  have "n \<le> length (tr_accesses tr1)" "\<forall>b \<in> set (take n (tr_accesses tr1)). acc_ok rows1 b"
    using n Suc.prems(3) r1(2) unfolding tk1 by (auto simp: tr1_def acc_ok_def tk)
  from Suc.IH [OF this(1) ok1 this(2)] obtain rows' tr' where
    "cleanup_rows Abort n (rows1, tr1) = Some (rows', tr')" "bytes rows' = undo (take n (tr_accesses tr)) (bytes rows1)"
    "\<forall>p. row_schema (rows' p) = row_schema (rows p)" "tr_released tr' = tr_released tr1 @ rev (map ac_orig_row (take n (tr_accesses tr)))"
    unfolding tk1 using r1(2) by auto
  then show ?case using step r1(1) by (simp add: tk undo_append tr1_def)
qed simp

lemma cleanup_rows_commit:
  assumes "n \<le> length (tr_accesses tr)" "\<forall>a \<in> set (take n (tr_accesses tr)). acc_ok rows a"
  shows "\<exists>tr'. cleanup_rows RCOK n (rows, tr) = Some (rows, tr') \<and> tr_released tr' = tr_released tr @ rev (map ac_orig_row (take n (tr_accesses tr)))"
  using assms
proof (induction n arbitrary: tr)
  case (Suc n)
  define a where "a = tr_accesses tr ! n"
  have n: "n < length (tr_accesses tr)" and tk: "take (Suc n) (tr_accesses tr) = take n (tr_accesses tr) @ [a]"
    using Suc.prems(1) by (simp_all add: take_Suc_conv_app_nth a_def)
  have a: "acc_ok rows a" using Suc.prems(2) by (simp add: tk)
  define tr1 where "tr1 = tr\<lparr>tr_released := tr_released tr @ [ac_orig_row a], tr_freed := tr_freed tr + (if ac_type a = WR then 1 else 0),
    tr_accesses := (tr_accesses tr)[n := a\<lparr>ac_data := None\<rparr>]\<rparr>"
  have step: "cleanup_row RCOK n (rows, tr) = Some (rows, tr1)"
    using a by (simp add: cleanup_row_def a_def [symmetric] return_row_def tr1_def acc_ok_def)
  have tk1: "take n (tr_accesses tr1) = take n (tr_accesses tr)" by (simp add: tr1_def)
  have "n \<le> length (tr_accesses tr1)" "\<forall>b \<in> set (take n (tr_accesses tr1)). acc_ok rows b"
    using n Suc.prems(2) unfolding tk1 by (auto simp: tr1_def tk)
  from Suc.IH [OF this] obtain tr' where "cleanup_rows RCOK n (rows, tr1) = Some (rows, tr')"
    "tr_released tr' = tr_released tr1 @ rev (map ac_orig_row (take n (tr_accesses tr)))" unfolding tk1 by blast
  then show ?case using step by (simp add: tk tr1_def)
qed simp

text \<open>C34: An aborted transaction leaves no trace: under locking, whatever rows a transaction has read and written, in whatever order and how often, and whatever other transactions wrote to rows it did not write, cleanup after an abort gives every row the contents it would have without the transaction, and after a commit keeps what was written; both release the lock of every access once, the last access first, and neither fails an assertion.\<close>

theorem cleanup_undoes_or_keeps:
  assumes "rb_reach rows0 s" "\<forall>p. row_ok (rows0 p)"
  shows "(\<exists>rows tr. cleanup Abort (rb_rows s) (rb_tr s) = Some (rows, tr) \<and> (\<forall>p. row_data (rows p) = row_data (rb_shadow s p)) \<and>
      tr_released tr = rev (map ac_orig_row (tr_accesses (rb_tr s))) \<and> tr_insert_rows tr = []) \<and>
    (\<exists>tr. cleanup RCOK (rb_rows s) (rb_tr s) = Some (rb_rows s, tr) \<and> tr_released tr = rev (map ac_orig_row (tr_accesses (rb_tr s))))"
proof -
  have inv: "same_shape (rb_rows s) (rb_shadow s)" "\<forall>a \<in> set (tr_accesses (rb_tr s)). acc_ok (rb_rows s) a"
    "tr_row_cnt (rb_tr s) = of_nat (length (tr_accesses (rb_tr s)))" "undo (tr_accesses (rb_tr s)) (bytes (rb_rows s)) = bytes (rb_shadow s)"
    "tr_released (rb_tr s) = []"
    using rb_reach_inv [OF assms] by (simp_all add: rb_inv_def)
  have ok: "\<forall>p. row_ok (rb_rows s p)" using inv(1) by (simp add: same_shape_def)
  obtain rows tr where a: "cleanup_rows Abort (length (tr_accesses (rb_tr s))) (rb_rows s, rb_tr s) = Some (rows, tr)"
    "bytes rows = bytes (rb_shadow s)" "tr_released tr = rev (map ac_orig_row (tr_accesses (rb_tr s)))"
    using cleanup_rows_abort [OF order.refl ok, of "rb_tr s"] inv(2,4,5) by auto
  obtain tr2 where c: "cleanup_rows RCOK (length (tr_accesses (rb_tr s))) (rb_rows s, rb_tr s) = Some (rb_rows s, tr2)"
    "tr_released tr2 = rev (map ac_orig_row (tr_accesses (rb_tr s)))"
    using cleanup_rows_commit [OF order.refl, of "rb_tr s"] inv(2,5) by auto
  have data: "\<forall>p. row_data (rows p) = row_data (rb_shadow s p)" using a(2) unfolding bytes_def by (rule allI [OF fun_cong])
  have "cleanup Abort (rb_rows s) (rb_tr s) = Some (rows, tr\<lparr>tr_insert_rows := []\<rparr>)" "cleanup RCOK (rb_rows s) (rb_tr s) = Some (rb_rows s, tr2)"
    using a(1) c(1) inv(3) by (simp_all add: cleanup_def)
  with data a(3) c(2) show ?thesis by simp
qed

definition demo_rows :: row_store where
  "demo_rows p = row_init demo_catalog 0 (of_nat p) (replicate 20 0)"

lemma demo_rows_ok: "row_ok (demo_rows p)"
proof -
  have "add_cols demo_specs (catalog_init ''DEMO'' 0 3) = Some demo_catalog" "cat_tuple_size demo_catalog = 20" by code_simp+
  moreover from this(1) have "cat_ok demo_catalog"
    by (rule add_cols_ok [THEN conjunct1, OF _ cat_ok_init]) (simp_all add: catalog_init_def demo_specs_def)
  ultimately show ?thesis by (simp add: row_ok_def demo_rows_def row_init_def)
qed

theorem cleanup_undoes_or_keeps_witness:
  "\<exists>s rows tr. rb_reach demo_rows s \<and> row_data (rb_rows s 1) = replicate 20 5 \<and> cleanup Abort (rb_rows s) (rb_tr s) = Some (rows, tr) \<and>
     row_data (rows 1) = replicate 20 0 \<and> row_data (rows 2) = replicate 20 9 \<and> tr_released tr = [1]"
proof -
  obtain d where d: "save_row (demo_rows 1) = Some d" using save_row_data [OF demo_rows_ok] by blast
  define tr where "tr = txn_rows_init\<lparr>tr_last_row := Some 1, tr_last_type := WR, tr_row_cnt := 1, tr_write_cnt := 1,
    tr_accesses := [\<lparr>ac_type = WR, ac_orig_row = 1, ac_data = Some 1, ac_orig_data = Some d\<rparr>]\<rparr>"
  have len: "length (row_data (demo_rows p)) = 20" "row_data (demo_rows p) = replicate 20 0" for p
  proof -
    have "cat_tuple_size demo_catalog = 20" by code_simp
    then show "length (row_data (demo_rows p)) = 20" "row_data (demo_rows p) = replicate 20 0" by (simp_all add: demo_rows_def row_init_def)
  qed
  have get: "tm_get_row RCOK 1 WR demo_rows txn_rows_init = Some (RCOK, tr)"
    using d by (simp add: tm_get_row_def add_access_def MAX_ROW_PER_TXN_def tr_def txn_rows_init_def)
  have w: "writes tr 1" "\<not> writes tr 2" by (simp_all add: writes_def tr_def)
  let ?rows1 = "set_bytes 1 (replicate 20 5) demo_rows"
  let ?s = "\<lparr>rb_rows = set_bytes 2 (replicate 20 9) ?rows1, rb_tr = tr, rb_shadow = set_bytes 2 (replicate 20 9) demo_rows\<rparr>"
  have "rb_reach demo_rows \<lparr>rb_rows = demo_rows, rb_tr = tr, rb_shadow = demo_rows\<rparr>"
    using rb_reach.step [OF rb_reach.init rb_step.get, of WR RCOK 1 demo_rows RCOK tr] get by simp
  from rb_reach.step [OF this rb_step.put, of 1 "replicate 20 5"]
  have "rb_reach demo_rows \<lparr>rb_rows = ?rows1, rb_tr = tr, rb_shadow = demo_rows\<rparr>" using w len by simp
  from rb_reach.step [OF this rb_step.other, of 2 "replicate 20 9"] have s: "rb_reach demo_rows ?s" using w len by (simp add: set_bytes_def)
  from cleanup_undoes_or_keeps [OF this] demo_rows_ok obtain rows tr' where
    "cleanup Abort (rb_rows ?s) (rb_tr ?s) = Some (rows, tr')" "\<forall>p. row_data (rows p) = row_data (rb_shadow ?s p)" "tr_released tr' = [1]"
    by (auto simp: tr_def)
  then show ?thesis using s len by (intro exI [of _ ?s] exI [of _ rows] exI [of _ tr']) (simp add: set_bytes_def)
qed

end
