(* ===== verification/Framework_Locks.thy ===== *)
theory Framework_Locks
  imports Bucket_Table
begin

text \<open>
  The replication framework that accompanies the transactions of the database, in its configured form with
  locks: \<^verbatim>\<open>framework/framework.cpp\<close> (\<^verbatim>\<open>FrameworkPessimisticDeneva\<close>), \<^verbatim>\<open>framework/concurrency_controller_locks.cpp\<close>,
  \<^verbatim>\<open>framework/utils/concurrencyLocks.cpp\<close>, \<^verbatim>\<open>framework/utils/transaction.cpp\<close>. A content is an object of a heap,
  because the code shares and deletes contents; a use or a deletion of an object that is not there is \<open>None\<close>,
  as is a failed assertion, an exception that nothing catches and a wait that never returns. Transactions are objects named by their
  address; what a constructor does not initialise keeps the value of the memory. \<^verbatim>\<open>owners_size\<close> is 1, so
  that the table of owners is one list. An operation is one step. The exchange of transactions with other
  nodes and the statistics are left out.

  Without waiting the framework is a key-value store with exclusive and shared locks in which a commit
  makes all writes of a transaction permanent and an abort none.
\<close>

section \<open>Contents, transactions and locks\<close>

type_synonym cptr = nat

record content =
  ct_key :: u64
  ct_value :: nat

record transactionF =
  tf_id :: u64
  tf_writeset :: "cptr list"
  tf_readset :: "cptr list"
  tf_timestampStartup :: u64
  tf_timestampCommit :: u64
  tf_nodeId :: u64
  tf_locksDetained :: "u64 list"
  tf_validated :: bool
  tf_finished :: bool
  tf_lockReady :: u32
  tf_lock_ready_cnt :: u32
  tf_rsp_mutex :: nat

type_synonym txnf_store = "txn_ptr \<Rightarrow> transactionF"

record cc_entry =
  ce_type :: lock_t
  ce_txn :: txn_ptr

record cc_lock =
  cl_content :: cptr
  cl_previousContent :: "cptr option"
  cl_lockType :: lock_t
  cl_owner_cnt :: u32
  cl_waiter_cnt :: u32
  cl_owners :: "cc_entry list"
  cl_waiters :: "cc_entry list"
  cl_max_owner_ts :: u64

definition cc_lock_new :: "cptr \<Rightarrow> cc_lock" where
  "cc_lock_new c = \<lparr>cl_content = c, cl_previousContent = None, cl_lockType = LOCK_NONE, cl_owner_cnt = 0, cl_waiter_cnt = 0,
     cl_owners = [], cl_waiters = [], cl_max_owner_ts = 0\<rparr>"

definition cc_conflict_lock :: "lock_t \<Rightarrow> lock_t \<Rightarrow> bool" where
  "cc_conflict_lock l1 l2 =
     (if l1 = LOCK_NONE \<or> l2 = LOCK_NONE then False else if l1 = LOCK_EX \<or> l2 = LOCK_EX then True else False)"

fun getOperationLock :: "access_t \<Rightarrow> lock_t" where
  "getOperationLock RD = LOCK_SH"
| "getOperationLock WR = LOCK_EX"
| "getOperationLock _ = LOCK_NONE"

text \<open>The counter \<^verbatim>\<open>lock_ready_cnt\<close> is protected by the semaphore \<^verbatim>\<open>rsp_mutex\<close>, which nothing
  initialises: its count is what the memory holds. \<^verbatim>\<open>sem_wait\<close> on the count 0 does not return, otherwise
  \<^verbatim>\<open>sem_post\<close> restores the count at the end of the call.\<close>

definition tf_incr_lr :: "transactionF \<Rightarrow> transactionF option" where
  "tf_incr_lr t = do { ASSERT (tf_rsp_mutex t > 0); Some (t\<lparr>tf_lock_ready_cnt := tf_lock_ready_cnt t + 1\<rparr>) }"

definition tf_decr_lr :: "transactionF \<Rightarrow> transactionF option" where
  "tf_decr_lr t = do { ASSERT (tf_rsp_mutex t > 0); Some (t\<lparr>tf_lock_ready_cnt := tf_lock_ready_cnt t - 1\<rparr>) }"

text \<open>\<^verbatim>\<open>ATOM_CAS\<close> on \<^verbatim>\<open>lockReady\<close>.\<close>

definition cas_lockReady :: "u32 \<Rightarrow> u32 \<Rightarrow> transactionF \<Rightarrow> transactionF" where
  "cas_lockReady old new t = (if tf_lockReady t = old then t\<lparr>tf_lockReady := new\<rparr> else t)"

fun cc_insert_waiter :: "(txn_ptr \<Rightarrow> u64) \<Rightarrow> cc_entry \<Rightarrow> cc_entry list \<Rightarrow> cc_entry list" where
  "cc_insert_waiter ts e [] = [e]"
| "cc_insert_waiter ts e (en # ws) = (if ts (ce_txn e) < ts (ce_txn en) then en # cc_insert_waiter ts e ws else e # en # ws)"

definition lock_conflict :: "cc_alg \<Rightarrow> txn_ptr \<Rightarrow> lock_t \<Rightarrow> txnf_store \<Rightarrow> cc_lock \<Rightarrow> bool" where
  "lock_conflict cc t type ts l =
     (let conflict = cc_conflict_lock (cl_lockType l) type;
          conflict = (if cc = WAIT_DIE \<and> \<not> conflict
            then (case cl_waiters l of [] \<Rightarrow> False | w # _ \<Rightarrow> tf_timestampStartup (ts t) < tf_timestampStartup (ts (ce_txn w)))
            else conflict)
      in if cc = CALVIN \<and> \<not> conflict then cl_waiters l \<noteq> [] else conflict)"

definition getControl :: "cc_alg \<Rightarrow> txn_ptr \<Rightarrow> access_t \<Rightarrow> txnf_store \<Rightarrow> cc_lock \<Rightarrow> (bool \<times> txnf_store \<times> cc_lock) option" where
  "getControl cc t operation ts l =
     (let type = getOperationLock operation; entry = \<lparr>ce_type = type, ce_txn = t\<rparr>; tstamp = (\<lambda>u. tf_timestampStartup (ts u))
      in if lock_conflict cc t type ts l
         then if cc = NO_WAIT then Some (False, ts, l)
              else if cc = WAIT_DIE
              then let canwait = list_all (\<lambda>en. \<not> tstamp t > tstamp (ce_txn en)) (cl_owners l)
                   in if canwait
                      then do {
                        t' \<leftarrow> tf_incr_lr (cas_lockReady 1 0 (ts t));
                        Some (False, ts(t := t'),
                          l\<lparr>cl_waiters := cc_insert_waiter tstamp entry (cl_waiters l), cl_waiter_cnt := cl_waiter_cnt l + 1\<rparr>) }
                      else Some (False, ts, l)
              else if cc = CALVIN
              then do {
                t' \<leftarrow> tf_incr_lr (cas_lockReady 1 0 (ts t));
                Some (False, ts(t := t'), l\<lparr>cl_waiters := cl_waiters l @ [entry], cl_waiter_cnt := cl_waiter_cnt l + 1\<rparr>) }
              else Some (False, ts, l)
         else do {
           ASSERT (cl_owner_cnt l > 0 \<longrightarrow> type = LOCK_SH);
           Some (True, ts, l\<lparr>cl_owners := (if cc = NO_WAIT then cl_owners l else entry # cl_owners l),
             cl_max_owner_ts := max (cl_max_owner_ts l) (tstamp t), cl_owner_cnt := cl_owner_cnt l + 1, cl_lockType := type\<rparr>) })"

text \<open>The loop of \<^verbatim>\<open>releaseControl\<close> that turns waiters into owners.\<close>

fun cc_promote :: "cc_alg \<Rightarrow> cc_entry list \<Rightarrow> txnf_store \<Rightarrow> cc_lock \<Rightarrow> (txnf_store \<times> cc_lock) option" where
  "cc_promote cc [] ts l = Some (ts, l\<lparr>cl_waiters := []\<rparr>)"
| "cc_promote cc (entry # ws) ts l =
     (if cc_conflict_lock (cl_lockType l) (ce_type entry) then Some (ts, l\<lparr>cl_waiters := entry # ws\<rparr>)
      else do {
        ASSERT (tf_lockReady (ts (ce_txn entry)) = 0);
        t \<leftarrow> tf_decr_lr (ts (ce_txn entry));
        let t = (if tf_lock_ready_cnt t = 0 then cas_lockReady 0 1 t else t);
        cc_promote cc ws (ts(ce_txn entry := t))
          (l\<lparr>cl_owners := (if cc = NO_WAIT then cl_owners l else entry # cl_owners l), cl_owner_cnt := cl_owner_cnt l + 1,
             cl_waiter_cnt := cl_waiter_cnt l - 1,
             cl_max_owner_ts := max (cl_max_owner_ts l) (tf_timestampStartup (ts (ce_txn entry))), cl_lockType := ce_type entry\<rparr>) })"

definition drop_owner :: "cc_alg \<Rightarrow> txn_ptr \<Rightarrow> cc_lock \<Rightarrow> cc_lock option" where
  "drop_owner cc t l =
     (let none_left = (\<lambda>l. if cl_owner_cnt l = 0 then l\<lparr>cl_lockType := LOCK_NONE\<rparr> else l)
      in if cc = NO_WAIT
         then Some (none_left (if cl_owner_cnt l > 0 then l\<lparr>cl_owner_cnt := cl_owner_cnt l - 1\<rparr> else l))
         else if list_ex (\<lambda>en. ce_txn en = t) (cl_owners l)
         then Some (none_left (l\<lparr>cl_owners := remove_first (\<lambda>en. ce_txn en = t) (cl_owners l), cl_owner_cnt := cl_owner_cnt l - 1\<rparr>))
         else None)"

definition releaseControl :: "cc_alg \<Rightarrow> txn_ptr \<Rightarrow> txnf_store \<Rightarrow> cc_lock \<Rightarrow> (txnf_store \<times> cc_lock) option" where
  "releaseControl cc t ts l = do {
     l \<leftarrow> drop_owner cc t l;
     ASSERT (cl_owner_cnt l = 0 \<longrightarrow> cl_lockType l = LOCK_NONE);
     cc_promote cc (cl_waiters l) ts l }"

section \<open>The framework\<close>

datatype isolation = SERIALIZABLE | READ_COMMITTED | READ_UNCOMMITTED | NOLOCK

record fw =
  fw_heap :: "cptr \<rightharpoonup> content"
  fw_next :: cptr
  fw_cc :: "u64 \<rightharpoonup> cc_lock"
  fw_obj :: txnf_store

text \<open>Creation and deletion of contents; a deletion of an object that does not exist is undefined.\<close>

definition new_content :: "u64 \<Rightarrow> nat \<Rightarrow> fw \<Rightarrow> cptr \<times> fw" where
  "new_content key val s = (fw_next s, s\<lparr>fw_heap := (fw_heap s)(fw_next s \<mapsto> \<lparr>ct_key = key, ct_value = val\<rparr>), fw_next := fw_next s + 1\<rparr>)"

definition delete_content :: "cptr \<Rightarrow> fw \<Rightarrow> fw option" where
  "delete_content c s = do { ASSERT (c \<in> dom (fw_heap s)); Some (s\<lparr>fw_heap := (fw_heap s)(c := None)\<rparr>) }"

definition initContent :: "u64 \<Rightarrow> nat \<Rightarrow> fw \<Rightarrow> fw" where
  "initContent key row s =
     (let (c, s) = new_content key row s
      in if key \<in> dom (fw_cc s) then s else s\<lparr>fw_cc := (fw_cc s)(key \<mapsto> cc_lock_new c)\<rparr>)"

definition add_to_readset :: "u64 \<Rightarrow> cptr \<Rightarrow> transactionF \<Rightarrow> transactionF" where
  "add_to_readset key c t = t\<lparr>tf_readset := tf_readset t @ [c], tf_locksDetained := tf_locksDetained t @ [key]\<rparr>"

definition add_to_writeset :: "u64 \<Rightarrow> cptr \<Rightarrow> transactionF \<Rightarrow> transactionF" where
  "add_to_writeset key c t = t\<lparr>tf_writeset := tf_writeset t @ [c], tf_locksDetained := tf_locksDetained t @ [key]\<rparr>"

definition set_lock :: "u64 \<Rightarrow> txnf_store \<times> cc_lock \<Rightarrow> fw \<Rightarrow> fw" where
  "set_lock key x s = s\<lparr>fw_obj := fst x, fw_cc := (fw_cc s)(key \<mapsto> snd x)\<rparr>"

definition cc_read :: "cc_alg \<Rightarrow> txn_ptr \<Rightarrow> u64 \<Rightarrow> fw \<Rightarrow> (nat option \<times> fw) option" where
  "cc_read cc t key s = do {
     l \<leftarrow> fw_cc s key;
     (ok, ts, l) \<leftarrow> getControl cc t RD (fw_obj s) l;
     if ok then do {
       c \<leftarrow> fw_heap s (cl_content l);
       Some (Some (ct_value c), set_lock key (ts(t := add_to_readset (ct_key c) (cl_content l) (ts t)), l) s) }
     else Some (None, set_lock key (ts, l) s) }"

definition cc_write :: "cc_alg \<Rightarrow> txn_ptr \<Rightarrow> u64 \<Rightarrow> cptr \<Rightarrow> fw \<Rightarrow> (bool \<times> fw) option" where
  "cc_write cc t key c1 s = do {
     l \<leftarrow> fw_cc s key;
     (ok, ts, l) \<leftarrow> getControl cc t WR (fw_obj s) l;
     if ok then do {
       c \<leftarrow> fw_heap s c1;
       Some (True, set_lock key (ts(t := add_to_writeset (ct_key c) c1 (ts t)),
         l\<lparr>cl_previousContent := Some (cl_content l), cl_content := c1\<rparr>) s) }
     else Some (False, set_lock key (ts, l) s) }"

definition release_key :: "cc_alg \<Rightarrow> txn_ptr \<Rightarrow> u64 \<Rightarrow> fw \<Rightarrow> fw option" where
  "release_key cc t key s = (case fw_cc s key of None \<Rightarrow> Some s | Some l \<Rightarrow> do { x \<leftarrow> releaseControl cc t (fw_obj s) l; Some (set_lock key x s) })"

definition cm_read :: "cc_alg \<Rightarrow> isolation \<Rightarrow> txn_ptr \<Rightarrow> u64 \<Rightarrow> fw \<Rightarrow> (nat option \<times> fw) option" where
  "cm_read cc lv t key s = do {
     (r, s) \<leftarrow> cc_read cc t key s;
     if r \<noteq> None \<and> (lv = READ_COMMITTED \<or> lv = READ_UNCOMMITTED) then do { s \<leftarrow> release_key cc t key s; Some (r, s) }
     else Some (r, s) }"

definition cm_write :: "cc_alg \<Rightarrow> isolation \<Rightarrow> txn_ptr \<Rightarrow> u64 \<Rightarrow> nat \<Rightarrow> fw \<Rightarrow> (bool \<times> fw) option" where
  "cm_write cc lv t key row s = do {
     let (c, s) = new_content key row s;
     (ok, s) \<leftarrow> cc_write cc t key c s;
     if ok \<and> lv = READ_UNCOMMITTED then do { s \<leftarrow> release_key cc t key s; Some (ok, s) }
     else Some (ok, s) }"

definition commitWrites :: "u64 \<Rightarrow> fw \<Rightarrow> fw option" where
  "commitWrites key s = do { l \<leftarrow> fw_cc s key; p \<leftarrow> cl_previousContent l; delete_content p s }"

definition abortWrites :: "u64 \<Rightarrow> fw \<Rightarrow> fw option" where
  "abortWrites key s = do {
     l \<leftarrow> fw_cc s key;
     s \<leftarrow> delete_content (cl_content l) s;
     p \<leftarrow> cl_previousContent l;
     Some (s\<lparr>fw_cc := (fw_cc s)(key \<mapsto> l\<lparr>cl_content := p\<rparr>)\<rparr>) }"

fun each_write :: "(u64 \<Rightarrow> fw \<Rightarrow> fw option) \<Rightarrow> cptr list \<Rightarrow> fw \<Rightarrow> fw option" where
  "each_write f [] s = Some s"
| "each_write f (c # cs) s = do { x \<leftarrow> fw_heap s c; s \<leftarrow> f (ct_key x) s; each_write f cs s }"

fun release_keys :: "cc_alg \<Rightarrow> txn_ptr \<Rightarrow> u64 list \<Rightarrow> fw \<Rightarrow> fw option" where
  "release_keys cc t [] s = Some s"
| "release_keys cc t (k # ks) s = do { s \<leftarrow> release_key cc t k s; release_keys cc t ks s }"

definition upd_txn :: "txn_ptr \<Rightarrow> (transactionF \<Rightarrow> transactionF) \<Rightarrow> fw \<Rightarrow> fw" where
  "upd_txn t f s = s\<lparr>fw_obj := (fw_obj s)(t := f (fw_obj s t))\<rparr>"

definition releaseLocks :: "cc_alg \<Rightarrow> txn_ptr \<Rightarrow> fw \<Rightarrow> fw option" where
  "releaseLocks cc t s = do {
     s \<leftarrow> release_keys cc t (tf_locksDetained (fw_obj s t)) s;
     Some (upd_txn t (\<lambda>x. x\<lparr>tf_locksDetained := []\<rparr>) s) }"

definition cm_commit :: "cc_alg \<Rightarrow> txn_ptr \<Rightarrow> fw \<Rightarrow> fw option" where
  "cm_commit cc t s = do { s \<leftarrow> each_write commitWrites (tf_writeset (fw_obj s t)) s; releaseLocks cc t s }"

definition cm_abort :: "cc_alg \<Rightarrow> txn_ptr \<Rightarrow> fw \<Rightarrow> fw option" where
  "cm_abort cc t s = do { s \<leftarrow> each_write abortWrites (tf_writeset (fw_obj s t)) s; releaseLocks cc t s }"

definition cm_finish :: "cc_alg \<Rightarrow> txn_ptr \<Rightarrow> fw \<Rightarrow> fw option" where
  "cm_finish cc t s = do {
     s \<leftarrow> (if length (tf_locksDetained (fw_obj s t)) > 0 then releaseLocks cc t s else Some s);
     Some (upd_txn t (\<lambda>x. x\<lparr>tf_readset := [], tf_writeset := []\<rparr>) s) }"

text \<open>The operations of \<^verbatim>\<open>FrameworkPessimisticDeneva\<close>. \<^verbatim>\<open>write\<close> creates the content of a key that has none and
  starts again; all callers pass the primary key of the row. A commit at the home node draws the commit
  timestamp \<open>now\<close>.\<close>

definition transactionF_new :: "u64 \<Rightarrow> u64 \<Rightarrow> transactionF \<Rightarrow> transactionF" where
  "transactionF_new i node mem = mem\<lparr>tf_id := i, tf_nodeId := node, tf_readset := [], tf_writeset := [], tf_locksDetained := [],
     tf_timestampCommit := 0, tf_validated := False, tf_finished := False\<rparr>"

definition beginTransaction :: "txn_ptr \<Rightarrow> u64 \<Rightarrow> u64 \<Rightarrow> u64 \<Rightarrow> transactionF \<Rightarrow> fw \<Rightarrow> fw" where
  "beginTransaction t i node now mem s = upd_txn t (\<lambda>_. (transactionF_new i node mem)\<lparr>tf_timestampStartup := now\<rparr>) s"

definition fw_read :: "cc_alg \<Rightarrow> isolation \<Rightarrow> txn_ptr \<Rightarrow> u64 \<Rightarrow> fw \<Rightarrow> (nat option \<times> fw) option" where
  "fw_read cc lv t key s = (if key \<in> dom (fw_cc s) then cm_read cc lv t key s else Some (None, s))"

definition fw_write :: "cc_alg \<Rightarrow> isolation \<Rightarrow> txn_ptr \<Rightarrow> u64 \<Rightarrow> nat \<Rightarrow> fw \<Rightarrow> (bool \<times> fw) option" where
  "fw_write cc lv t key row s = cm_write cc lv t key row (if key \<in> dom (fw_cc s) then s else initContent key row s)"

definition fw_commit :: "cc_alg \<Rightarrow> u64 \<Rightarrow> u64 \<Rightarrow> txn_ptr \<Rightarrow> fw \<Rightarrow> fw option" where
  "fw_commit cc nodeId now t s = do {
     let s = (if tf_nodeId (fw_obj s t) = nodeId then upd_txn t (\<lambda>x. x\<lparr>tf_timestampCommit := now\<rparr>) s else s);
     s \<leftarrow> cm_commit cc t s;
     Some (upd_txn t (\<lambda>x. x\<lparr>tf_finished := True\<rparr>) s) }"

definition fw_abort :: "cc_alg \<Rightarrow> txn_ptr \<Rightarrow> fw \<Rightarrow> fw option" where
  "fw_abort cc t s = do { s \<leftarrow> cm_abort cc t s; Some (upd_txn t (\<lambda>x. x\<lparr>tf_finished := True\<rparr>) s) }"

definition endTransaction :: "cc_alg \<Rightarrow> txn_ptr \<Rightarrow> fw \<Rightarrow> fw option" where
  "endTransaction cc t s = (if tf_finished (fw_obj s t) then cm_finish cc t s else Some s)"

section \<open>The store it implements\<close>

datatype phase = Unborn | Running | Done

text \<open>\<open>kv_log\<close> lists the accesses that hold a lock: transaction, key, and the value of a write.\<close>

type_synonym lock_access = "txn_ptr \<times> u64 \<times> nat option"

record kv_store =
  kv_val :: "u64 \<rightharpoonup> nat"
  kv_log :: "lock_access list"
  kv_phase :: "txn_ptr \<Rightarrow> phase"

datatype fw_op = FBegin txn_ptr u64 u64 u64 transactionF | FRead txn_ptr u64 | FWrite txn_ptr u64 nat | FCommit txn_ptr u64 | FAbort txn_ptr | FEnd txn_ptr

datatype fw_res = RRead "nat option" | RWrite bool | RDone

fun fw_exec :: "cc_alg \<Rightarrow> isolation \<Rightarrow> u64 \<Rightarrow> fw_op \<Rightarrow> fw \<Rightarrow> (fw_res \<times> fw) option" where
  "fw_exec cc lv node (FBegin t i n now mem) s = Some (RDone, beginTransaction t i n now mem s)"
| "fw_exec cc lv node (FRead t k) s = map_option (apfst RRead) (fw_read cc lv t k s)"
| "fw_exec cc lv node (FWrite t k v) s = map_option (apfst RWrite) (fw_write cc lv t k v s)"
| "fw_exec cc lv node (FCommit t now) s = map_option (Pair RDone) (fw_commit cc node now t s)"
| "fw_exec cc lv node (FAbort t) s = map_option (Pair RDone) (fw_abort cc t s)"
| "fw_exec cc lv node (FEnd t) s = map_option (Pair RDone) (endTransaction cc t s)"

definition fw_init :: "txnf_store \<Rightarrow> fw" where
  "fw_init mem = \<lparr>fw_heap = Map.empty, fw_next = 0, fw_cc = Map.empty, fw_obj = mem\<rparr>"

definition on_key :: "u64 \<Rightarrow> lock_access list \<Rightarrow> lock_access list" where
  "on_key k log = filter (\<lambda>e. fst (snd e) = k) log"

definition held_by :: "txn_ptr \<Rightarrow> lock_access list \<Rightarrow> (u64 \<times> nat option) list" where
  "held_by t log = map snd (filter (\<lambda>e. fst e = t) log)"

definition written :: "lock_access list \<Rightarrow> nat option" where
  "written accs = (case accs of [(_, _, w)] \<Rightarrow> w | _ \<Rightarrow> None)"

definition kv_init :: kv_store where
  "kv_init = \<lparr>kv_val = Map.empty, kv_log = [], kv_phase = (\<lambda>_. Unborn)\<rparr>"

fun put_writes :: "(u64 \<times> nat option) list \<Rightarrow> (u64 \<rightharpoonup> nat) \<Rightarrow> (u64 \<rightharpoonup> nat)" where
  "put_writes [] m = m"
| "put_writes ((k, None) # as) m = put_writes as m"
| "put_writes ((k, Some v) # as) m = put_writes as (m(k \<mapsto> v))"

text \<open>A key comes into being with the first write to it, whatever becomes of that write. The specification is
  undefined where an operation comes in the wrong phase of its transaction.\<close>

fun kv_exec :: "fw_op \<Rightarrow> kv_store \<Rightarrow> (fw_res \<times> kv_store) option" where
  "kv_exec (FBegin t i n now mem) A = do { ASSERT (kv_phase A t = Unborn); Some (RDone, A\<lparr>kv_phase := (kv_phase A)(t := Running)\<rparr>) }"
| "kv_exec (FRead t k) A = do {
     ASSERT (kv_phase A t = Running);
     if k \<in> dom (kv_val A) \<and> written (on_key k (kv_log A)) = None
     then Some (RRead (kv_val A k), A\<lparr>kv_log := kv_log A @ [(t, k, None)]\<rparr>)
     else Some (RRead None, A) }"
| "kv_exec (FWrite t k v) A = do {
     ASSERT (kv_phase A t = Running);
     let A = (if k \<in> dom (kv_val A) then A else A\<lparr>kv_val := (kv_val A)(k \<mapsto> v)\<rparr>);
     if on_key k (kv_log A) = [] then Some (RWrite True, A\<lparr>kv_log := kv_log A @ [(t, k, Some v)]\<rparr>)
     else Some (RWrite False, A) }"
| "kv_exec (FCommit t now) A = do {
     ASSERT (kv_phase A t = Running);
     Some (RDone, A\<lparr>kv_val := put_writes (held_by t (kv_log A)) (kv_val A), kv_log := filter (\<lambda>e. fst e \<noteq> t) (kv_log A),
       kv_phase := (kv_phase A)(t := Done)\<rparr>) }"
| "kv_exec (FAbort t) A = do {
     ASSERT (kv_phase A t = Running);
     Some (RDone, A\<lparr>kv_log := filter (\<lambda>e. fst e \<noteq> t) (kv_log A), kv_phase := (kv_phase A)(t := Done)\<rparr>) }"
| "kv_exec (FEnd t) A = do { ASSERT (kv_phase A t = Done); Some (RDone, A\<lparr>kv_phase := (kv_phase A)(t := Running)\<rparr>) }"

definition kv_current :: "kv_store \<Rightarrow> u64 \<Rightarrow> nat option" where
  "kv_current A k = (case written (on_key k (kv_log A)) of None \<Rightarrow> kv_val A k | Some w \<Rightarrow> Some w)"

definition fw_value :: "fw \<Rightarrow> u64 \<Rightarrow> nat option" where
  "fw_value s k = do { l \<leftarrow> fw_cc s k; c \<leftarrow> fw_heap s (cl_content l); Some (ct_value c) }"

section \<open>The simulation\<close>

definition lock_of :: "lock_access list \<Rightarrow> lock_t" where
  "lock_of accs = (if accs = [] then LOCK_NONE else if written accs = None then LOCK_SH else LOCK_EX)"

definition lock_part :: "lock_access list \<Rightarrow> cc_lock \<Rightarrow> bool" where
  "lock_part accs l \<longleftrightarrow> cl_waiters l = [] \<and> cl_owner_cnt l = of_nat (length accs) \<and> cl_lockType l = lock_of accs"

definition content_part :: "(cptr \<rightharpoonup> content) \<Rightarrow> u64 \<Rightarrow> nat option \<Rightarrow> nat \<Rightarrow> cc_lock \<Rightarrow> bool" where
  "content_part heap k w v l \<longleftrightarrow>
     (case w of
        None \<Rightarrow> heap (cl_content l) = Some \<lparr>ct_key = k, ct_value = v\<rparr>
      | Some w \<Rightarrow> heap (cl_content l) = Some \<lparr>ct_key = k, ct_value = w\<rparr> \<and>
          (\<exists>p. cl_previousContent l = Some p \<and> p \<noteq> cl_content l \<and> heap p = Some \<lparr>ct_key = k, ct_value = v\<rparr>))"

definition sim_lock :: "(cptr \<rightharpoonup> content) \<Rightarrow> u64 \<Rightarrow> lock_access list \<Rightarrow> nat \<Rightarrow> cc_lock \<Rightarrow> bool" where
  "sim_lock heap k accs v l \<longleftrightarrow> lock_part accs l \<and> content_part heap k (written accs) v l"

definition sim_at :: "(cptr \<rightharpoonup> content) \<Rightarrow> u64 \<Rightarrow> cc_lock option \<Rightarrow> nat option \<Rightarrow> lock_access list \<Rightarrow> bool" where
  "sim_at heap k cc v accs \<longleftrightarrow>
     (case cc of None \<Rightarrow> v = None \<and> accs = [] | Some l \<Rightarrow> \<exists>x. v = Some x \<and> sim_lock heap k accs x l)"

definition sim_key :: "fw \<Rightarrow> kv_store \<Rightarrow> u64 \<Rightarrow> bool" where
  "sim_key s A k \<longleftrightarrow> sim_at (fw_heap s) k (fw_cc s k) (kv_val A k) (on_key k (kv_log A))"

lemma sim_at_simps [simp]:
  "sim_at heap k None v accs \<longleftrightarrow> v = None \<and> accs = []"
  "sim_at heap k (Some l) (Some x) accs \<longleftrightarrow> sim_lock heap k accs x l"
  "\<not> sim_at heap k (Some l) None accs"
  by (simp_all add: sim_at_def)

definition content_of :: "fw \<Rightarrow> u64 \<Rightarrow> cptr" where
  "content_of s k = cl_content (the (fw_cc s k))"

definition write_keys :: "(u64 \<times> nat option) list \<Rightarrow> u64 list" where
  "write_keys as = map fst (filter (\<lambda>a. snd a \<noteq> None) as)"

definition sim_txn :: "fw \<Rightarrow> kv_store \<Rightarrow> txn_ptr \<Rightarrow> bool" where
  "sim_txn s A t \<longleftrightarrow> tf_locksDetained (fw_obj s t) = map fst (held_by t (kv_log A)) \<or> kv_phase A t = Unborn \<and> held_by t (kv_log A) = []"

definition sim_set :: "fw \<Rightarrow> kv_store \<Rightarrow> txn_ptr \<Rightarrow> bool" where
  "sim_set s A t \<longleftrightarrow> (kv_phase A t = Running \<longrightarrow> tf_writeset (fw_obj s t) = map (content_of s) (write_keys (held_by t (kv_log A)))) \<and>
     (kv_phase A t = Done \<longrightarrow> tf_finished (fw_obj s t)) \<and> (kv_phase A t \<noteq> Running \<longrightarrow> held_by t (kv_log A) = [])"

definition lone_writes :: "lock_access list \<Rightarrow> bool" where
  "lone_writes log \<longleftrightarrow> (\<forall>t k v. (t, k, Some v) \<in> set log \<longrightarrow> on_key k log = [(t, k, Some v)])"

definition sim :: "nat \<Rightarrow> fw \<Rightarrow> kv_store \<Rightarrow> bool" where
  "sim n s A \<longleftrightarrow> (\<forall>k. sim_key s A k) \<and> (\<forall>t. sim_txn s A t) \<and> (\<forall>t. sim_set s A t) \<and> lone_writes (kv_log A) \<and>
     (\<forall>c \<ge> fw_next s. fw_heap s c = None) \<and> length (kv_log A) + n < 2 ^ 32"

lemma on_key_simps [simp]:
  "on_key k [] = []" "on_key k (log @ log') = on_key k log @ on_key k log'" "on_key k [(t, k', x)] = (if k' = k then [(t, k', x)] else [])"
  by (simp_all add: on_key_def)

lemma held_by_simps [simp]:
  "held_by t [] = []" "held_by t (log @ log') = held_by t log @ held_by t log'" "held_by t [(t', a)] = (if t' = t then [a] else [])"
  by (simp_all add: held_by_def)

lemma written_simps [simp]: "written [] = None" "written [(t, k, x)] = x"
  by (simp_all add: written_def)

lemma written_many: "length accs \<noteq> 1 \<Longrightarrow> written accs = None"
  by (auto simp: written_def split: list.splits)

lemma written_mem:
  assumes "lone_writes log" "(t, k, Some v) \<in> set log"
  shows "written (on_key k log) = Some v"
  using assms by (auto simp: lone_writes_def)

lemma written_Some: "written (on_key k log) = Some v \<Longrightarrow> \<exists>t. on_key k log = [(t, k, Some v)] \<and> (t, k, Some v) \<in> set log"
proof -
  assume "written (on_key k log) = Some v"
  then obtain t k' where o: "on_key k log = [(t, k', Some v)]" by (auto simp: written_def split: list.splits)
  then have "(t, k', Some v) \<in> set (on_key k log)" by simp
  then have "k' = k" "(t, k', Some v) \<in> set log" by (auto simp: on_key_def)
  with o show ?thesis by blast
qed

lemma on_key_length: "length (on_key k log) \<le> length log"
  by (simp add: on_key_def)

lemma held_by_mem: "a \<in> set (held_by t log) \<longleftrightarrow> (t, a) \<in> set log"
  by (force simp: held_by_def)

lemma on_key_mem: "e \<in> set (on_key k log) \<longleftrightarrow> e \<in> set log \<and> fst (snd e) = k"
  by (simp add: on_key_def)

lemma on_key_Nil: "on_key k log = [] \<longleftrightarrow> (\<forall>t x. (t, k, x) \<notin> set log)"
  by (force simp: on_key_def filter_empty_conv)

lemma write_keys_mem: "k \<in> set (write_keys as) \<longleftrightarrow> (\<exists>v. (k, Some v) \<in> set as)"
  by (force simp: write_keys_def)

lemma write_keys_simps [simp]: "write_keys [] = []" "write_keys (as @ bs) = write_keys as @ write_keys bs"
  "write_keys [(k, x)] = (if x = None then [] else [k])"
  by (simp_all add: write_keys_def)

lemma simD:
  assumes "sim n s A"
  shows "sim_key s A k" "sim_txn s A t" "sim_set s A t" "lone_writes (kv_log A)" "c \<ge> fw_next s \<Longrightarrow> fw_heap s c = None" "length (kv_log A) + n < 2 ^ 32"
  using assms by (simp_all add: sim_def)

lemma sim_less: "sim (Suc n) s A \<Longrightarrow> sim n s A"
  by (simp add: sim_def)

lemma sim_keyE:
  assumes "sim_key s A k" "fw_cc s k = Some l"
  obtains v where "kv_val A k = Some v" "sim_lock (fw_heap s) k (on_key k (kv_log A)) v l"
  using assms by (cases "kv_val A k") (auto simp: sim_key_def)

lemma sim_dom: "sim n s A \<Longrightarrow> fw_cc s k = None \<longleftrightarrow> kv_val A k = None"
  using simD(1) [of n s A k] by (cases "fw_cc s k"; cases "kv_val A k") (auto simp: sim_key_def)

lemma set_lock_same: "fw_cc s k = Some l \<Longrightarrow> set_lock k (fw_obj s, l) s = s"
  by (simp add: set_lock_def map_upd_triv)

lemma getControl_NO_WAIT:
  "getControl NO_WAIT t op ts l =
     (if cc_conflict_lock (cl_lockType l) (getOperationLock op) then Some (False, ts, l)
      else do { ASSERT (cl_owner_cnt l > 0 \<longrightarrow> getOperationLock op = LOCK_SH);
        Some (True, ts, l\<lparr>cl_max_owner_ts := max (cl_max_owner_ts l) (tf_timestampStartup (ts t)), cl_owner_cnt := cl_owner_cnt l + 1,
          cl_lockType := getOperationLock op\<rparr>) })"
  by (simp add: getControl_def lock_conflict_def Let_def)

lemma lone_writes_read: "lone_writes log \<Longrightarrow> written (on_key k log) = None \<Longrightarrow> lone_writes (log @ [(t, k, None)])"
  by (auto simp: lone_writes_def)

lemma lone_writes_write: "lone_writes log \<Longrightarrow> on_key k log = [] \<Longrightarrow> lone_writes (log @ [(t, k, Some v)])"
  by (auto simp: lone_writes_def on_key_Nil)

lemma lone_no_write: "lone_writes log \<Longrightarrow> written (on_key k log) = None \<Longrightarrow> written (on_key k (log @ [(t, k, None)])) = None"
  using written_mem [of log _ k] by (cases "on_key k log") (auto simp: written_many)

lemma sim_read:
  assumes sim: "sim (Suc n) s A" and ex: "kv_exec (FRead t k) A = Some (r, A')"
  shows "\<exists>s'. fw_exec NO_WAIT SERIALIZABLE node (FRead t k) s = Some (r, s') \<and> sim n s' A'"
proof (cases "fw_cc s k")
  case None
  then have "kv_val A k = None" using sim_dom [OF sim] by simp
  then show ?thesis using None ex sim_less [OF sim] by (auto simp: fw_read_def domIff split: if_splits)
next
  case (Some l)
  obtain v where v: "kv_val A k = Some v" and l: "sim_lock (fw_heap s) k (on_key k (kv_log A)) v l" by (rule sim_keyE [OF simD(1) [OF sim] Some])
  note [simp] = Some v
  show ?thesis
  proof (cases "written (on_key k (kv_log A))")
    case (Some w)
    then have "cc_conflict_lock (cl_lockType l) LOCK_SH" using l by (auto simp: sim_lock_def lock_part_def content_part_def lock_of_def cc_conflict_lock_def)
    then show ?thesis using ex sim_less [OF sim] Some by (auto simp: fw_read_def cm_read_def cc_read_def getControl_NO_WAIT set_lock_same domIff)
  next
    case None
    define l' where "l' = l\<lparr>cl_max_owner_ts := max (cl_max_owner_ts l) (tf_timestampStartup (fw_obj s t)), cl_owner_cnt := cl_owner_cnt l + 1, cl_lockType := LOCK_SH\<rparr>"
    define s' where "s' = set_lock k ((fw_obj s)(t := add_to_readset k (cl_content l) (fw_obj s t)), l') s"
    have run: "Running = kv_phase A t" and A': "r = RRead (Some v)" "A' = A\<lparr>kv_log := kv_log A @ [(t, k, None)]\<rparr>"
      using ex None by (auto simp: domIff)
    have nc: "\<not> cc_conflict_lock (cl_lockType l) LOCK_SH" "fw_heap s (cl_content l) = Some \<lparr>ct_key = k, ct_value = v\<rparr>"
      using l None by (auto simp: sim_lock_def lock_part_def content_part_def lock_of_def cc_conflict_lock_def)
    have "fw_exec NO_WAIT SERIALIZABLE node (FRead t k) s = Some (r, s')"
      using nc by (simp add: fw_read_def cm_read_def cc_read_def getControl_NO_WAIT domIff A' s'_def l'_def)
    moreover have "sim n s' A'"
    proof -
      have w: "written (on_key k (kv_log A')) = None" using lone_no_write [OF simD(4) [OF sim] None] by (simp add: A')
      have "sim_lock (fw_heap s) k (on_key k (kv_log A')) v l'"
        using l None w by (simp add: sim_lock_def lock_part_def content_part_def l'_def lock_of_def A')
      moreover have "sim_key s' A' k'" if "k' \<noteq> k" for k' using simD(1) [OF sim, of k'] that by (simp add: sim_key_def s'_def set_lock_def A')
      ultimately have "sim_key s' A' k'" for k' using v by (cases "k' = k") (auto simp: sim_key_def s'_def set_lock_def A')
      moreover have "sim_txn s' A' u" for u using simD(2) [OF sim, of u] run by (auto simp: sim_txn_def s'_def set_lock_def A' add_to_readset_def)
      moreover have "content_of s' = content_of s" by (auto simp: fun_eq_iff content_of_def s'_def set_lock_def l'_def)
      then have "sim_set s' A' u" for u using simD(3) [OF sim, of u] run by (auto simp: sim_set_def s'_def set_lock_def A' add_to_readset_def)
      moreover have "lone_writes (kv_log A')" using lone_writes_read [OF simD(4) [OF sim] None] by (simp add: A')
      ultimately show ?thesis using simD(5,6) [OF sim] by (simp add: sim_def A' s'_def set_lock_def)
    qed
    ultimately show ?thesis by blast
  qed
qed

lemma content_part_heap: "content_part heap k w v l \<Longrightarrow> (\<And>c x. heap c = Some x \<Longrightarrow> heap' c = Some x) \<Longrightarrow> content_part heap' k w v l"
  by (auto simp: content_part_def split: option.splits)

lemma sim_alloc:
  assumes "sim n s A"
  shows "sim n (snd (new_content key x s)) A"
proof -
  let ?s = "snd (new_content key x s)"
  have up: "fw_heap s c = Some y \<Longrightarrow> fw_heap ?s c = Some y" for c y using simD(5) [OF assms, of c] by (auto simp: new_content_def)
  have cp: "content_part (fw_heap s) k w v l \<Longrightarrow> content_part (fw_heap ?s) k w v l" for k w v l by (rule content_part_heap [OF _ up])
  have cc: "fw_cc ?s = fw_cc s" by (simp add: new_content_def)
  have "sim_key ?s A k" for k
  proof (cases "fw_cc s k")
    case (Some l)
    then show ?thesis using cp by (auto simp: sim_key_def sim_lock_def cc elim!: sim_keyE [OF simD(1) [OF assms]])
  qed (use simD(1) [OF assms, of k] in \<open>simp add: sim_key_def cc\<close>)
  moreover have "sim_txn ?s A t" "sim_set ?s A t" for t using simD(2,3) [OF assms, of t]
    by (simp_all add: sim_txn_def sim_set_def content_of_def [abs_def] new_content_def)
  moreover have "\<forall>c \<ge> fw_next ?s. fw_heap ?s c = None" using simD(5) [OF assms] by (simp add: new_content_def)
  ultimately show ?thesis using assms by (simp add: sim_def)
qed

lemma sim_init:
  assumes sim: "sim n s A" and none: "fw_cc s k = None"
  shows "sim n (initContent k v s) (A\<lparr>kv_val := (kv_val A)(k \<mapsto> v)\<rparr>)"
proof -
  let ?s1 = "snd (new_content k v s)" and ?A = "A\<lparr>kv_val := (kv_val A)(k \<mapsto> v)\<rparr>"
  have s: "initContent k v s = ?s1\<lparr>fw_cc := (fw_cc s)(k \<mapsto> cc_lock_new (fw_next s))\<rparr>" using none by (simp add: initContent_def new_content_def domIff)
  have sim1: "sim n ?s1 A" by (rule sim_alloc [OF sim])
  have cc: "fw_cc ?s1 = fw_cc s" "fw_heap ?s1 (fw_next s) = Some \<lparr>ct_key = k, ct_value = v\<rparr>" by (simp_all add: new_content_def)
  have e: "on_key k (kv_log A) = []" using simD(1) [OF sim, of k] none by (simp add: sim_key_def)
  have "sim_key (initContent k v s) ?A k"
    using e cc(2) by (simp add: s sim_key_def sim_lock_def lock_part_def content_part_def lock_of_def cc_lock_new_def)
  moreover have "sim_key (initContent k v s) ?A k'" if "k' \<noteq> k" for k'
    using simD(1) [OF sim1, of k'] that by (simp add: s sim_key_def cc(1))
  ultimately have "sim_key (initContent k v s) ?A k'" for k' by (cases "k' = k") auto
  moreover have "sim_txn (initContent k v s) ?A t" for t using simD(2) [OF sim1, of t] by (simp add: sim_txn_def s)
  moreover have "k \<notin> set (write_keys (held_by t (kv_log A)))" for t using e by (simp add: write_keys_mem held_by_mem on_key_Nil)
  then have "map (content_of (initContent k v s)) (write_keys (held_by t (kv_log A))) = map (content_of ?s1) (write_keys (held_by t (kv_log A)))" for t
    by (auto simp: content_of_def s cc(1))
  then have "sim_set (initContent k v s) ?A t" for t using simD(3) [OF sim1, of t] by (simp add: sim_set_def s)
  ultimately show ?thesis using simD(4-6) [OF sim1] by (simp add: sim_def s)
qed

lemma sim_write_present:
  assumes sim: "sim (Suc n) s A" and l: "fw_cc s k = Some l" and run: "kv_phase A t = Running"
  shows "\<exists>s'. cm_write NO_WAIT SERIALIZABLE t k v s = Some (on_key k (kv_log A) = [], s') \<and>
    sim n s' (if on_key k (kv_log A) = [] then A\<lparr>kv_log := kv_log A @ [(t, k, Some v)]\<rparr> else A)"
proof -
  let ?c = "fw_next s"
  obtain s1 where s1: "new_content k v s = (?c, s1)" "fw_cc s1 k = Some l" "fw_heap s1 ?c = Some \<lparr>ct_key = k, ct_value = v\<rparr>" using l by (simp add: new_content_def)
  have sim1: "sim (Suc n) s1 A" using sim_alloc [OF sim, of k v] by (simp add: s1(1))
  obtain v0 where v0: "kv_val A k = Some v0" "sim_lock (fw_heap s1) k (on_key k (kv_log A)) v0 l" by (rule sim_keyE [OF simD(1) [OF sim1] s1(2)])
  show ?thesis
  proof (cases "on_key k (kv_log A) = []")
    case False
    then have "cc_conflict_lock (cl_lockType l) LOCK_EX" using v0(2) by (auto simp: sim_lock_def lock_part_def lock_of_def cc_conflict_lock_def)
    then show ?thesis using sim_less [OF sim1] False s1(2) by (simp add: cm_write_def s1(1) cc_write_def getControl_NO_WAIT set_lock_same)
  next
    case True
    have "fw_heap s ?c = None" using simD(5) [OF sim, of ?c] by simp
    moreover obtain w0 where "sim_lock (fw_heap s) k (on_key k (kv_log A)) w0 l" by (rule sim_keyE [OF simD(1) [OF sim] l])
    ultimately have ne: "cl_content l \<noteq> ?c" using True by (auto simp: sim_lock_def content_part_def)
    have lk: "cl_lockType l = LOCK_NONE" "cl_owner_cnt l = 0" "cl_waiters l = []" "fw_heap s1 (cl_content l) = Some \<lparr>ct_key = k, ct_value = v0\<rparr>"
      using v0(2) True by (simp_all add: sim_lock_def lock_part_def content_part_def lock_of_def)
    define l' where "l' = l\<lparr>cl_max_owner_ts := max (cl_max_owner_ts l) (tf_timestampStartup (fw_obj s1 t)), cl_owner_cnt := cl_owner_cnt l + 1,
      cl_lockType := LOCK_EX, cl_previousContent := Some (cl_content l), cl_content := ?c\<rparr>"
    define s' where "s' = set_lock k ((fw_obj s1)(t := add_to_writeset k ?c (fw_obj s1 t)), l') s1"
    let ?A = "A\<lparr>kv_log := kv_log A @ [(t, k, Some v)]\<rparr>"
    have ex: "cm_write NO_WAIT SERIALIZABLE t k v s = Some (True, s')"
      using lk s1(2,3) by (simp add: cm_write_def s1(1) cc_write_def getControl_NO_WAIT cc_conflict_lock_def s'_def l'_def)
    have "sim_lock (fw_heap s1) k [(t, k, Some v)] v0 l'" using lk ne s1(3) by (simp add: sim_lock_def lock_part_def content_part_def lock_of_def l'_def)
    then have "sim_key s' ?A k'" for k' using simD(1) [OF sim1, of k'] v0(1) True by (auto simp: sim_key_def s'_def set_lock_def)
    moreover have "sim_txn s' ?A u" for u using simD(2) [OF sim1, of u] run by (auto simp: sim_txn_def s'_def set_lock_def add_to_writeset_def)
    moreover have "k \<notin> set (write_keys (held_by u (kv_log A)))" for u using True by (simp add: write_keys_mem held_by_mem on_key_Nil)
    then have co: "map (content_of s') (write_keys (held_by u (kv_log A))) = map (content_of s1) (write_keys (held_by u (kv_log A)))" "content_of s' k = ?c" for u
      by (auto simp: content_of_def s'_def set_lock_def l'_def)
    have "sim_set s' ?A u" for u using simD(3) [OF sim1, of u] co run by (auto simp: sim_set_def s'_def set_lock_def add_to_writeset_def)
    moreover have "lone_writes (kv_log A @ [(t, k, Some v)])" by (rule lone_writes_write [OF simD(4) [OF sim] True])
    ultimately have "sim n s' ?A" using simD(5,6) [OF sim1] by (simp add: sim_def s'_def set_lock_def)
    with ex True show ?thesis by simp
  qed
qed

lemma sim_write:
  assumes sim: "sim (Suc n) s A" and ex: "kv_exec (FWrite t k v) A = Some (r, A')"
  shows "\<exists>s'. fw_exec NO_WAIT SERIALIZABLE node (FWrite t k v) s = Some (r, s') \<and> sim n s' A'"
proof (cases "fw_cc s k")
  case None
  have "fw_cc (initContent k v s) k = Some (cc_lock_new (fw_next s))" using None by (simp add: initContent_def new_content_def domIff)
  from sim_write_present [OF sim_init [OF sim None] this, of t v] show ?thesis
    using None ex sim_dom [OF sim, of k] by (auto simp: fw_write_def domIff split: if_splits)
next
  case (Some l)
  from sim_write_present [OF sim Some, of t v] show ?thesis using Some ex sim_dom [OF sim, of k] by (auto simp: fw_write_def domIff split: if_splits)
qed

section \<open>Commit and abort\<close>

definition prev_of :: "fw \<Rightarrow> u64 \<Rightarrow> cptr option" where
  "prev_of s k = cl_previousContent (the (fw_cc s k))"

text \<open>The state of the contents of a written key.\<close>

definition dirty :: "fw \<Rightarrow> u64 \<Rightarrow> bool" where
  "dirty s k \<longleftrightarrow> (\<exists>l p v w. fw_cc s k = Some l \<and> fw_heap s (cl_content l) = Some \<lparr>ct_key = k, ct_value = w\<rparr> \<and> cl_previousContent l = Some p \<and>
     p \<noteq> cl_content l \<and> fw_heap s p = Some \<lparr>ct_key = k, ct_value = v\<rparr>)"

lemma dirty_delete:
  assumes "dirty s k'" "fw_heap s c = Some \<lparr>ct_key = k, ct_value = v\<rparr>" "k' \<noteq> k" "fw_heap s' = (fw_heap s)(c := None)" "fw_cc s' k' = fw_cc s k'"
  shows "dirty s' k'"
proof -
  obtain l p v0 w where l: "fw_cc s k' = Some l" "fw_heap s (cl_content l) = Some \<lparr>ct_key = k', ct_value = w\<rparr>" "cl_previousContent l = Some p"
    "p \<noteq> cl_content l" "fw_heap s p = Some \<lparr>ct_key = k', ct_value = v0\<rparr>"
    using assms(1) by (auto simp: dirty_def)
  then have "c \<noteq> cl_content l" "c \<noteq> p" using assms(2,3) by auto
  then show ?thesis unfolding dirty_def using l assms(4,5) by (intro exI [of _ l] exI [of _ p] exI [of _ v0] exI [of _ w]) simp
qed

lemma each_commit:
  "distinct ks \<Longrightarrow> \<forall>k \<in> set ks. dirty s k \<Longrightarrow>
   each_write commitWrites (map (content_of s) ks) s = Some (s\<lparr>fw_heap := \<lambda>c. if \<exists>k \<in> set ks. prev_of s k = Some c then None else fw_heap s c\<rparr>)"
proof (induction ks arbitrary: s)
  case (Cons k ks)
  obtain l p v w where l: "fw_cc s k = Some l" "fw_heap s (cl_content l) = Some \<lparr>ct_key = k, ct_value = w\<rparr>" "cl_previousContent l = Some p"
    "p \<noteq> cl_content l" "fw_heap s p = Some \<lparr>ct_key = k, ct_value = v\<rparr>"
    using Cons.prems(2) by (auto simp: dirty_def)
  define s1 where "s1 = s\<lparr>fw_heap := (fw_heap s)(p := None)\<rparr>"
  have s1: "content_of s1 = content_of s" "prev_of s1 = prev_of s" by (simp_all add: fun_eq_iff content_of_def prev_of_def s1_def)
  have "commitWrites k s = Some s1" using l by (simp add: commitWrites_def delete_content_def s1_def domIff)
  moreover have "dirty s1 k'" if "k' \<in> set ks" for k'
  proof -
    have "k' \<noteq> k" "dirty s k'" using that Cons.prems by auto
    then show ?thesis using dirty_delete [OF _ l(5), of k' s1] by (simp add: s1_def)
  qed
  then have "each_write commitWrites (map (content_of s1) ks) s1 = Some (s1\<lparr>fw_heap := \<lambda>c. if \<exists>k \<in> set ks. prev_of s1 k = Some c then None else fw_heap s1 c\<rparr>)"
    using Cons.IH [of s1] Cons.prems(1) by simp
  moreover have "prev_of s k = Some p" "content_of s k = cl_content l" using l by (simp_all add: prev_of_def content_of_def)
  ultimately show ?case using l(2) unfolding s1 by (auto simp: s1_def fun_eq_iff)
qed simp

lemma each_abort:
  "distinct ks \<Longrightarrow> \<forall>k \<in> set ks. dirty s k \<Longrightarrow>
   each_write abortWrites (map (content_of s) ks) s =
     Some (s\<lparr>fw_heap := \<lambda>c. if \<exists>k \<in> set ks. content_of s k = c then None else fw_heap s c,
       fw_cc := \<lambda>k. if k \<in> set ks then map_option (\<lambda>l. l\<lparr>cl_content := the (cl_previousContent l)\<rparr>) (fw_cc s k) else fw_cc s k\<rparr>)"
proof (induction ks arbitrary: s)
  case (Cons k ks)
  obtain l p v w where l: "fw_cc s k = Some l" "fw_heap s (cl_content l) = Some \<lparr>ct_key = k, ct_value = w\<rparr>" "cl_previousContent l = Some p"
    "p \<noteq> cl_content l" "fw_heap s p = Some \<lparr>ct_key = k, ct_value = v\<rparr>"
    using Cons.prems(2) by (auto simp: dirty_def)
  define s1 where "s1 = s\<lparr>fw_heap := (fw_heap s)(cl_content l := None), fw_cc := (fw_cc s)(k \<mapsto> l\<lparr>cl_content := p\<rparr>)\<rparr>"
  have k: "k \<notin> set ks" using Cons.prems(1) by simp
  then have s1: "map (content_of s1) ks = map (content_of s) ks" "k' \<in> set ks \<Longrightarrow> content_of s1 k' = content_of s k'" for k' by (auto simp: content_of_def s1_def)
  have step: "abortWrites k s = Some s1" using l by (simp add: abortWrites_def delete_content_def s1_def domIff)
  have "dirty s1 k'" if "k' \<in> set ks" for k'
  proof -
    have "k' \<noteq> k" "dirty s k'" using that Cons.prems by auto
    then show ?thesis using dirty_delete [OF _ l(2), of k' s1] by (simp add: s1_def)
  qed
  then have rec: "each_write abortWrites (map (content_of s) ks) s1 =
     Some (s1\<lparr>fw_heap := \<lambda>c. if \<exists>k \<in> set ks. content_of s1 k = c then None else fw_heap s1 c,
       fw_cc := \<lambda>k. if k \<in> set ks then map_option (\<lambda>l. l\<lparr>cl_content := the (cl_previousContent l)\<rparr>) (fw_cc s1 k) else fw_cc s1 k\<rparr>)"
    using Cons.IH [of s1] Cons.prems(1) unfolding s1(1) by simp
  have co: "content_of s k = cl_content l" using l by (simp add: content_of_def)
  have heap: "(\<lambda>c. if \<exists>k \<in> set ks. content_of s1 k = c then None else fw_heap s1 c) =
    (\<lambda>c. if \<exists>k \<in> set (k # ks). content_of s k = c then None else fw_heap s c)"
    using s1(2) co by (auto simp: fun_eq_iff s1_def)
  have cc: "(\<lambda>k. if k \<in> set ks then map_option (\<lambda>l. l\<lparr>cl_content := the (cl_previousContent l)\<rparr>) (fw_cc s1 k) else fw_cc s1 k) =
    (\<lambda>k'. if k' \<in> set (k # ks) then map_option (\<lambda>l. l\<lparr>cl_content := the (cl_previousContent l)\<rparr>) (fw_cc s k') else fw_cc s k')"
    using l(1,3) k by (auto simp: fun_eq_iff s1_def)
  show ?case using rec step l(2) co unfolding heap cc by (simp add: s1_def)
qed simp

definition drop_n :: "nat \<Rightarrow> cc_lock \<Rightarrow> cc_lock" where
  "drop_n n l = l\<lparr>cl_owner_cnt := cl_owner_cnt l - of_nat n, cl_lockType := (if n > 0 \<and> cl_owner_cnt l = of_nat n then LOCK_NONE else cl_lockType l)\<rparr>"

lemma drop_n_fields:
  "cl_content (drop_n n l) = cl_content l" "cl_previousContent (drop_n n l) = cl_previousContent l" "cl_waiters (drop_n n l) = cl_waiters l"
  "cl_owner_cnt (drop_n n l) = cl_owner_cnt l - of_nat n"
  "cl_lockType (drop_n n l) = (if n > 0 \<and> cl_owner_cnt l = of_nat n then LOCK_NONE else cl_lockType l)"
  by (simp_all add: drop_n_def)

lemma drop_n_0 [simp]: "drop_n 0 = (\<lambda>l. l)"
  by (simp add: fun_eq_iff drop_n_def)

lemma drop_n_Suc:
  assumes "Suc n \<le> unat (cl_owner_cnt l)"
  shows "drop_n n (drop_n 1 l) = drop_n (Suc n) l"
proof (cases "n = 0")
  case False
  have "cl_owner_cnt l \<noteq> 1" using assms False by auto
  moreover have "cl_owner_cnt l - 1 = of_nat n \<longleftrightarrow> cl_owner_cnt l = 1 + of_nat n" by (auto simp: algebra_simps)
  ultimately show ?thesis using False by (simp add: drop_n_def algebra_simps)
qed simp

lemma release_key_NO_WAIT:
  assumes "\<And>l. fw_cc s k = Some l \<Longrightarrow> cl_waiters l = [] \<and> cl_owner_cnt l > 0"
  shows "release_key NO_WAIT t k s = Some (s\<lparr>fw_cc := (fw_cc s)(k := map_option (drop_n 1) (fw_cc s k))\<rparr>)"
proof (cases "fw_cc s k")
  case (Some l)
  have "releaseControl NO_WAIT t (fw_obj s) l = Some (fw_obj s, drop_n 1 l)"
    using assms [OF Some] by (auto simp: releaseControl_def drop_owner_def Let_def drop_n_def)
  then show ?thesis using Some by (simp add: release_key_def set_lock_def)
qed (simp add: release_key_def fun_upd_idem)

lemma release_keys_NO_WAIT:
  "\<forall>k l. fw_cc s k = Some l \<longrightarrow> cl_waiters l = [] \<and> count_list ks k \<le> unat (cl_owner_cnt l) \<Longrightarrow>
   release_keys NO_WAIT t ks s = Some (s\<lparr>fw_cc := \<lambda>k. map_option (drop_n (count_list ks k)) (fw_cc s k)\<rparr>)"
proof (induction ks arbitrary: s)
  case (Cons k ks)
  let ?s = "s\<lparr>fw_cc := (fw_cc s)(k := map_option (drop_n 1) (fw_cc s k))\<rparr>"
  have pos: "cl_waiters l = [] \<and> cl_owner_cnt l > 0" if "fw_cc s k = Some l" for l
  proof -
    have "1 \<le> unat (cl_owner_cnt l)" "cl_waiters l = []" using Cons.prems that by fastforce+
    then show ?thesis by (metis not_one_le_zero unat_eq_zero word_neq_0_conv)
  qed
  have "cl_waiters l = [] \<and> count_list ks k' \<le> unat (cl_owner_cnt l)" if l: "fw_cc ?s k' = Some l" for k' l
  proof (cases "k' = k")
    case True
    then obtain l0 where l0: "fw_cc s k = Some l0" "l = drop_n 1 l0" using l by auto
    then have "cl_waiters l0 = []" "Suc (count_list ks k) \<le> unat (cl_owner_cnt l0)" using Cons.prems by fastforce+
    moreover have "unat (cl_owner_cnt l0 - 1) = unat (cl_owner_cnt l0) - 1" using calculation(2) by (intro unat_minus_one) auto
    ultimately show ?thesis using True l0(2) by (simp add: drop_n_def)
  qed (use Cons.prems l in fastforce)
  then have IH: "release_keys NO_WAIT t ks ?s = Some (?s\<lparr>fw_cc := \<lambda>k. map_option (drop_n (count_list ks k)) (fw_cc ?s k)\<rparr>)" using Cons.IH [of ?s] by blast
  have "map_option (drop_n (count_list ks k)) (map_option (drop_n 1) (fw_cc s k)) = map_option (drop_n (Suc (count_list ks k))) (fw_cc s k)"
  proof (cases "fw_cc s k")
    case (Some l)
    then have "Suc (count_list ks k) \<le> unat (cl_owner_cnt l)" using Cons.prems by fastforce
    from drop_n_Suc [OF this] Some show ?thesis by simp
  qed simp
  then show ?case using IH by (simp add: release_key_NO_WAIT [OF pos]) (auto simp: fun_eq_iff)
qed (simp add: option.map_ident)

lemma count_held: "count_list (map fst (held_by t log)) k = length (on_key k (filter (\<lambda>e. fst e = t) log))"
  by (induction log) (auto simp: held_by_def on_key_def)

lemma on_key_split: "length (on_key k log) = length (on_key k (filter (\<lambda>e. fst e = t) log)) + length (on_key k (filter (\<lambda>e. fst e \<noteq> t) log))"
  by (induction log) (auto simp: on_key_def)

lemma on_key_filter: "on_key k (filter P log) = filter P (on_key k log)"
  by (simp add: on_key_def conj_commute)

lemma filter_all: "length (filter P xs) = length xs \<Longrightarrow> filter P xs = xs"
  using length_filter_less [of _ xs P] by (auto intro: filter_True)

lemma lone_writes_filter: "lone_writes log \<Longrightarrow> lone_writes (filter P log)"
  by (auto simp: lone_writes_def on_key_filter)

lemma held_by_filter: "held_by u (filter (\<lambda>e. fst e \<noteq> t) log) = (if u = t then [] else held_by u log)"
  by (induction log) (auto simp: held_by_def)

lemma lone_writes_snoc: "lone_writes (log @ [e]) \<Longrightarrow> lone_writes log"
proof -
  assume lw: "lone_writes (log @ [e])"
  have "on_key k log = [(t, k, Some v)]" if m: "(t, k, Some v) \<in> set log" for t k v
  proof -
    have "on_key k log @ on_key k [e] = [(t, k, Some v)]" using lw m by (simp add: lone_writes_def)
    moreover have "(t, k, Some v) \<in> set (on_key k log)" using m by (simp add: on_key_mem)
    ultimately show ?thesis by (cases "on_key k log") auto
  qed
  then show "lone_writes log" by (simp add: lone_writes_def)
qed

lemma distinct_writes: "lone_writes log \<Longrightarrow> distinct (write_keys (held_by t log))"
proof (induction log rule: rev_induct)
  case (snoc e log)
  obtain u k x where e: "e = (u, k, x)" by (cases e)
  have lw: "lone_writes log" by (rule lone_writes_snoc [OF snoc.prems])
  have "k \<notin> set (write_keys (held_by t log))" if x: "x \<noteq> None"
  proof -
    obtain v where "x = Some v" using x by blast
    then have "on_key k (log @ [e]) = [(u, k, Some v)]" using snoc.prems by (simp add: lone_writes_def e)
    then have "on_key k log = []" by (simp add: e \<open>x = Some v\<close>)
    then show ?thesis by (simp add: write_keys_mem held_by_mem on_key_Nil)
  qed
  then show ?case using snoc.IH [OF lw] by (auto simp: e)
qed simp

lemma put_writes_other: "k \<notin> set (write_keys as) \<Longrightarrow> put_writes as m k = m k"
  by (induction as m rule: put_writes.induct) (auto simp: write_keys_def)

lemma put_writes_at: "distinct (write_keys as) \<Longrightarrow> (k, Some v) \<in> set as \<Longrightarrow> put_writes as m k = Some v"
proof (induction as m rule: put_writes.induct)
  case (3 k' v' as m)
  have d: "k' \<notin> set (write_keys as)" "distinct (write_keys as)" using "3.prems"(1) by (simp_all add: write_keys_def)
  show ?case
  proof (cases "(k, Some v) \<in> set as")
    case True
    show ?thesis unfolding put_writes.simps by (rule "3.IH" [OF d(2) True])
  next
    case False
    then show ?thesis using "3.prems"(2) put_writes_other [OF d(1), of "m(k' \<mapsto> v')"] by simp
  qed
qed (auto simp: write_keys_def)

lemma lock_part_drop:
  assumes lw: "lone_writes log" and l: "lock_part (on_key k log) l" and len: "length log < 2 ^ 32"
  shows "lock_part (on_key k (filter (\<lambda>e. fst e \<noteq> t) log)) (drop_n (count_list (map fst (held_by t log)) k) l)"
proof -
  let ?acc = "on_key k log" and ?acc' = "on_key k (filter (\<lambda>e. fst e \<noteq> t) log)" and ?n = "count_list (map fst (held_by t log)) k"
  have split: "length ?acc = ?n + length ?acc'" using on_key_split [of k log t] by (simp add: count_held)
  have small: "length ?acc < 2 ^ 32" using len on_key_length [of k log] by linarith
  have cnt: "cl_owner_cnt l - of_nat ?n = of_nat (length ?acc')" using l split by (simp add: lock_part_def)
  have all: "cl_owner_cnt l = of_nat ?n \<longleftrightarrow> ?acc' = []"
  proof -
    have "unat (of_nat (length ?acc) :: u32) = length ?acc" "unat (of_nat ?n :: u32) = ?n" using small split by (simp_all only: unat_of_nat) simp_all
    moreover have "cl_owner_cnt l = of_nat (length ?acc)" using l by (simp only: lock_part_def)
    ultimately have "cl_owner_cnt l = of_nat ?n \<longleftrightarrow> length ?acc = ?n" by metis
    then show ?thesis using split by simp
  qed
  have none: "?acc' = ?acc" if "?n = 0"
    using split that unfolding on_key_filter by (intro filter_all) simp
  have "lock_of ?acc' = (if ?n > 0 \<and> ?acc' = [] then LOCK_NONE else lock_of ?acc)"
  proof (cases "?n = 0 \<or> ?acc' = []")
    case True
    then show ?thesis using none by (auto simp: lock_of_def)
  next
    case False
    have "length ?acc \<noteq> 1" using False split by (cases ?acc') auto
    then have wn: "written ?acc = None" by (rule written_many)
    have "written ?acc' = None"
    proof (rule ccontr)
      assume "written ?acc' \<noteq> None"
      then obtain v u where "(u, k, Some v) \<in> set (filter (\<lambda>e. fst e \<noteq> t) log)" using written_Some by blast
      then show False using written_mem [OF lw, of u k v] wn by simp
    qed
    then show ?thesis using False wn split by (auto simp: lock_of_def)
  qed
  moreover have "cl_lockType l = lock_of ?acc" "cl_waiters l = []" using l by (simp_all only: lock_part_def)
  ultimately show ?thesis unfolding lock_part_def drop_n_fields cnt all by (simp only: simp_thms)
qed

lemma release_all:
  assumes lw: "lone_writes log" and len: "length log < 2 ^ 32" and locks: "\<And>k l. fw_cc s k = Some l \<Longrightarrow> lock_part (on_key k log) l"
    and det: "tf_locksDetained (fw_obj s t) = map fst (held_by t log)"
  shows "releaseLocks NO_WAIT t s = Some (upd_txn t (\<lambda>x. x\<lparr>tf_locksDetained := []\<rparr>)
    (s\<lparr>fw_cc := \<lambda>k. map_option (drop_n (count_list (map fst (held_by t log)) k)) (fw_cc s k)\<rparr>))"
proof -
  have "cl_waiters l = [] \<and> count_list (map fst (held_by t log)) k \<le> unat (cl_owner_cnt l)" if l: "fw_cc s k = Some l" for k l
  proof -
    have "length (on_key k log) < 2 ^ 32" using len on_key_length [of k log] by linarith
    then have "unat (of_nat (length (on_key k log)) :: u32) = length (on_key k log)" by (simp only: unat_of_nat) simp
    then show ?thesis using locks [OF l] on_key_split [of k log t] by (simp add: lock_part_def count_held)
  qed
  then show ?thesis unfolding releaseLocks_def det by (subst release_keys_NO_WAIT) auto
qed

lemma sim_close:
  assumes sim: "sim (Suc n) s A" and run: "kv_phase A t = Running"
    and obj: "fw_obj s1 = (fw_obj s)(t := x)" "tf_locksDetained x = tf_locksDetained (fw_obj s t)"
    and heap: "fw_next s1 = fw_next s" "\<And>c. fw_heap s c = None \<Longrightarrow> fw_heap s1 c = None"
    and none: "\<And>k. fw_cc s1 k = None \<longleftrightarrow> fw_cc s k = None" "\<And>k. fw_cc s k = None \<Longrightarrow> V k = None"
    and some: "\<And>k l. fw_cc s1 k = Some l \<Longrightarrow> lock_part (on_key k (kv_log A)) l \<and>
      (\<exists>v. V k = Some v \<and> content_part (fw_heap s1) k (written (on_key k (filter (\<lambda>e. fst e \<noteq> t) (kv_log A)))) v l)"
    and cont: "\<And>u k. u \<noteq> t \<Longrightarrow> k \<in> set (write_keys (held_by u (kv_log A))) \<Longrightarrow> content_of s1 k = content_of s k"
  shows "\<exists>s2. releaseLocks NO_WAIT t s1 = Some s2 \<and>
    sim n (upd_txn t (\<lambda>x. x\<lparr>tf_finished := True\<rparr>) s2) (A\<lparr>kv_val := V, kv_log := filter (\<lambda>e. fst e \<noteq> t) (kv_log A), kv_phase := (kv_phase A)(t := Done)\<rparr>)"
proof -
  let ?log = "filter (\<lambda>e. fst e \<noteq> t) (kv_log A)" and ?ks = "map fst (held_by t (kv_log A))"
  let ?A = "A\<lparr>kv_val := V, kv_log := ?log, kv_phase := (kv_phase A)(t := Done)\<rparr>"
  have len: "length (kv_log A) < 2 ^ 32" using simD(6) [OF sim] by simp
  have det: "tf_locksDetained (fw_obj s1 t) = ?ks" using simD(2) [OF sim, of t] run obj by (simp add: sim_txn_def)
  define s2 where "s2 = upd_txn t (\<lambda>x. x\<lparr>tf_locksDetained := []\<rparr>) (s1\<lparr>fw_cc := \<lambda>k. map_option (drop_n (count_list ?ks k)) (fw_cc s1 k)\<rparr>)"
  define s3 where "s3 = upd_txn t (\<lambda>x. x\<lparr>tf_finished := True\<rparr>) s2"
  have rel: "releaseLocks NO_WAIT t s1 = Some s2" unfolding s2_def by (rule release_all [OF simD(4) [OF sim] len _ det]) (use some in blast)
  have s3: "fw_heap s3 = fw_heap s1" "fw_next s3 = fw_next s1" "fw_cc s3 k = map_option (drop_n (count_list ?ks k)) (fw_cc s1 k)"
    "fw_obj s3 u = (if u = t then x\<lparr>tf_locksDetained := [], tf_finished := True\<rparr> else fw_obj s u)" for k u
    using obj(1) by (auto simp: s3_def s2_def upd_txn_def)
  have "sim_key s3 ?A k" for k
  proof (cases "fw_cc s1 k")
    case None
    then have n: "fw_cc s k = None" using none(1) by blast
    then have "on_key k (kv_log A) = []" using simD(1) [OF sim, of k] by (simp add: sim_key_def)
    then show ?thesis using None none(2) [OF n] by (simp add: sim_key_def s3 on_key_filter)
  next
    case (Some l)
    obtain v where v: "V k = Some v" "lock_part (on_key k (kv_log A)) l" "content_part (fw_heap s1) k (written (on_key k ?log)) v l" using some [OF Some] by blast
    have "content_part (fw_heap s1) k (written (on_key k ?log)) v (drop_n m l)" for m using v(3) by (simp only: content_part_def drop_n_fields)
    then show ?thesis using lock_part_drop [OF simD(4) [OF sim] v(2) len, of t] v(1) Some by (simp add: sim_key_def sim_lock_def s3)
  qed
  moreover have "sim_txn s3 ?A u" for u using simD(2) [OF sim, of u] by (auto simp: sim_txn_def s3 held_by_filter)
  moreover have co: "content_of s3 k = content_of s1 k" if "fw_cc s1 k \<noteq> None" for k using that by (auto simp: content_of_def s3 drop_n_fields)
  have "map (content_of s3) (write_keys (held_by u (kv_log A))) = map (content_of s) (write_keys (held_by u (kv_log A)))" if u: "u \<noteq> t" for u
  proof -
    have "fw_cc s1 k \<noteq> None" if "k \<in> set (write_keys (held_by u (kv_log A)))" for k
    proof -
      have "on_key k (kv_log A) \<noteq> []" using that by (auto simp: write_keys_mem held_by_mem on_key_Nil)
      then show ?thesis using none(1) [of k] simD(1) [OF sim, of k] by (auto simp: sim_key_def)
    qed
    then show ?thesis using co cont [OF u] by simp
  qed
  then have "sim_set s3 ?A u" for u using simD(3) [OF sim, of u] by (auto simp: sim_set_def s3 held_by_filter)
  moreover have "lone_writes ?log" by (rule lone_writes_filter [OF simD(4) [OF sim]])
  moreover have "length ?log + n < 2 ^ 32" using simD(6) [OF sim] length_filter_le [of "\<lambda>e. fst e \<noteq> t" "kv_log A"] by linarith
  ultimately have "sim n s3 ?A" using heap simD(5) [OF sim] by (simp add: sim_def s3)
  then show ?thesis using rel by (auto simp: s3_def)
qed

lemma sim_dirty:
  assumes "sim n s A" "k \<in> set (write_keys (held_by t (kv_log A)))"
  shows "dirty s k" "\<exists>v. written (on_key k (kv_log A)) = Some v \<and> (t, k, Some v) \<in> set (kv_log A)"
proof -
  obtain v where v: "(t, k, Some v) \<in> set (kv_log A)" using assms(2) by (auto simp: write_keys_mem held_by_mem)
  have w: "written (on_key k (kv_log A)) = Some v" by (rule written_mem [OF simD(4) [OF assms(1)] v])
  then show "\<exists>v. written (on_key k (kv_log A)) = Some v \<and> (t, k, Some v) \<in> set (kv_log A)" using v by blast
  have "on_key k (kv_log A) \<noteq> []" using w by auto
  then obtain l where l: "fw_cc s k = Some l" using simD(1) [OF assms(1), of k] by (cases "fw_cc s k") (auto simp: sim_key_def)
  obtain v0 where "sim_lock (fw_heap s) k (on_key k (kv_log A)) v0 l" by (rule sim_keyE [OF simD(1) [OF assms(1)] l])
  then show "dirty s k" using l w by (auto simp: dirty_def sim_lock_def content_part_def)
qed

text \<open>The keys of another transaction, and those it has not written.\<close>

lemma written_kept:
  assumes "lone_writes log"
  shows "written (on_key k (filter (\<lambda>e. fst e \<noteq> t) log)) = (if k \<in> set (write_keys (held_by t log)) then None else written (on_key k log))"
proof (cases "written (on_key k log)")
  case (Some v)
  then obtain u where u: "on_key k log = [(u, k, Some v)]" "(u, k, Some v) \<in> set log" using written_Some by blast
  have "k \<in> set (write_keys (held_by t log)) \<longleftrightarrow> u = t"
  proof
    assume "k \<in> set (write_keys (held_by t log))"
    then obtain w where "(t, k, Some w) \<in> set (on_key k log)" by (auto simp: write_keys_mem held_by_mem on_key_mem)
    then show "u = t" by (simp add: u(1))
  qed (use u(2) in \<open>auto simp: write_keys_mem held_by_mem\<close>)
  then show ?thesis using u(1) by (simp add: on_key_filter)
next
  case None
  have "written (on_key k (filter (\<lambda>e. fst e \<noteq> t) log)) = None"
  proof (rule ccontr)
    assume "written (on_key k (filter (\<lambda>e. fst e \<noteq> t) log)) \<noteq> None"
    then obtain v u where "(u, k, Some v) \<in> set (filter (\<lambda>e. fst e \<noteq> t) log)" using written_Some by blast
    then show False using written_mem [OF assms, of u k v] None by simp
  qed
  then show ?thesis using None by simp
qed

lemma commit_key:
  assumes sim: "sim n s A" and l: "fw_cc s k = Some l" and ks: "ks = write_keys (held_by t (kv_log A))"
    and heap: "heap = (\<lambda>c. if \<exists>k \<in> set ks. prev_of s k = Some c then None else fw_heap s c)"
  shows "lock_part (on_key k (kv_log A)) l \<and> (\<exists>v. put_writes (held_by t (kv_log A)) (kv_val A) k = Some v \<and>
    content_part heap k (written (on_key k (filter (\<lambda>e. fst e \<noteq> t) (kv_log A)))) v l)"
proof -
  have dis: "distinct (write_keys (held_by t (kv_log A)))" by (rule distinct_writes [OF simD(4) [OF sim]])
  have prevk: "prev_of s k' \<noteq> Some c" if c: "k' \<in> set ks" "fw_heap s c = Some y" "ct_key y \<noteq> k'" for k' c y
    using sim_dirty(1) [OF sim, of k' t] c by (auto simp: dirty_def prev_of_def ks)
  obtain v where v: "kv_val A k = Some v" "lock_part (on_key k (kv_log A)) l" "content_part (fw_heap s) k (written (on_key k (kv_log A))) v l"
    using sim_keyE [OF simD(1) [OF sim] l] by (metis sim_lock_def)
  show ?thesis
  proof (cases "k \<in> set ks")
    case True
    then obtain w where w: "written (on_key k (kv_log A)) = Some w" "(t, k, Some w) \<in> set (kv_log A)" using sim_dirty(2) [OF sim] ks by blast
    have "put_writes (held_by t (kv_log A)) (kv_val A) k = Some w" by (rule put_writes_at [OF dis]) (simp add: held_by_mem w(2))
    moreover have h: "fw_heap s (cl_content l) = Some \<lparr>ct_key = k, ct_value = w\<rparr>" "prev_of s k \<noteq> Some (cl_content l)"
      using v(3) w(1) l by (auto simp: content_part_def prev_of_def)
    have "prev_of s k' \<noteq> Some (cl_content l)" if "k' \<in> set ks" for k' using h(2) prevk [OF that h(1)] by (cases "k' = k") auto
    then have "heap (cl_content l) = Some \<lparr>ct_key = k, ct_value = w\<rparr>" using h(1) by (auto simp: heap)
    ultimately show ?thesis using True v(2) written_kept [OF simD(4) [OF sim], of k t] by (simp add: content_part_def ks)
  next
    case False
    have "put_writes (held_by t (kv_log A)) (kv_val A) k = Some v" using put_writes_other [of k] False v(1) by (simp add: ks)
    moreover have "heap c = Some y" if c: "fw_heap s c = Some y" "ct_key y = k" for c y using prevk [OF _ c(1)] c False by (auto simp: heap)
    then have "content_part heap k (written (on_key k (kv_log A))) v l" using v(3) by (auto simp: content_part_def split: option.splits)
    ultimately show ?thesis using False v(2) written_kept [OF simD(4) [OF sim], of k t] by (simp add: ks)
  qed
qed

lemma unmapped: "sim n s A \<Longrightarrow> fw_cc s k = None \<Longrightarrow> k \<notin> set (write_keys (held_by t (kv_log A)))"
  using simD(1) [of n s A k] by (auto simp: sim_key_def write_keys_mem held_by_mem on_key_Nil)

lemma sim_commit:
  assumes sim: "sim (Suc n) s A" and ex: "kv_exec (FCommit t now) A = Some (r, A')"
  shows "\<exists>s'. fw_exec NO_WAIT SERIALIZABLE node (FCommit t now) s = Some (r, s') \<and> sim n s' A'"
proof -
  let ?ks = "write_keys (held_by t (kv_log A))" and ?V = "put_writes (held_by t (kv_log A)) (kv_val A)"
  have run: "kv_phase A t = Running" and A': "r = RDone"
    "A' = A\<lparr>kv_val := ?V, kv_log := filter (\<lambda>e. fst e \<noteq> t) (kv_log A), kv_phase := (kv_phase A)(t := Done)\<rparr>"
    using ex by auto
  define s0 where "s0 = (if tf_nodeId (fw_obj s t) = node then upd_txn t (\<lambda>x. x\<lparr>tf_timestampCommit := now\<rparr>) s else s)"
  define x where "x = fw_obj s0 t"
  have s0: "fw_heap s0 = fw_heap s" "fw_cc s0 = fw_cc s" "fw_next s0 = fw_next s" "fw_obj s0 = (fw_obj s)(t := x)"
    "tf_locksDetained x = tf_locksDetained (fw_obj s t)" "tf_writeset x = tf_writeset (fw_obj s t)"
    by (auto simp: s0_def x_def upd_txn_def)
  have co: "content_of s0 = content_of s" "prev_of s0 = prev_of s" "dirty s0 = dirty s" by (simp_all add: fun_eq_iff content_of_def prev_of_def dirty_def s0)
  define heap where "heap = (\<lambda>c. if \<exists>k \<in> set ?ks. prev_of s k = Some c then None else fw_heap s c)"
  define s1 where "s1 = s0\<lparr>fw_heap := heap\<rparr>"
  have ws: "tf_writeset (fw_obj s0 t) = map (content_of s0) ?ks" using simD(3) [OF sim, of t] run by (simp add: sim_set_def s0 co)
  have each: "each_write commitWrites (tf_writeset (fw_obj s0 t)) s0 = Some s1"
    unfolding ws using each_commit [OF distinct_writes [OF simD(4) [OF sim], of t], of s0] sim_dirty(1) [OF sim]
    by (simp add: co s1_def s0 heap_def cong: if_cong)
  have "\<exists>s2. releaseLocks NO_WAIT t s1 = Some s2 \<and> sim n (upd_txn t (\<lambda>x. x\<lparr>tf_finished := True\<rparr>) s2) A'"
    unfolding A'
  proof (rule sim_close [OF sim run, where x = x])
    show "?V k = None" if "fw_cc s k = None" for k using put_writes_other [OF unmapped [OF sim that]] sim_dom [OF sim, of k] that by simp
    show "content_of s1 k = content_of s k" for k by (simp add: content_of_def s1_def s0)
  qed (use commit_key [OF sim _ refl heap_def] in \<open>auto simp: s1_def s0 heap_def\<close>)
  then show ?thesis using each by (auto simp: A'(1) fw_commit_def cm_commit_def s0_def [symmetric])
qed

lemma abort_key:
  assumes sim: "sim n s A" and l: "fw_cc s k = Some l" and ks: "ks = write_keys (held_by t (kv_log A))"
    and heap: "heap = (\<lambda>c. if \<exists>k \<in> set ks. content_of s k = c then None else fw_heap s c)"
    and l': "l' = (if k \<in> set ks then l\<lparr>cl_content := the (cl_previousContent l)\<rparr> else l)"
  shows "lock_part (on_key k (kv_log A)) l' \<and> (\<exists>v. kv_val A k = Some v \<and>
    content_part heap k (written (on_key k (filter (\<lambda>e. fst e \<noteq> t) (kv_log A)))) v l')"
proof -
  have contk: "content_of s k' \<noteq> c" if c: "k' \<in> set ks" "fw_heap s c = Some y" "ct_key y \<noteq> k'" for k' c y
    using sim_dirty(1) [OF sim, of k' t] c by (auto simp: dirty_def content_of_def ks)
  obtain v where v: "kv_val A k = Some v" "lock_part (on_key k (kv_log A)) l" "content_part (fw_heap s) k (written (on_key k (kv_log A))) v l"
    using sim_keyE [OF simD(1) [OF sim] l] by (metis sim_lock_def)
  have lp: "lock_part (on_key k (kv_log A)) l'" using v(2) by (simp add: lock_part_def l')
  show ?thesis
  proof (cases "k \<in> set ks")
    case True
    then obtain w where w: "written (on_key k (kv_log A)) = Some w" using sim_dirty(2) [OF sim] ks by blast
    then obtain p where p: "cl_previousContent l = Some p" "p \<noteq> cl_content l" "fw_heap s p = Some \<lparr>ct_key = k, ct_value = v\<rparr>"
      using v(3) by (auto simp: content_part_def)
    have "content_of s k' \<noteq> p" if "k' \<in> set ks" for k' using p(2) l contk [OF that p(3)] by (cases "k' = k") (auto simp: content_of_def)
    then have "heap p = Some \<lparr>ct_key = k, ct_value = v\<rparr>" using p(3) by (auto simp: heap)
    then show ?thesis using True v(1) lp p(1) written_kept [OF simD(4) [OF sim], of k t] by (simp add: content_part_def ks l')
  next
    case False
    have "heap c = Some y" if c: "fw_heap s c = Some y" "ct_key y = k" for c y using contk [OF _ c(1)] c False by (auto simp: heap)
    then have "content_part heap k (written (on_key k (kv_log A))) v l" using v(3) by (auto simp: content_part_def split: option.splits)
    then show ?thesis using False lp v(1) written_kept [OF simD(4) [OF sim], of k t] by (simp add: ks l')
  qed
qed

lemma sim_abort:
  assumes sim: "sim (Suc n) s A" and ex: "kv_exec (FAbort t) A = Some (r, A')"
  shows "\<exists>s'. fw_exec NO_WAIT SERIALIZABLE node (FAbort t) s = Some (r, s') \<and> sim n s' A'"
proof -
  let ?ks = "write_keys (held_by t (kv_log A))"
  have run: "kv_phase A t = Running" and A': "r = RDone"
    "A' = A\<lparr>kv_val := kv_val A, kv_log := filter (\<lambda>e. fst e \<noteq> t) (kv_log A), kv_phase := (kv_phase A)(t := Done)\<rparr>"
    using ex by auto
  define heap where "heap = (\<lambda>c. if \<exists>k \<in> set ?ks. content_of s k = c then None else fw_heap s c)"
  define s1 where "s1 = s\<lparr>fw_heap := heap, fw_cc := \<lambda>k. if k \<in> set ?ks then map_option (\<lambda>l. l\<lparr>cl_content := the (cl_previousContent l)\<rparr>) (fw_cc s k) else fw_cc s k\<rparr>"
  have ws: "tf_writeset (fw_obj s t) = map (content_of s) ?ks" using simD(3) [OF sim, of t] run by (simp add: sim_set_def)
  have each: "each_write abortWrites (tf_writeset (fw_obj s t)) s = Some s1"
    unfolding ws using each_abort [OF distinct_writes [OF simD(4) [OF sim], of t], of s] sim_dirty(1) [OF sim] by (simp add: s1_def heap_def)
  have other: "k \<notin> set ?ks" if u: "u \<noteq> t" "k \<in> set (write_keys (held_by u (kv_log A)))" for u k
  proof
    assume k: "k \<in> set ?ks"
    obtain v where "(u, k, Some v) \<in> set (kv_log A)" using sim_dirty(2) [OF sim u(2)] by blast
    moreover obtain w where "(t, k, Some w) \<in> set (kv_log A)" using sim_dirty(2) [OF sim k] by blast
    ultimately have "[(u, k, Some v)] = [(t, k, Some w)]" using simD(4) [OF sim] unfolding lone_writes_def by metis
    then show False using u(1) by simp
  qed
  have "\<exists>s2. releaseLocks NO_WAIT t s1 = Some s2 \<and> sim n (upd_txn t (\<lambda>x. x\<lparr>tf_finished := True\<rparr>) s2) A'"
    unfolding A'
  proof (rule sim_close [OF sim run, where x = "fw_obj s t"])
    show "kv_val A k = None" if "fw_cc s k = None" for k using sim_dom [OF sim, of k] that by simp
    show "content_of s1 k = content_of s k" if "u \<noteq> t" "k \<in> set (write_keys (held_by u (kv_log A)))" for u k
      using other [OF that] by (simp add: content_of_def s1_def)
    fix k l assume l: "fw_cc s1 k = Some l"
    then obtain l0 where l0: "fw_cc s k = Some l0" "l = (if k \<in> set ?ks then l0\<lparr>cl_content := the (cl_previousContent l0)\<rparr> else l0)"
      by (auto simp: s1_def split: if_splits)
    show "lock_part (on_key k (kv_log A)) l \<and> (\<exists>v. kv_val A k = Some v \<and>
      content_part (fw_heap s1) k (written (on_key k (filter (\<lambda>e. fst e \<noteq> t) (kv_log A)))) v l)"
      using abort_key [OF sim l0(1) refl heap_def l0(2)] by (simp add: s1_def)
  qed (auto simp: s1_def heap_def)
  then show ?thesis using each by (auto simp: A'(1) fw_abort_def cm_abort_def)
qed

lemma sim_begin:
  assumes sim: "sim (Suc n) s A" and ex: "kv_exec (FBegin t i nd now mem) A = Some (r, A')"
  shows "\<exists>s'. fw_exec NO_WAIT SERIALIZABLE node (FBegin t i nd now mem) s = Some (r, s') \<and> sim n s' A'"
proof -
  let ?s = "beginTransaction t i nd now mem s"
  have un: "kv_phase A t = Unborn" and A': "r = RDone" "A' = A\<lparr>kv_phase := (kv_phase A)(t := Running)\<rparr>" using ex by auto
  have held: "held_by t (kv_log A) = []" using simD(3) [OF sim, of t] un by (simp add: sim_set_def)
  have s: "fw_heap ?s = fw_heap s" "fw_cc ?s = fw_cc s" "fw_next ?s = fw_next s" "u \<noteq> t \<Longrightarrow> fw_obj ?s u = fw_obj s u"
    "tf_locksDetained (fw_obj ?s t) = []" "tf_writeset (fw_obj ?s t) = []" for u
    by (simp_all add: beginTransaction_def upd_txn_def transactionF_new_def)
  have "sim_key ?s A' k" for k using simD(1) [OF sim, of k] by (simp add: sim_key_def s A')
  moreover have "sim_txn ?s A' u" "sim_set ?s A' u" for u
    using simD(2,3) [OF sim, of u] held s(4) [of u] by (cases "u = t"; simp add: sim_txn_def sim_set_def A' s content_of_def [abs_def])+
  ultimately have "sim n ?s A'" using simD(4-6) [OF sim] by (simp add: sim_def s A')
  then show ?thesis by (simp add: A'(1))
qed

lemma sim_end:
  assumes sim: "sim (Suc n) s A" and ex: "kv_exec (FEnd t) A = Some (r, A')"
  shows "\<exists>s'. fw_exec NO_WAIT SERIALIZABLE node (FEnd t) s = Some (r, s') \<and> sim n s' A'"
proof -
  let ?s = "upd_txn t (\<lambda>x. x\<lparr>tf_readset := [], tf_writeset := []\<rparr>) s"
  have un: "kv_phase A t = Done" and A': "r = RDone" "A' = A\<lparr>kv_phase := (kv_phase A)(t := Running)\<rparr>" using ex by auto
  have held: "held_by t (kv_log A) = []" "tf_finished (fw_obj s t)" "tf_locksDetained (fw_obj s t) = []"
    using simD(2,3) [OF sim, of t] un by (auto simp: sim_set_def sim_txn_def)
  have s: "fw_heap ?s = fw_heap s" "fw_cc ?s = fw_cc s" "fw_next ?s = fw_next s" "u \<noteq> t \<Longrightarrow> fw_obj ?s u = fw_obj s u"
    "tf_locksDetained (fw_obj ?s t) = []" "tf_writeset (fw_obj ?s t) = []" for u
    using held(3) by (simp_all add: upd_txn_def)
  have "sim_key ?s A' k" for k using simD(1) [OF sim, of k] by (simp add: sim_key_def s A')
  moreover have "sim_txn ?s A' u" "sim_set ?s A' u" for u
    using simD(2,3) [OF sim, of u] held s(4) [of u] by (cases "u = t"; simp add: sim_txn_def sim_set_def A' s content_of_def [abs_def])+
  ultimately have "sim n ?s A'" using simD(4-6) [OF sim] by (simp add: sim_def s A')
  then show ?thesis using held by (simp add: A'(1) endTransaction_def cm_finish_def)
qed

lemma sim_start: "n < 2 ^ 32 \<Longrightarrow> sim n (fw_init mem) kv_init"
  by (simp add: sim_def sim_key_def sim_txn_def sim_set_def lone_writes_def fw_init_def kv_init_def)

lemma sim_step:
  assumes "sim (Suc n) s A" "kv_exec op A = Some (r, A')"
  shows "\<exists>s'. fw_exec NO_WAIT SERIALIZABLE node op s = Some (r, s') \<and> sim n s' A'"
  using assms by (cases op) (blast intro: sim_read sim_write sim_commit sim_abort sim_begin sim_end)+

lemma sim_value: "sim n s A \<Longrightarrow> fw_value s k = kv_current A k"
proof (cases "fw_cc s k")
  case (Some l)
  assume sim: "sim n s A"
  obtain v where "kv_val A k = Some v" "sim_lock (fw_heap s) k (on_key k (kv_log A)) v l" by (rule sim_keyE [OF simD(1) [OF sim] Some])
  then show ?thesis using Some by (auto simp: fw_value_def kv_current_def sim_lock_def content_part_def split: option.splits)
next
  case None
  assume sim: "sim n s A"
  then have "kv_val A k = None" "on_key k (kv_log A) = []" using simD(1) [OF sim, of k] None by (simp_all add: sim_key_def)
  then show ?thesis using None by (simp add: fw_value_def kv_current_def)
qed

text \<open>C37: Without waiting, at isolation level serializable, the framework is a key-value store with shared and exclusive locks: every sequence of operations of any transactions, each in the right order, gives the results of the store, fails no assertion and never uses or deletes a content twice; a key has the value that its writer has written or, when nobody writes it, the value that was committed last, an abort undoes all writes and both ends release all locks of the transaction.\<close>

theorem framework_refines_store:
  assumes "run_ops kv_exec ops kv_init = Some (rs, A)" "length ops < 2 ^ 32"
  shows "\<exists>s. run_ops (fw_exec NO_WAIT SERIALIZABLE node) ops (fw_init mem) = Some (rs, s) \<and> (\<forall>k. fw_value s k = kv_current A k) \<and>
    (\<forall>k l. fw_cc s k = Some l \<longrightarrow> cl_lockType l = lock_of (on_key k (kv_log A)))"
proof -
  obtain s where s: "run_ops (fw_exec NO_WAIT SERIALIZABLE node) ops (fw_init mem) = Some (rs, s)" "sim 0 s A"
    using run_ops_simulates [where R = sim and ex = "fw_exec NO_WAIT SERIALIZABLE node", OF _ sim_start [OF assms(2)] assms(1)] sim_step by blast
  have "cl_lockType l = lock_of (on_key k (kv_log A))" if l: "fw_cc s k = Some l" for k l
    using sim_keyE [OF simD(1) [OF s(2)] l] by (metis sim_lock_def lock_part_def)
  then show ?thesis using s sim_value [OF s(2)] by blast
qed

definition demo_txnf :: transactionF where
  "demo_txnf = \<lparr>tf_id = 0, tf_writeset = [], tf_readset = [], tf_timestampStartup = 0, tf_timestampCommit = 0, tf_nodeId = 0,
     tf_locksDetained = [], tf_validated = False, tf_finished = False, tf_lockReady = 1, tf_lock_ready_cnt = 0, tf_rsp_mutex = 1\<rparr>"

definition demo_fw_ops :: "fw_op list" where
  "demo_fw_ops = [FBegin 1 10 0 100 demo_txnf, FBegin 2 20 0 200 demo_txnf, FWrite 1 7 5, FRead 2 7, FCommit 1 300, FEnd 1, FRead 2 7, FWrite 1 7 6,
     FCommit 2 400, FEnd 2, FWrite 1 7 6, FAbort 1]"

theorem framework_refines_store_witness:
  "\<exists>s. run_ops (fw_exec NO_WAIT SERIALIZABLE 0) demo_fw_ops (fw_init (\<lambda>_. demo_txnf)) =
     Some ([RDone, RDone, RWrite True, RRead None, RDone, RDone, RRead (Some 5), RWrite False, RDone, RDone, RWrite True, RDone], s) \<and>
     fw_value s 7 = Some 5"
proof -
  have "map_option (\<lambda>(rs, A). (rs, kv_current A 7)) (run_ops kv_exec demo_fw_ops kv_init) =
    Some ([RDone, RDone, RWrite True, RRead None, RDone, RDone, RRead (Some 5), RWrite False, RDone, RDone, RWrite True, RDone], Some 5)"
    by (simp add: demo_fw_ops_def kv_init_def kv_current_def on_key_def held_by_def written_def domIff)
  then obtain A where "run_ops kv_exec demo_fw_ops kv_init =
      Some ([RDone, RDone, RWrite True, RRead None, RDone, RDone, RRead (Some 5), RWrite False, RDone, RDone, RWrite True, RDone], A)"
    "kv_current A 7 = Some 5" by (auto simp: map_option_eq_Some)
  then show ?thesis using framework_refines_store [of demo_fw_ops _ A 0 "\<lambda>_. demo_txnf"] by (auto simp: demo_fw_ops_def)
qed

section \<open>Waiters that become owners\<close>

text \<open>The contents of a lock have its key.\<close>

definition keys_ok :: "fw \<Rightarrow> bool" where
  "keys_ok s \<longleftrightarrow> (\<forall>k l c. fw_cc s k = Some l \<longrightarrow> (c = cl_content l \<or> cl_previousContent l = Some c) \<longrightarrow>
     c < fw_next s \<and> (\<forall>x. fw_heap s c = Some x \<longrightarrow> ct_key x = k))"

text \<open>The lock of \<open>k\<close> is held exclusively and no transaction knows that it has to release it.\<close>

definition orphaned :: "u64 \<Rightarrow> fw \<Rightarrow> bool" where
  "orphaned k s \<longleftrightarrow> (\<exists>l. fw_cc s k = Some l \<and> cl_lockType l = LOCK_EX) \<and> (\<forall>u. k \<notin> set (tf_locksDetained (fw_obj s u)))"

lemma keys_okD:
  assumes "keys_ok s" "fw_cc s k = Some l"
  shows "cl_content l < fw_next s" "fw_heap s (cl_content l) = Some x \<Longrightarrow> ct_key x = k"
    "cl_previousContent l = Some p \<Longrightarrow> p < fw_next s" "cl_previousContent l = Some p \<Longrightarrow> fw_heap s p = Some x \<Longrightarrow> ct_key x = k"
  using assms by (auto simp: keys_ok_def)

lemma keys_ok_shrink:
  assumes "keys_ok s" "\<And>c x. fw_heap s' c = Some x \<Longrightarrow> fw_heap s c = Some x" "fw_next s' = fw_next s"
    "\<And>k l'. fw_cc s' k = Some l' \<Longrightarrow> \<exists>l. fw_cc s k = Some l \<and> (cl_content l' = cl_content l \<or> cl_previousContent l = Some (cl_content l')) \<and> cl_previousContent l' = cl_previousContent l"
  shows "keys_ok s'"
  unfolding keys_ok_def
proof (intro allI impI)
  fix k l' c
  assume "fw_cc s' k = Some l'" and c: "c = cl_content l' \<or> cl_previousContent l' = Some c"
  then obtain l where l: "fw_cc s k = Some l" "cl_content l' = cl_content l \<or> cl_previousContent l = Some (cl_content l')" "cl_previousContent l' = cl_previousContent l"
    using assms(4) by blast
  then show "c < fw_next s' \<and> (\<forall>x. fw_heap s' c = Some x \<longrightarrow> ct_key x = k)" 
    using c assms(2) [of c] assms(3) keys_okD [OF assms(1) l(1)] by auto
qed

lemma keys_ok_alloc: "keys_ok s \<Longrightarrow> keys_ok (snd (new_content k v s))"
  by (auto simp: keys_ok_def new_content_def) (metis less_SucI less_irrefl)+

lemma getControl_fields:
  assumes "getControl cc t op ts l = Some (ok, ts', l')"
  shows "cl_content l' = cl_content l" "cl_previousContent l' = cl_previousContent l" "\<And>u. tf_locksDetained (ts' u) = tf_locksDetained (ts u)"
    "\<not> ok \<Longrightarrow> cl_lockType l' = cl_lockType l"
  using assms by (auto simp: getControl_def Let_def tf_incr_lr_def cas_lockReady_def split: if_splits)

lemma getControl_EX: "cl_lockType l = LOCK_EX \<Longrightarrow> op = RD \<or> op = WR \<Longrightarrow> getControl cc t op ts l = Some (ok, ts', l') \<Longrightarrow> \<not> ok"
  by (auto simp: getControl_def lock_conflict_def cc_conflict_lock_def Let_def tf_incr_lr_def split: if_splits)

lemma promote_fields:
  "cc_promote cc ws ts l = Some (ts', l') \<Longrightarrow> cl_content l' = cl_content l \<and> cl_previousContent l' = cl_previousContent l \<and>
   (\<forall>u. tf_locksDetained (ts' u) = tf_locksDetained (ts u))"
proof (induction ws arbitrary: ts l)
  case (Cons e ws)
  show ?case
  proof (cases "cc_conflict_lock (cl_lockType l) (ce_type e)")
    case True
    then show ?thesis using Cons.prems by auto
  next
    case False
    then obtain t1 l1 where "cc_promote cc ws (ts(ce_txn e := t1)) l1 = Some (ts', l')" "tf_locksDetained t1 = tf_locksDetained (ts (ce_txn e))"
      "cl_content l1 = cl_content l" "cl_previousContent l1 = cl_previousContent l"
      using Cons.prems by (auto simp: Let_def tf_decr_lr_def cas_lockReady_def split: if_splits)
    then show ?thesis using Cons.IH by auto
  qed
qed auto

lemma release_key_frame:
  assumes "release_key cc t k s = Some s'"
  shows "fw_heap s' = fw_heap s" "fw_next s' = fw_next s" "\<And>u. tf_locksDetained (fw_obj s' u) = tf_locksDetained (fw_obj s u)"
    "\<And>k'. k' \<noteq> k \<Longrightarrow> fw_cc s' k' = fw_cc s k'"
    "\<And>k' l'. fw_cc s' k' = Some l' \<Longrightarrow> \<exists>l. fw_cc s k' = Some l \<and> cl_content l' = cl_content l \<and> cl_previousContent l' = cl_previousContent l"
proof -
  have "fw_heap s' = fw_heap s \<and> fw_next s' = fw_next s \<and> (\<forall>u. tf_locksDetained (fw_obj s' u) = tf_locksDetained (fw_obj s u)) \<and>
    (\<forall>k'. k' \<noteq> k \<longrightarrow> fw_cc s' k' = fw_cc s k') \<and>
    (\<forall>k' l'. fw_cc s' k' = Some l' \<longrightarrow> (\<exists>l. fw_cc s k' = Some l \<and> cl_content l' = cl_content l \<and> cl_previousContent l' = cl_previousContent l))"
  proof (cases "fw_cc s k")
    case (Some l)
    obtain l1 ts' l2 where l1: "drop_owner cc t l = Some l1" and l2: "cc_promote cc (cl_waiters l1) (fw_obj s) l1 = Some (ts', l2)" and s': "s' = set_lock k (ts', l2) s"
      using assms Some by (auto simp: release_key_def releaseControl_def split: bind_splits)
    have "cl_content l1 = cl_content l" "cl_previousContent l1 = cl_previousContent l" using l1 by (auto simp: drop_owner_def Let_def split: if_splits)
    with promote_fields [OF l2] Some show ?thesis by (auto simp: s' set_lock_def)
  qed (use assms in \<open>simp add: release_key_def\<close>)
  then show "fw_heap s' = fw_heap s" "fw_next s' = fw_next s" "\<And>u. tf_locksDetained (fw_obj s' u) = tf_locksDetained (fw_obj s u)"
    "\<And>k'. k' \<noteq> k \<Longrightarrow> fw_cc s' k' = fw_cc s k'"
    "\<And>k' l'. fw_cc s' k' = Some l' \<Longrightarrow> \<exists>l. fw_cc s k' = Some l \<and> cl_content l' = cl_content l \<and> cl_previousContent l' = cl_previousContent l"
    by blast+
qed

lemma release_keys_orphaned:
  "release_keys cc t ks s = Some s' \<Longrightarrow> k \<notin> set ks \<Longrightarrow> keys_ok s \<Longrightarrow> orphaned k s \<Longrightarrow> keys_ok s' \<and> orphaned k s'"
proof (induction ks arbitrary: s)
  case (Cons k1 ks)
  obtain s1 where s1: "release_key cc t k1 s = Some s1" "release_keys cc t ks s1 = Some s'" using Cons.prems(1) by (auto split: bind_splits)
  note f = release_key_frame [OF s1(1)]
  have "keys_ok s1" by (rule keys_ok_shrink [OF Cons.prems(3) _ f(2)]) (simp add: f(1), use f(5) in blast)
  moreover have "orphaned k s1" using Cons.prems(2,4) f(3,4) by (simp add: orphaned_def)
  ultimately show ?case using Cons.IH [OF s1(2)] Cons.prems(2) by simp
qed simp

lemma keys_ok_upd_txn [simp]: "keys_ok (upd_txn t f s) = keys_ok s"
  by (simp add: keys_ok_def upd_txn_def)

lemma releaseLocks_orphaned:
  assumes "releaseLocks cc t s = Some s'" "keys_ok s" "orphaned k s"
  shows "keys_ok s' \<and> orphaned k s'"
proof -
  obtain s1 where s1: "release_keys cc t (tf_locksDetained (fw_obj s t)) s = Some s1" "s' = upd_txn t (\<lambda>x. x\<lparr>tf_locksDetained := []\<rparr>) s1"
    using assms(1) by (auto simp: releaseLocks_def split: bind_splits)
  have "keys_ok s1 \<and> orphaned k s1" by (rule release_keys_orphaned [OF s1(1) _ assms(2,3)]) (use assms(3) in \<open>simp add: orphaned_def\<close>)
  then show ?thesis by (simp add: s1(2)) (simp add: orphaned_def upd_txn_def)
qed

lemma each_write_orphaned:
  assumes f: "\<And>key s s'. f key s = Some s' \<Longrightarrow> keys_ok s \<Longrightarrow> orphaned k s \<Longrightarrow> keys_ok s' \<and> orphaned k s'"
  shows "each_write f cs s = Some s' \<Longrightarrow> keys_ok s \<Longrightarrow> orphaned k s \<Longrightarrow> keys_ok s' \<and> orphaned k s'"
proof (induction cs arbitrary: s)
  case (Cons c cs)
  obtain key s1 where "f key s = Some s1" "each_write f cs s1 = Some s'" using Cons.prems(1) by (auto split: bind_splits)
  then show ?case using f Cons.IH Cons.prems(2,3) by blast
qed simp

lemma commitWrites_orphaned:
  assumes "commitWrites key s = Some s'" "keys_ok s" "orphaned k s"
  shows "keys_ok s' \<and> orphaned k s'"
proof -
  obtain p where s': "s' = s\<lparr>fw_heap := (fw_heap s)(p := None)\<rparr>" using assms(1) by (auto simp: commitWrites_def delete_content_def split: bind_splits)
  have "keys_ok s'" by (rule keys_ok_shrink [OF assms(2)]) (auto simp: s' split: if_splits)
  then show ?thesis using assms(3) by (simp add: s' orphaned_def)
qed

lemma abortWrites_orphaned:
  assumes "abortWrites key s = Some s'" "keys_ok s" "orphaned k s"
  shows "keys_ok s' \<and> orphaned k s'"
proof -
  obtain l p where l: "fw_cc s key = Some l" "cl_previousContent l = Some p"
    and s': "s' = s\<lparr>fw_heap := (fw_heap s)(cl_content l := None), fw_cc := (fw_cc s)(key \<mapsto> l\<lparr>cl_content := p\<rparr>)\<rparr>"
    using assms(1) by (auto simp: abortWrites_def delete_content_def split: bind_splits)
  have "keys_ok s'" by (rule keys_ok_shrink [OF assms(2)]) (use l in \<open>auto simp: s' split: if_splits\<close>)
  then show ?thesis using assms(3) l by (auto simp: s' orphaned_def)
qed

lemma keys_ok_init:
  assumes "keys_ok s"
  shows "keys_ok (initContent key row s)"
proof -
  define s1 where "s1 = snd (new_content key row s)"
  have s1: "fw_cc s1 = fw_cc s" "fw_next s1 = fw_next s + 1" "fw_heap s1 (fw_next s) = Some \<lparr>ct_key = key, ct_value = row\<rparr>" by (simp_all add: s1_def new_content_def)
  have ok: "keys_ok s1" using keys_ok_alloc [OF assms] by (simp add: s1_def)
  have "initContent key row s = (if key \<in> dom (fw_cc s) then s1 else s1\<lparr>fw_cc := (fw_cc s1)(key \<mapsto> cc_lock_new (fw_next s))\<rparr>)"
    by (simp add: initContent_def s1_def new_content_def)
  then show ?thesis using ok s1 by (auto simp: keys_ok_def cc_lock_new_def)
qed

lemma lock_set_orphaned:
  assumes ok: "keys_ok s" and orph: "orphaned k s" and l: "fw_cc s key = Some l" and g: "getControl cc t op (fw_obj s) l = Some (False, ts, l')"
  shows "keys_ok (set_lock key (ts, l') s)" "orphaned k (set_lock key (ts, l') s)"
proof -
  note f = getControl_fields [OF g]
  show "keys_ok (set_lock key (ts, l') s)" by (rule keys_ok_shrink [OF ok]) (use l f(1,2) in \<open>auto simp: set_lock_def split: if_splits\<close>)
  show "orphaned k (set_lock key (ts, l') s)" using orph l f(3,4) by (auto simp: orphaned_def set_lock_def)
qed

lemma read_orphaned:
  assumes ex: "fw_read cc SERIALIZABLE t key s = Some (r, s')" and ok: "keys_ok s" and orph: "orphaned k s"
  shows "keys_ok s' \<and> orphaned k s' \<and> (key = k \<longrightarrow> r = None)"
proof (cases "fw_cc s key")
  case None
  then show ?thesis using assms by (auto simp: fw_read_def orphaned_def domIff)
next
  case (Some l)
  obtain b ts l' where g: "getControl cc t RD (fw_obj s) l = Some (b, ts, l')"
    and s': "if b then \<exists>c. fw_heap s (cl_content l') = Some c \<and> s' = set_lock key (ts(t := add_to_readset (ct_key c) (cl_content l') (ts t)), l') s
      else r = None \<and> s' = set_lock key (ts, l') s"
    using ex Some by (auto simp: fw_read_def cm_read_def cc_read_def domIff split: bind_splits if_splits)
  show ?thesis
  proof (cases b)
    case False
    then show ?thesis using lock_set_orphaned [OF ok orph Some, of cc t RD ts l'] g s' by simp
  next
    case True
    note f = getControl_fields [OF g]
    obtain c where c: "fw_heap s (cl_content l') = Some c" "s' = set_lock key (ts(t := add_to_readset (ct_key c) (cl_content l') (ts t)), l') s" using s' True by auto
    have key: "ct_key c = key" using keys_okD(2) [OF ok Some] c(1) f(1) by simp
    have ne: "key \<noteq> k" using getControl_EX [OF _ _ g] True orph Some by (auto simp: orphaned_def)
    have "keys_ok s'" by (rule keys_ok_shrink [OF ok]) (use Some f(1,2) in \<open>auto simp: c(2) set_lock_def split: if_splits\<close>)
    moreover have "orphaned k s'" using orph ne f(3) by (auto simp: orphaned_def c(2) set_lock_def add_to_readset_def key)
    ultimately show ?thesis using ne by simp
  qed
qed

lemma write_orphaned:
  assumes ex: "cm_write cc SERIALIZABLE t key v s = Some (r, s')" and ok: "keys_ok s" and orph: "orphaned k s"
  shows "keys_ok s' \<and> orphaned k s' \<and> (key = k \<longrightarrow> \<not> r)"
proof -
  let ?c = "fw_next s"
  obtain s1 where s1: "new_content key v s = (?c, s1)" "fw_cc s1 = fw_cc s" "fw_obj s1 = fw_obj s" "fw_next s1 = ?c + 1"
    "fw_heap s1 ?c = Some \<lparr>ct_key = key, ct_value = v\<rparr>" by (simp add: new_content_def)
  have ok1: "keys_ok s1" using keys_ok_alloc [OF ok, of key v] by (simp add: s1(1))
  have orph1: "orphaned k s1" using orph by (simp add: orphaned_def s1)
  obtain l where l: "fw_cc s1 key = Some l" using ex by (auto simp: cm_write_def s1(1) cc_write_def split: bind_splits)
  obtain b ts l' where g: "getControl cc t WR (fw_obj s1) l = Some (b, ts, l')" and r: "r = b"
    and s': "s' = (if b then set_lock key (ts(t := add_to_writeset key ?c (ts t)), l'\<lparr>cl_previousContent := Some (cl_content l'), cl_content := ?c\<rparr>) s1
      else set_lock key (ts, l') s1)"
    using ex l s1(5) by (auto simp: cm_write_def s1(1) cc_write_def split: bind_splits if_splits)
  show ?thesis
  proof (cases b)
    case False
    then show ?thesis using lock_set_orphaned [OF ok1 orph1 l, of cc t WR ts l'] g s' r by simp
  next
    case True
    note f = getControl_fields [OF g]
    have ne: "key \<noteq> k" using getControl_EX [OF _ _ g] True orph1 l by (auto simp: orphaned_def)
    have "keys_ok s'" unfolding keys_ok_def
    proof (intro allI impI)
      fix k' m c
      assume m: "fw_cc s' k' = Some m" and c: "c = cl_content m \<or> cl_previousContent m = Some c"
      show "c < fw_next s' \<and> (\<forall>x. fw_heap s' c = Some x \<longrightarrow> ct_key x = k')"
      proof (cases "k' = key")
        case True
        then have "c = ?c \<or> c = cl_content l" using m c \<open>b\<close> f(1) by (auto simp: s' set_lock_def)
        then show ?thesis using keys_okD(1,2) [OF ok1 l] s1(4,5) True by (auto simp: s' set_lock_def)
      next
        case False
        then have m1: "fw_cc s1 k' = Some m" using m \<open>b\<close> by (simp add: s' set_lock_def)
        then show ?thesis using c keys_okD [OF ok1 m1] by (auto simp: s' set_lock_def)
      qed
    qed
    moreover have "orphaned k s'" using orph1 ne f(3) True by (auto simp: orphaned_def s' set_lock_def add_to_writeset_def)
    ultimately show ?thesis using ne by simp
  qed
qed

lemma exec_orphaned:
  assumes "fw_exec cc SERIALIZABLE node op s = Some (r, s')" "keys_ok s" "orphaned k s"
  shows "keys_ok s' \<and> orphaned k s' \<and> (\<forall>t v. op = FWrite t k v \<longrightarrow> r = RWrite False) \<and> (\<forall>t. op = FRead t k \<longrightarrow> r = RRead None)"
proof (cases op)
  case (FBegin t i n now mem)
  then show ?thesis using assms by (auto simp: beginTransaction_def orphaned_def) (auto simp: upd_txn_def transactionF_new_def split: if_splits)
next
  case (FRead t key)
  then obtain x where "fw_read cc SERIALIZABLE t key s = Some (x, s')" "r = RRead x" using assms(1) by (auto simp: map_option_eq_Some)
  then show ?thesis using read_orphaned [OF _ assms(2,3)] FRead by auto
next
  case (FWrite t key v)
  let ?s = "if key \<in> dom (fw_cc s) then s else initContent key v s"
  obtain x where x: "cm_write cc SERIALIZABLE t key v ?s = Some (x, s')" "r = RWrite x" using assms(1) FWrite by (auto simp: fw_write_def map_option_eq_Some)
  have "keys_ok ?s" using assms(2) keys_ok_init by simp
  moreover have "orphaned k ?s" using assms(3) by (auto simp: orphaned_def initContent_def new_content_def)
  ultimately show ?thesis using write_orphaned [OF x(1)] FWrite x(2) by auto
next
  case (FCommit t now)
  define s0 where "s0 = (if tf_nodeId (fw_obj s t) = node then upd_txn t (\<lambda>x. x\<lparr>tf_timestampCommit := now\<rparr>) s else s)"
  have "fw_commit cc node now t s = Some s'" using assms(1) FCommit by (auto simp: map_option_eq_Some)
  then obtain s1 s2 where s1: "each_write commitWrites (tf_writeset (fw_obj s0 t)) s0 = Some s1" "releaseLocks cc t s1 = Some s2"
    "s' = upd_txn t (\<lambda>x. x\<lparr>tf_finished := True\<rparr>) s2"
    unfolding fw_commit_def cm_commit_def Let_def s0_def [symmetric] by (auto split: bind_splits)
  have "keys_ok s0" "orphaned k s0" using assms(2,3) by (simp add: s0_def, simp add: s0_def orphaned_def upd_txn_def)
  then have "keys_ok s1 \<and> orphaned k s1" using each_write_orphaned [OF _ s1(1), of k] commitWrites_orphaned by blast
  then have "keys_ok s2 \<and> orphaned k s2" using releaseLocks_orphaned [OF s1(2)] by blast
  then show ?thesis using FCommit by (simp add: s1(3)) (simp add: orphaned_def upd_txn_def)
next
  case (FAbort t)
  obtain s1 s2 where s1: "each_write abortWrites (tf_writeset (fw_obj s t)) s = Some s1" "releaseLocks cc t s1 = Some s2"
    "s' = upd_txn t (\<lambda>x. x\<lparr>tf_finished := True\<rparr>) s2"
    using assms(1) FAbort by (auto simp: map_option_eq_Some fw_abort_def cm_abort_def split: bind_splits)
  have "keys_ok s1 \<and> orphaned k s1" using each_write_orphaned [OF _ s1(1), of k] abortWrites_orphaned assms(2,3) by blast
  then have "keys_ok s2 \<and> orphaned k s2" using releaseLocks_orphaned [OF s1(2)] by blast
  then show ?thesis using FAbort by (simp add: s1(3)) (simp add: orphaned_def upd_txn_def)
next
  case (FEnd t)
  have "endTransaction cc t s = Some s'" using assms(1) FEnd by (auto simp: map_option_eq_Some)
  then consider "s' = s" | s1 where "s1 = s \<or> releaseLocks cc t s = Some s1" "s' = upd_txn t (\<lambda>x. x\<lparr>tf_readset := [], tf_writeset := []\<rparr>) s1"
    unfolding endTransaction_def cm_finish_def by (auto split: bind_splits if_splits)
  then show ?thesis
  proof cases
    case 2
    then have "keys_ok s1 \<and> orphaned k s1" using releaseLocks_orphaned assms(2,3) by blast
    then show ?thesis using FEnd by (simp add: 2(2)) (simp add: orphaned_def upd_txn_def)
  qed (use assms(2,3) FEnd in simp)
qed

lemma run_orphaned:
  "run_ops (fw_exec cc SERIALIZABLE node) ops s = Some (rs, s') \<Longrightarrow> keys_ok s \<Longrightarrow> orphaned k s \<Longrightarrow>
   keys_ok s' \<and> orphaned k s' \<and> (\<forall>i < length ops. \<forall>t v. ops ! i = FWrite t k v \<longrightarrow> rs ! i = RWrite False)"
proof (induction ops arbitrary: s rs)
  case (Cons op ops)
  obtain r s1 rs1 where s1: "fw_exec cc SERIALIZABLE node op s = Some (r, s1)" "run_ops (fw_exec cc SERIALIZABLE node) ops s1 = Some (rs1, s')" "rs = r # rs1"
    using Cons.prems(1) by (auto split: bind_splits)
  note e = exec_orphaned [OF s1(1) Cons.prems(2,3)]
  have "keys_ok s' \<and> orphaned k s' \<and> (\<forall>i < length ops. \<forall>t v. ops ! i = FWrite t k v \<longrightarrow> rs1 ! i = RWrite False)"
    using Cons.IH [OF s1(2)] e by blast
  with e show ?case by (auto simp: s1(3) nth_Cons split: nat.splits)
qed simp

text \<open>A transaction waits for the lock of another one, gets it at the commit of that one, and finishes.\<close>

definition leak_ops :: "fw_op list" where
  "leak_ops = [FBegin 1 10 0 200 demo_txnf, FBegin 2 20 0 100 demo_txnf, FWrite 1 7 5, FWrite 2 7 6, FCommit 1 300, FEnd 1, FWrite 2 7 6, FCommit 2 400, FEnd 2]"

lemmas fw_evals = beginTransaction_def upd_txn_def transactionF_new_def fw_write_def cm_write_def cc_write_def fw_commit_def cm_commit_def endTransaction_def
  cm_finish_def releaseLocks_def release_key_def releaseControl_def drop_owner_def getControl_def lock_conflict_def cc_conflict_lock_def initContent_def new_content_def
  cc_lock_new_def set_lock_def add_to_writeset_def commitWrites_def delete_content_def tf_incr_lr_def tf_decr_lr_def cas_lockReady_def fw_init_def demo_txnf_def domIff Let_def

lemma leaked_run:
  "\<exists>rs s. run_ops (fw_exec WAIT_DIE SERIALIZABLE 0) leak_ops (fw_init (\<lambda>_. demo_txnf)) = Some (rs, s) \<and> (\<forall>u. tf_locksDetained (fw_obj s u) = []) \<and>
    keys_ok s \<and> orphaned 7 s"
  by (simp add: leak_ops_def fw_evals keys_ok_def orphaned_def)

text \<open>Under WAIT_DIE the framework loses locks. In this run the memory of the transactions holds a semaphore count of one and zeros elsewhere. A transaction that has waited for a key becomes the owner of its lock when the other one commits, but does not learn of it and never gives it back: after both have finished and no transaction has a lock to release, no write of that key by any transaction ever succeeds again.\<close>

lemma framework_waiter_leaks_lock:
  "\<exists>rs s. run_ops (fw_exec WAIT_DIE SERIALIZABLE 0) leak_ops (fw_init (\<lambda>_. demo_txnf)) = Some (rs, s) \<and> (\<forall>u. tf_locksDetained (fw_obj s u) = []) \<and>
    (\<forall>ops rs' s'. run_ops (fw_exec WAIT_DIE SERIALIZABLE 0) ops s = Some (rs', s') \<longrightarrow>
      (\<forall>i t v. i < length ops \<longrightarrow> ops ! i = FWrite t 7 v \<longrightarrow> rs' ! i = RWrite False))"
proof -
  obtain rs s where s: "run_ops (fw_exec WAIT_DIE SERIALIZABLE 0) leak_ops (fw_init (\<lambda>_. demo_txnf)) = Some (rs, s)"
    "\<forall>u. tf_locksDetained (fw_obj s u) = []" "keys_ok s" "orphaned 7 s" using leaked_run by blast
  with run_orphaned [OF _ s(3,4)] show ?thesis by blast
qed

section \<open>Replication after the release of the locks\<close>

text \<open>\<^verbatim>\<open>replicateResult\<close> serialises the contents of the write set; it is called when the locks have been released.\<close>

definition replicateResult :: "txn_ptr \<Rightarrow> fw \<Rightarrow> content list option" where
  "replicateResult t s = those (map (fw_heap s) (tf_writeset (fw_obj s t)))"

text \<open>The framework replicates the writes of a transaction after it has released its locks: if another transaction writes and commits one of the keys in between, the content to be sent has been deleted.\<close>

theorem framework_replicates_deleted:
  "\<exists>rs s. run_ops (fw_exec NO_WAIT SERIALIZABLE 0)
      [FBegin 1 10 0 100 demo_txnf, FBegin 2 20 0 200 demo_txnf, FWrite 1 7 5, FCommit 1 300, FWrite 2 7 6, FCommit 2 400] (fw_init (\<lambda>_. demo_txnf)) = Some (rs, s) \<and>
    tf_finished (fw_obj s 1) \<and> tf_writeset (fw_obj s 1) \<noteq> [] \<and> replicateResult 1 s = None"
  by (simp add: fw_evals replicateResult_def)

end
