(* ===== verification/Calvin.thy ===== *)
theory Calvin
  imports Bucket_Table "HOL-Library.Sublist"
begin

text \<open>
  Calvin (\<^verbatim>\<open>CC_ALG CALVIN\<close>): the sequencer of a node (\<^verbatim>\<open>system/sequencer.cpp\<close>), the queues of its scheduler
  (\<^verbatim>\<open>sched_enqueue\<close> and \<^verbatim>\<open>sched_dequeue\<close> of \<^verbatim>\<open>system/work_queue.cpp\<close>), the epochs (\<^verbatim>\<open>system/sim_manager.cpp\<close>)
  and the loops of \<^verbatim>\<open>system/calvin_thread.cpp\<close> that drive them, for the workload YCSB. The queues of the library
  are first in, first out; the messages from one node to another arrive in the order in which they are sent.
  What the sequencers, the receiving threads and the lock threads of all nodes do interleaves freely.

  All nodes get the transactions in one common order.
\<close>

section \<open>The sequencer\<close>

record calvin_cfg =
  cv_node_cnt :: u32
  cv_client_cnt :: u32
  cv_part_cnt :: u32
  cv_inflight_max :: u32

definition is_client :: "calvin_cfg \<Rightarrow> u32 \<Rightarrow> bool" where
  "is_client cf i \<longleftrightarrow> i \<ge> cv_node_cnt cf \<and> i < cv_node_cnt cf + cv_client_cnt cf"

record cl_query =
  cq_keys :: "u64 list"
  cq_return :: u32
  cq_startts :: u64
  cq_txn_id :: u64
  cq_batch_id :: u64

definition key_to_part :: "calvin_cfg \<Rightarrow> u64 \<Rightarrow> nat" where
  "key_to_part cf key = unat (key mod ucast (cv_part_cnt cf))"

text \<open>The nodes of the requests, in the order of a \<^verbatim>\<open>std::set\<close>.\<close>

definition participants :: "calvin_cfg \<Rightarrow> cl_query \<Rightarrow> nat list" where
  "participants cf q = sorted_list_of_set (set (map (\<lambda>k. key_to_part cf k mod unat (cv_node_cnt cf)) (cq_keys q)))"

record qlite =
  ql_client_id :: u32
  ql_client_startts :: u64
  ql_server_ack_cnt :: u32
  ql_msg :: cl_query

record qlite_ll =
  ll_list :: "nat \<rightharpoonup> qlite"
  ll_size :: u64
  ll_max_size :: u32
  ll_txns_left :: u32
  ll_epoch :: u64

record sequencer =
  sq_node_id :: u32
  sq_next_txn_id :: u32
  sq_wl :: "qlite_ll list"
  sq_fill :: "nat \<Rightarrow> cl_query list"
  sq_epoch :: u64

definition sequencer_init :: "u32 \<Rightarrow> sequencer" where
  "sequencer_init n = \<lparr>sq_node_id = n, sq_next_txn_id = 0, sq_wl = [], sq_fill = (\<lambda>_. []), sq_epoch = 0\<rparr>"

definition new_wait_list :: "u64 \<Rightarrow> qlite_ll" where
  "new_wait_list epoch = \<lparr>ll_list = Map.empty, ll_size = 0, ll_max_size = 1000, ll_txns_left = 0, ll_epoch = epoch\<rparr>"

text \<open>The wait list for the next batch: the last one, or a new one behind it. An access outside of the array of a
  wait list is undefined. A push to a full queue, which holds 65526 entries, never returns.\<close>

definition wait_list :: "sequencer \<Rightarrow> qlite_ll list \<times> qlite_ll" where
  "wait_list s =
     (if sq_wl s = [] \<or> ll_epoch (last (sq_wl s)) \<noteq> sq_epoch s + 1 then (sq_wl s, new_wait_list (sq_epoch s + 1))
      else (butlast (sq_wl s), last (sq_wl s)))"

fun push_fill :: "cl_query \<Rightarrow> nat list \<Rightarrow> (nat \<Rightarrow> cl_query list) \<Rightarrow> (nat \<Rightarrow> cl_query list) option" where
  "push_fill q [] f = Some f"
| "push_fill q (p # ps) f = do { ASSERT (length (f p) < 65526); push_fill q ps (f(p := f p @ [q])) }"

definition process_txn :: "calvin_cfg \<Rightarrow> cl_query \<Rightarrow> sequencer \<Rightarrow> (cl_query \<times> sequencer) option" where
  "process_txn cf msg s = do {
     let (front, en) = wait_list s;
     let en = (if ll_size en = ucast (ll_max_size en) then en\<lparr>ll_max_size := ll_max_size en * 2\<rparr> else en);
     let txn_id = (ucast (sq_node_id s + cv_node_cnt cf * sq_next_txn_id s) :: u64);
     let idx = unat (txn_id div ucast (cv_node_cnt cf));
     let msg = msg\<lparr>cq_batch_id := ll_epoch en, cq_txn_id := txn_id\<rparr>;
     let parts = participants cf msg;
     ASSERT (txn_id \<noteq> UINT64_MAX);
     ASSERT (parts \<noteq> []);
     ASSERT (is_client cf (cq_return msg));
     ASSERT (idx < unat (ll_max_size en));
     let msg' = msg\<lparr>cq_return := sq_node_id s\<rparr>;
     let en = en\<lparr>ll_list := (ll_list en)(idx \<mapsto> \<lparr>ql_client_id = cq_return msg, ql_client_startts = cq_startts msg,
                    ql_server_ack_cnt = of_nat (length parts), ql_msg = msg'\<rparr>),
                 ll_size := ll_size en + 1, ll_txns_left := ll_txns_left en + 1\<rparr>;
     ASSERT (ll_size en = ucast (ll_txns_left en));
     ASSERT (ll_size en \<le> ucast (cv_inflight_max cf) * ucast (cv_node_cnt cf));
     fill \<leftarrow> push_fill msg' parts (sq_fill s);
     Some (msg', s\<lparr>sq_wl := front @ [en], sq_next_txn_id := sq_next_txn_id s + 1, sq_fill := fill\<rparr>) }"

datatype sched_msg = SchedQuery cl_query | SchedDone u64

text \<open>\<^verbatim>\<open>advance_seq_epoch\<close>, then the batch: what is sent to each node.\<close>

definition advance_seq_epoch :: "sequencer \<Rightarrow> sequencer" where
  "advance_seq_epoch s = s\<lparr>sq_epoch := sq_epoch s + 1\<rparr>"

definition send_next_batch :: "calvin_cfg \<Rightarrow> sequencer \<Rightarrow> (nat \<Rightarrow> sched_msg list) \<times> sequencer" where
  "send_next_batch cf s =
     ((\<lambda>j. if j < unat (cv_node_cnt cf) then map SchedQuery (sq_fill s j) @ [SchedDone (sq_epoch s)] else []),
      s\<lparr>sq_fill := (\<lambda>j. if j < unat (cv_node_cnt cf) then [] else sq_fill s j), sq_next_txn_id := 0\<rparr>)"

text \<open>The acknowledgement of a participant; the result is the response to the client.\<close>

fun split_epoch :: "u64 \<Rightarrow> qlite_ll list \<Rightarrow> (qlite_ll list \<times> qlite_ll \<times> qlite_ll list) option" where
  "split_epoch e [] = None"
| "split_epoch e (en # ens) = (if ll_epoch en = e then Some ([], en, ens) else do { (pre, x, post) \<leftarrow> split_epoch e ens; Some (en # pre, x, post) })"

definition process_ack :: "calvin_cfg \<Rightarrow> u64 \<Rightarrow> u64 \<Rightarrow> sequencer \<Rightarrow> ((u32 \<times> u64 \<times> u64) option \<times> sequencer) option" where
  "process_ack cf batch txn s = do {
     (pre, en, post) \<leftarrow> split_epoch batch (sq_wl s);
     ASSERT (ll_txns_left en > 0);
     let idx = unat (txn div ucast (cv_node_cnt cf));
     q \<leftarrow> ll_list en idx;
     ASSERT (ql_server_ack_cnt q > 0);
     let q = q\<lparr>ql_server_ack_cnt := ql_server_ack_cnt q - 1\<rparr>;
     let en = en\<lparr>ll_list := (ll_list en)(idx \<mapsto> q)\<rparr>;
     let (rsp, en) = (if ql_server_ack_cnt q = 0 then (Some (ql_client_id q, ql_client_startts q, txn), en\<lparr>ll_txns_left := ll_txns_left en - 1\<rparr>)
                      else (None, en));
     Some (rsp, s\<lparr>sq_wl := (if ll_txns_left en = 0 then pre @ post else pre @ en # post)\<rparr>) }"

section \<open>The scheduler\<close>

record scheduler =
  sd_queue :: "nat \<Rightarrow> sched_msg list"
  sd_ptr :: nat
  sd_worker_epoch :: u64

definition scheduler_init :: scheduler where
  "scheduler_init = \<lparr>sd_queue = (\<lambda>_. []), sd_ptr = 0, sd_worker_epoch = 1\<rparr>"

definition sched_enqueue :: "calvin_cfg \<Rightarrow> nat \<Rightarrow> sched_msg \<Rightarrow> scheduler \<Rightarrow> scheduler option" where
  "sched_enqueue cf src m d = do {
     ASSERT (src < unat (cv_node_cnt cf));
     Some (d\<lparr>sd_queue := (sd_queue d)(src := sd_queue d src @ [m])\<rparr>) }"

definition sched_dequeue :: "calvin_cfg \<Rightarrow> scheduler \<Rightarrow> (cl_query option \<times> scheduler) option" where
  "sched_dequeue cf d =
     (case sd_queue d (sd_ptr d) of
        [] \<Rightarrow> Some (None, d)
      | m # ms \<Rightarrow>
          (let d = d\<lparr>sd_queue := (sd_queue d)(sd_ptr d := ms)\<rparr>
           in case m of
                SchedDone e \<Rightarrow> do {
                  ASSERT (e = sd_worker_epoch d);
                  let d = (if sd_ptr d = unat (cv_node_cnt cf) - 1 then d\<lparr>sd_worker_epoch := sd_worker_epoch d + 1\<rparr> else d);
                  Some (None, d\<lparr>sd_ptr := (sd_ptr d + 1) mod unat (cv_node_cnt cf)\<rparr>) }
              | SchedQuery q \<Rightarrow> do {
                  ASSERT (cq_batch_id q = sd_worker_epoch d);
                  Some (Some q, d) }))"

section \<open>The nodes\<close>

text \<open>\<open>cs_chan j n\<close> is what node \<open>j\<close> has sent to node \<open>n\<close> and \<open>n\<close> has not received. \<open>cs_log\<close>, \<open>cs_pending\<close> and \<open>cs_hist\<close>
  record what each lock thread has got, the transactions of the batch that is being filled, and the batches sent.\<close>

record calvin_sys =
  cs_seq :: "nat \<Rightarrow> sequencer"
  cs_sched :: "nat \<Rightarrow> scheduler"
  cs_chan :: "nat \<Rightarrow> nat \<Rightarrow> sched_msg list"
  cs_log :: "nat \<Rightarrow> cl_query list"
  cs_pending :: "nat \<Rightarrow> cl_query list"
  cs_hist :: "nat \<Rightarrow> cl_query list list"

definition calvin_init :: calvin_sys where
  "calvin_init = \<lparr>cs_seq = (\<lambda>n. sequencer_init (of_nat n)), cs_sched = (\<lambda>_. scheduler_init), cs_chan = (\<lambda>_ _. []), cs_log = (\<lambda>_. []),
     cs_pending = (\<lambda>_. []), cs_hist = (\<lambda>_. [])\<rparr>"

fun enqueue_all :: "calvin_cfg \<Rightarrow> nat \<Rightarrow> sched_msg list \<Rightarrow> scheduler \<Rightarrow> scheduler option" where
  "enqueue_all cf src [] d = Some d"
| "enqueue_all cf src (m # ms) d = do { d \<leftarrow> sched_enqueue cf src m d; enqueue_all cf src ms d }"

inductive calvin_step :: "calvin_cfg \<Rightarrow> calvin_sys \<Rightarrow> calvin_sys \<Rightarrow> bool" for cf where
  client: "n < unat (cv_node_cnt cf) \<Longrightarrow> process_txn cf msg (cs_seq s n) = Some (q, sq) \<Longrightarrow>
    calvin_step cf s (s\<lparr>cs_seq := (cs_seq s)(n := sq), cs_pending := (cs_pending s)(n := cs_pending s n @ [q])\<rparr>)"
| batch: "n < unat (cv_node_cnt cf) \<Longrightarrow> send_next_batch cf (advance_seq_epoch (cs_seq s n)) = (out, sq) \<Longrightarrow>
    enqueue_all cf n (out n) (cs_sched s n) = Some d \<Longrightarrow>
    calvin_step cf s (s\<lparr>cs_seq := (cs_seq s)(n := sq), cs_sched := (cs_sched s)(n := d),
      cs_chan := (cs_chan s)(n := (\<lambda>j. if j = n then cs_chan s n j else cs_chan s n j @ out j)),
      cs_hist := (cs_hist s)(n := cs_hist s n @ [cs_pending s n]), cs_pending := (cs_pending s)(n := [])\<rparr>)"
| receive: "j < unat (cv_node_cnt cf) \<Longrightarrow> n < unat (cv_node_cnt cf) \<Longrightarrow> cs_chan s j n = m # ms \<Longrightarrow> sched_enqueue cf j m (cs_sched s n) = Some d \<Longrightarrow>
    calvin_step cf s (s\<lparr>cs_chan := (cs_chan s)(j := (cs_chan s j)(n := ms)), cs_sched := (cs_sched s)(n := d)\<rparr>)"
| lock: "n < unat (cv_node_cnt cf) \<Longrightarrow> sched_dequeue cf (cs_sched s n) = Some (r, d) \<Longrightarrow>
    calvin_step cf s (s\<lparr>cs_sched := (cs_sched s)(n := d), cs_log := (cs_log s)(n := cs_log s n @ (case r of None \<Rightarrow> [] | Some q \<Rightarrow> [q]))\<rparr>)"
| ack: "n < unat (cv_node_cnt cf) \<Longrightarrow> process_ack cf batch txn (cs_seq s n) = Some (rsp, sq) \<Longrightarrow>
    calvin_step cf s (s\<lparr>cs_seq := (cs_seq s)(n := sq)\<rparr>)"

inductive calvin_reach :: "calvin_cfg \<Rightarrow> calvin_sys \<Rightarrow> bool" for cf where
  init: "calvin_reach cf calvin_init"
| step: "calvin_reach cf s \<Longrightarrow> calvin_step cf s s' \<Longrightarrow> calvin_reach cf s'"

section \<open>The common order\<close>

definition mine :: "calvin_cfg \<Rightarrow> nat \<Rightarrow> cl_query list \<Rightarrow> cl_query list" where
  "mine cf n = filter (\<lambda>q. n \<in> set (participants cf q))"

definition sched_enc :: "calvin_cfg \<Rightarrow> nat \<Rightarrow> nat \<Rightarrow> cl_query list \<Rightarrow> sched_msg list" where
  "sched_enc cf n e b = map SchedQuery (mine cf n b) @ [SchedDone (of_nat (Suc e))]"

text \<open>What node \<open>n\<close> gets from a node with the history \<open>h\<close>, from batch \<open>i\<close> on.\<close>

definition rest :: "calvin_cfg \<Rightarrow> nat \<Rightarrow> nat \<Rightarrow> cl_query list list \<Rightarrow> sched_msg list" where
  "rest cf n i h = concat (map (\<lambda>e. sched_enc cf n e (h ! e)) [i..<length h])"

text \<open>The batches in the common order: batch \<open>k\<close> is batch \<open>k div N\<close> of node \<open>k mod N\<close>.\<close>

definition batch_at :: "nat \<Rightarrow> (nat \<Rightarrow> cl_query list list) \<Rightarrow> nat \<Rightarrow> cl_query list" where
  "batch_at N H k = (if k div N < length (H (k mod N)) then H (k mod N) ! (k div N) else [])"

definition common_order :: "nat \<Rightarrow> (nat \<Rightarrow> cl_query list list) \<Rightarrow> nat \<Rightarrow> cl_query list" where
  "common_order N H k = concat (map (batch_at N H) [0..<k])"

definition done_cnt :: "nat \<Rightarrow> nat \<Rightarrow> nat \<Rightarrow> nat" where
  "done_cnt N k j = (if j < k mod N then Suc (k div N) else k div N)"

definition node_inv :: "calvin_cfg \<Rightarrow> calvin_sys \<Rightarrow> nat \<Rightarrow> nat \<Rightarrow> nat \<Rightarrow> bool" where
  "node_inv cf s n k p \<longleftrightarrow> (let N = unat (cv_node_cnt cf); d = cs_sched s n in
     sd_ptr d = k mod N \<and> sd_worker_epoch d = of_nat (Suc (k div N)) \<and>
     (\<forall>j < N. done_cnt N k j \<le> length (cs_hist s j) \<and>
        sd_queue d j @ cs_chan s j n = (if j = k mod N then drop p else id) (rest cf n (done_cnt N k j) (cs_hist s j))) \<and>
     p \<le> length (mine cf n (batch_at N (cs_hist s) k)) \<and>
     cs_log s n = mine cf n (common_order N (cs_hist s) k) @ take p (mine cf n (batch_at N (cs_hist s) k)))"

definition seq_inv :: "calvin_cfg \<Rightarrow> calvin_sys \<Rightarrow> nat \<Rightarrow> bool" where
  "seq_inv cf s n \<longleftrightarrow> sq_epoch (cs_seq s n) = of_nat (length (cs_hist s n)) \<and>
     (\<forall>j < unat (cv_node_cnt cf). sq_fill (cs_seq s n) j = mine cf j (cs_pending s n)) \<and> cs_chan s n n = [] \<and>
     (\<forall>q \<in> set (cs_pending s n). cq_batch_id q = of_nat (Suc (length (cs_hist s n)))) \<and>
     (\<forall>e < length (cs_hist s n). \<forall>q \<in> set (cs_hist s n ! e). cq_batch_id q = of_nat (Suc e))"

definition calvin_inv :: "calvin_cfg \<Rightarrow> calvin_sys \<Rightarrow> bool" where
  "calvin_inv cf s \<longleftrightarrow> (\<forall>n < unat (cv_node_cnt cf). seq_inv cf s n \<and> (\<exists>k p. node_inv cf s n k p))"

lemma mine_simps [simp]: "mine cf n [] = []" "mine cf n (xs @ ys) = mine cf n xs @ mine cf n ys"
  "mine cf n [q] = (if n \<in> set (participants cf q) then [q] else [])"
  by (simp_all add: mine_def)

lemma rest_Cons: "i < length h \<Longrightarrow> rest cf n i h = sched_enc cf n i (h ! i) @ rest cf n (Suc i) h"
  by (simp add: rest_def upt_conv_Cons)

lemma rest_Nil: "length h \<le> i \<Longrightarrow> rest cf n i h = []"
  by (simp add: rest_def)

lemma rest_snoc: "i \<le> length h \<Longrightarrow> rest cf n i (h @ [b]) = rest cf n i h @ sched_enc cf n (length h) b"
proof -
  assume i: "i \<le> length h"
  have m: "map (\<lambda>e. sched_enc cf n e ((h @ [b]) ! e)) [i..<length h] = map (\<lambda>e. sched_enc cf n e (h ! e)) [i..<length h]" by (simp add: nth_append)
  show ?thesis using i by (simp add: rest_def m)
qed

lemma common_order_Suc: "common_order N H (Suc k) = common_order N H k @ batch_at N H k"
  by (simp add: common_order_def)

lemma done_cnt_Suc: "j < N \<Longrightarrow> done_cnt N (Suc k) j = done_cnt N k j + (if j = k mod N then 1 else 0)"
  by (auto simp: done_cnt_def mod_Suc div_Suc)

lemma done_cnt_ptr: "done_cnt N k (k mod N) = k div N"
  by (simp add: done_cnt_def)

lemma done_cnt_before: "i < k \<Longrightarrow> 0 < N \<Longrightarrow> i div N < done_cnt N k (i mod N)"
proof -
  assume i: "i < k" and N: "0 < N"
  have "i div N \<le> k div N" using i by (simp add: div_le_mono)
  moreover have "i mod N < k mod N" if "i div N = k div N"
    using i that by (metis add_less_cancel_left div_mult_mod_eq)
  ultimately show ?thesis by (cases "i div N = k div N") (auto simp: done_cnt_def)
qed

lemma order_mono: "k \<le> k' \<Longrightarrow> prefix (common_order N H k) (common_order N H k')"
  by (induction k' rule: dec_induct) (auto simp: common_order_Suc)

text \<open>A new batch of node \<open>n0\<close> changes nothing of what is before it.\<close>

lemma batch_at_snoc:
  assumes "i div N < length (H (i mod N))"
  shows "batch_at N (H(n0 := H n0 @ [b])) i = batch_at N H i"
  using assms by (auto simp: batch_at_def nth_append)

lemma common_order_snoc:
  assumes "0 < N" "\<And>j. j < N \<Longrightarrow> done_cnt N k j \<le> length (H j)"
  shows "common_order N (H(n0 := H n0 @ [b])) k = common_order N H k"
proof -
  have "batch_at N (H(n0 := H n0 @ [b])) i = batch_at N H i" if "i < k" for i
    using batch_at_snoc done_cnt_before [OF that assms(1)] assms(2) [of "i mod N"] assms(1) by (meson mod_less_divisor order_less_le_trans)
  then have "map (batch_at N (H(n0 := H n0 @ [b]))) [0..<k] = map (batch_at N H) [0..<k]" by simp
  then show ?thesis by (simp only: common_order_def)
qed

lemma push_fill_Some: "push_fill q ps f = Some f' \<Longrightarrow> distinct ps \<Longrightarrow> f' j = f j @ (if j \<in> set ps then [q] else [])"
  by (induction ps arbitrary: f) (auto split: if_splits)

lemma enqueue_all_Some: "n < unat (cv_node_cnt cf) \<Longrightarrow> enqueue_all cf n ms d = Some (d\<lparr>sd_queue := (sd_queue d)(n := sd_queue d n @ ms)\<rparr>)"
  by (induction ms arbitrary: d) (simp_all add: sched_enqueue_def fun_upd_idem)

lemma process_txn_inv:
  assumes "process_txn cf msg s = Some (q, s')"
  shows "cq_batch_id q = sq_epoch s + 1" "sq_epoch s' = sq_epoch s" "sq_fill s' j = sq_fill s j @ mine cf j [q]"
proof -
  define e where "e = ll_epoch (snd (wait_list s))"
  have e: "e = sq_epoch s + 1" by (simp add: e_def wait_list_def new_wait_list_def)
  obtain txn where q: "q = msg\<lparr>cq_batch_id := e, cq_txn_id := txn, cq_return := sq_node_id s\<rparr>" and s': "sq_epoch s' = sq_epoch s"
    and f: "push_fill q (participants cf (msg\<lparr>cq_batch_id := e, cq_txn_id := txn\<rparr>)) (sq_fill s) = Some (sq_fill s')"
    using assms by (auto simp: process_txn_def e_def Let_def split: prod.splits bind_splits if_splits)
  have p: "participants cf (msg\<lparr>cq_batch_id := e, cq_txn_id := txn\<rparr>) = participants cf q" by (simp add: participants_def q)
  have "distinct (participants cf q)" by (simp add: participants_def)
  with push_fill_Some [OF f [unfolded p]] show "sq_fill s' j = sq_fill s j @ mine cf j [q]" by simp
  show "cq_batch_id q = sq_epoch s + 1" "sq_epoch s' = sq_epoch s" by (simp_all add: q e s')
qed

lemma process_ack_frame: "process_ack cf b t s = Some (r, s') \<Longrightarrow> sq_epoch s' = sq_epoch s \<and> sq_fill s' = sq_fill s"
  by (auto simp: process_ack_def Let_def split: bind_splits prod.splits if_splits)

lemma node_inv_cong:
  assumes "node_inv cf s n k p" "cs_sched s' n = cs_sched s n" "\<And>j. cs_chan s' j n = cs_chan s j n" "cs_hist s' = cs_hist s" "cs_log s' n = cs_log s n"
  shows "node_inv cf s' n k p"
  using assms by (simp add: node_inv_def)

lemma client_inv:
  assumes inv: "calvin_inv cf s" and p: "process_txn cf msg (cs_seq s n) = Some (q, sq)"
  shows "calvin_inv cf (s\<lparr>cs_seq := (cs_seq s)(n := sq), cs_pending := (cs_pending s)(n := cs_pending s n @ [q])\<rparr>)" (is "calvin_inv cf ?s")
  unfolding calvin_inv_def
proof (intro allI impI conjI)
  fix m assume m: "m < unat (cv_node_cnt cf)"
  have si: "seq_inv cf s m" and ni: "\<exists>k p. node_inv cf s m k p" using inv m by (auto simp: calvin_inv_def)
  show "seq_inv cf ?s m" using si process_txn_inv [OF p] by (cases "m = n") (auto simp: seq_inv_def)
  show "\<exists>k p. node_inv cf ?s m k p" using ni node_inv_cong [of cf s m _ _ ?s] by fastforce
qed

lemma ack_inv:
  assumes inv: "calvin_inv cf s" and a: "process_ack cf b t (cs_seq s n) = Some (r, sq)"
  shows "calvin_inv cf (s\<lparr>cs_seq := (cs_seq s)(n := sq)\<rparr>)" (is "calvin_inv cf ?s")
  unfolding calvin_inv_def
proof (intro allI impI conjI)
  fix m assume m: "m < unat (cv_node_cnt cf)"
  have si: "seq_inv cf s m" and ni: "\<exists>k p. node_inv cf s m k p" using inv m by (auto simp: calvin_inv_def)
  show "seq_inv cf ?s m" using si process_ack_frame [OF a] by (cases "m = n") (auto simp: seq_inv_def)
  show "\<exists>k p. node_inv cf ?s m k p" using ni node_inv_cong [of cf s m _ _ ?s] by fastforce
qed

lemma receive_inv:
  assumes inv: "calvin_inv cf s" and c: "cs_chan s j n = m # ms" and e: "sched_enqueue cf j m (cs_sched s n) = Some d"
  shows "calvin_inv cf (s\<lparr>cs_chan := (cs_chan s)(j := (cs_chan s j)(n := ms)), cs_sched := (cs_sched s)(n := d)\<rparr>)" (is "calvin_inv cf ?s")
  unfolding calvin_inv_def
proof (intro allI impI conjI)
  have d: "d = (cs_sched s n)\<lparr>sd_queue := (sd_queue (cs_sched s n))(j := sd_queue (cs_sched s n) j @ [m])\<rparr>" and j: "j < unat (cv_node_cnt cf)"
    using e by (auto simp: sched_enqueue_def)
  fix u assume u: "u < unat (cv_node_cnt cf)"
  have si: "seq_inv cf s u" and sj: "seq_inv cf s j" and ni: "\<exists>k p. node_inv cf s u k p" using inv u j by (auto simp: calvin_inv_def)
  have "j \<noteq> n" using sj c by (auto simp: seq_inv_def)
  then show "seq_inv cf ?s u" using si by (auto simp: seq_inv_def)
  obtain k p where kp: "node_inv cf s u k p" using ni by blast
  have "sd_queue (cs_sched ?s u) i @ cs_chan ?s i u = sd_queue (cs_sched s u) i @ cs_chan s i u" for i using c by (auto simp: d)
  moreover have "sd_ptr (cs_sched ?s u) = sd_ptr (cs_sched s u)" "sd_worker_epoch (cs_sched ?s u) = sd_worker_epoch (cs_sched s u)" by (auto simp: d)
  ultimately have "node_inv cf ?s u k p" using kp unfolding node_inv_def Let_def by simp
  then show "\<exists>k p. node_inv cf ?s u k p" by blast
qed

text \<open>The part of the invariant that concerns what node \<open>m\<close> has got and will get, when node \<open>n\<close> sends another batch.\<close>

lemma batch_node:
  assumes kp: "node_inv cf s m k p" and N: "0 < unat (cv_node_cnt cf)" and same: "sd_ptr d' = sd_ptr (cs_sched s m)" "sd_worker_epoch d' = sd_worker_epoch (cs_sched s m)"
    and q: "\<And>j. j < unat (cv_node_cnt cf) \<Longrightarrow> sd_queue d' j @ ch j = sd_queue (cs_sched s m) j @ cs_chan s j m @ (if j = n then sched_enc cf m (length (cs_hist s n)) b else [])"
    and s': "cs_sched s' m = d'" "\<And>j. cs_chan s' j m = ch j" "cs_hist s' = (cs_hist s)(n := cs_hist s n @ [b])" "cs_log s' m = cs_log s m"
  shows "node_inv cf s' m k p"
proof -
  let ?N = "unat (cv_node_cnt cf)" and ?H = "cs_hist s" and ?H' = "(cs_hist s)(n := cs_hist s n @ [b])"
  have dc: "done_cnt ?N k j \<le> length (?H j)" if "j < ?N" for j using kp that by (simp add: node_inv_def Let_def)
  have ord: "common_order ?N ?H' k = common_order ?N ?H k" by (rule common_order_snoc [OF N dc])
  have cur: "take p (mine cf m (batch_at ?N ?H' k)) = take p (mine cf m (batch_at ?N ?H k)) \<and> p \<le> length (mine cf m (batch_at ?N ?H' k)) \<and>
    p \<le> length (rest cf m (done_cnt ?N k (k mod ?N)) (?H (k mod ?N)))"
  proof (cases "k div ?N < length (?H (k mod ?N))")
    case True
    then show ?thesis using kp batch_at_snoc [of k ?N ?H n b, OF True] rest_Cons [OF True, of cf m]
      by (simp add: node_inv_def Let_def done_cnt_ptr batch_at_def sched_enc_def)
  next
    case False
    then have "batch_at ?N ?H k = []" by (simp add: batch_at_def)
    then have "p = 0" using kp by (simp add: node_inv_def Let_def)
    then show ?thesis by simp
  qed
  have "sd_queue d' j @ ch j = (if j = k mod ?N then drop p else id) (rest cf m (done_cnt ?N k j) (?H' j))" if j: "j < ?N" for j
  proof -
    have "sd_queue (cs_sched s m) j @ cs_chan s j m = (if j = k mod ?N then drop p else id) (rest cf m (done_cnt ?N k j) (?H j))"
      using kp j by (simp add: node_inv_def Let_def)
    moreover have "rest cf m (done_cnt ?N k j) (?H' j) = rest cf m (done_cnt ?N k j) (?H j) @ (if j = n then sched_enc cf m (length (?H n)) b else [])"
      using rest_snoc [OF dc [OF j]] by auto
    ultimately show ?thesis using q [OF j] cur by (auto simp: append_assoc [symmetric] simp del: append_assoc)
  qed
  moreover have "done_cnt ?N k j \<le> length (?H' j)" if "j < ?N" for j using dc [OF that] by auto
  moreover have "cs_log s' m = mine cf m (common_order ?N ?H' k) @ take p (mine cf m (batch_at ?N ?H' k))"
    using kp ord cur s'(4) by (simp add: node_inv_def Let_def)
  ultimately show ?thesis using kp cur same unfolding node_inv_def Let_def s' by simp
qed

lemma batch_inv:
  assumes inv: "calvin_inv cf s" and n: "n < unat (cv_node_cnt cf)" and b: "send_next_batch cf (advance_seq_epoch (cs_seq s n)) = (out, sq)"
    and d: "enqueue_all cf n (out n) (cs_sched s n) = Some d"
  shows "calvin_inv cf (s\<lparr>cs_seq := (cs_seq s)(n := sq), cs_sched := (cs_sched s)(n := d),
      cs_chan := (cs_chan s)(n := (\<lambda>j. if j = n then cs_chan s n j else cs_chan s n j @ out j)),
      cs_hist := (cs_hist s)(n := cs_hist s n @ [cs_pending s n]), cs_pending := (cs_pending s)(n := [])\<rparr>)" (is "calvin_inv cf ?s")
  unfolding calvin_inv_def
proof (intro allI impI conjI)
  let ?N = "unat (cv_node_cnt cf)" and ?h = "cs_hist s n" and ?b = "cs_pending s n"
  have sn: "seq_inv cf s n" using inv n by (simp add: calvin_inv_def)
  have sq: "sq = (cs_seq s n)\<lparr>sq_epoch := sq_epoch (cs_seq s n) + 1, sq_fill := (\<lambda>j. if j < ?N then [] else sq_fill (cs_seq s n) j), sq_next_txn_id := 0\<rparr>"
    using b by (auto simp: send_next_batch_def advance_seq_epoch_def cong: if_cong)
  have out: "out j = sched_enc cf j (length ?h) ?b" if "j < ?N" for j
    using b that sn by (auto simp: send_next_batch_def advance_seq_epoch_def sched_enc_def seq_inv_def)
  have d': "d = (cs_sched s n)\<lparr>sd_queue := (sd_queue (cs_sched s n))(n := sd_queue (cs_sched s n) n @ out n)\<rparr>" using d enqueue_all_Some [OF n] by simp
  fix m assume m: "m < ?N"
  have si: "seq_inv cf s m" using inv m by (auto simp: calvin_inv_def)
  show "seq_inv cf ?s m"
  proof (cases "m = n")
    case True
    then show ?thesis using sn by (auto simp: seq_inv_def sq nth_append less_Suc_eq)
  qed (use si in \<open>auto simp: seq_inv_def\<close>)
  obtain k p where kp: "node_inv cf s m k p" using inv m by (auto simp: calvin_inv_def)
  have "node_inv cf ?s m k p"
    by (rule batch_node [OF kp _ _ _ _ refl refl, where n = n and b = "cs_pending s n"]) (use n sn out [OF m] in \<open>auto simp: d' seq_inv_def\<close>)
  then show "\<exists>k p. node_inv cf ?s m k p" by blast
qed

lemma lock_step:
  assumes inv: "calvin_inv cf s" and n: "n < unat (cv_node_cnt cf)" and kp: "node_inv cf s n k p"
  shows "\<exists>r d k' p'. sched_dequeue cf (cs_sched s n) = Some (r, d) \<and>
    node_inv cf (s\<lparr>cs_sched := (cs_sched s)(n := d), cs_log := (cs_log s)(n := cs_log s n @ (case r of None \<Rightarrow> [] | Some q \<Rightarrow> [q]))\<rparr>) n k' p'"
proof (cases "sd_queue (cs_sched s n) (k mod unat (cv_node_cnt cf))")
  case Nil
  then show ?thesis using kp by (intro exI [of _ None] exI [of _ "cs_sched s n"] exI [of _ k] exI [of _ p]) (simp add: sched_dequeue_def node_inv_def Let_def)
next
  let ?N = "unat (cv_node_cnt cf)" and ?d = "cs_sched s n" and ?H = "cs_hist s" and ?j = "k mod unat (cv_node_cnt cf)" and ?e = "k div unat (cv_node_cnt cf)"
  case (Cons m ms)
  have j: "?j < ?N" using n by simp
  have ptr: "sd_ptr ?d = ?j" "sd_worker_epoch ?d = of_nat (Suc ?e)" using kp by (simp_all add: node_inv_def Let_def)
  have all: "m # ms @ cs_chan s ?j n = drop p (rest cf n ?e (?H ?j))" using kp j Cons by (auto simp: node_inv_def Let_def done_cnt_ptr)
  have e: "?e < length (?H ?j)" using all rest_Nil [of "?H ?j" ?e cf n] by (cases "?e < length (?H ?j)") auto
  let ?b = "mine cf n (?H ?j ! ?e)"
  have cur: "batch_at ?N ?H k = ?H ?j ! ?e" using e by (simp add: batch_at_def)
  have p: "p \<le> length ?b" using kp cur by (simp add: node_inv_def Let_def)
  have all': "m # ms @ cs_chan s ?j n = map SchedQuery (drop p ?b) @ SchedDone (of_nat (Suc ?e)) # rest cf n (Suc ?e) (?H ?j)"
    using all p rest_Cons [OF e, of cf n] by (simp add: sched_enc_def drop_map)
  show ?thesis
  proof (cases "p < length ?b")
    case True
    let ?d' = "?d\<lparr>sd_queue := (sd_queue ?d)(?j := ms)\<rparr>"
    have m: "m = SchedQuery (?b ! p)" "ms @ cs_chan s ?j n = map SchedQuery (drop (Suc p) ?b) @ SchedDone (of_nat (Suc ?e)) # rest cf n (Suc ?e) (?H ?j)"
      using all' True by (auto simp: Cons_nth_drop_Suc [symmetric])
    have "?b ! p \<in> set (?H ?j ! ?e)" using nth_mem [OF True] by (simp add: mine_def)
    moreover have "seq_inv cf s ?j" using inv j by (simp add: calvin_inv_def)
    ultimately have "cq_batch_id (?b ! p) = of_nat (Suc ?e)" using e by (auto simp: seq_inv_def)
    then have "sched_dequeue cf ?d = Some (Some (?b ! p), ?d')" using Cons ptr by (simp add: sched_dequeue_def m(1) Let_def)
    moreover have "ms @ cs_chan s ?j n = drop (Suc p) (rest cf n ?e (?H ?j))" using m(2) True rest_Cons [OF e, of cf n] by (simp add: sched_enc_def drop_map)
    then have "node_inv cf (s\<lparr>cs_sched := (cs_sched s)(n := ?d'), cs_log := (cs_log s)(n := cs_log s n @ [?b ! p])\<rparr>) n k (Suc p)"
      using kp True cur ptr by (auto simp: node_inv_def Let_def done_cnt_ptr take_Suc_conv_app_nth)
    ultimately show ?thesis by (intro exI [of _ "Some (?b ! p)"] exI [of _ ?d'] exI [of _ k] exI [of _ "Suc p"]) simp
  next
    case False
    let ?d' = "?d\<lparr>sd_queue := (sd_queue ?d)(?j := ms), sd_ptr := Suc k mod ?N, sd_worker_epoch := of_nat (Suc (Suc k div ?N))\<rparr>"
    have pl: "p = length ?b" using False p by simp
    have m: "m = SchedDone (of_nat (Suc ?e))" "ms @ cs_chan s ?j n = rest cf n (Suc ?e) (?H ?j)" using all' pl by auto
    have "sched_dequeue cf ?d = Some (None, ?d')"
      using Cons ptr n by (auto simp: sched_dequeue_def m(1) Let_def mod_Suc div_Suc)
    moreover have "node_inv cf (s\<lparr>cs_sched := (cs_sched s)(n := ?d')\<rparr>) n (Suc k) 0"
      using kp cur m(2) e pl j by (auto simp: node_inv_def Let_def done_cnt_Suc done_cnt_ptr common_order_Suc)
    ultimately show ?thesis by (intro exI [of _ None] exI [of _ ?d'] exI [of _ "Suc k"] exI [of _ 0]) simp
  qed
qed

lemma lock_inv:
  assumes inv: "calvin_inv cf s" and n: "n < unat (cv_node_cnt cf)" and dq: "sched_dequeue cf (cs_sched s n) = Some (r, d)"
  shows "calvin_inv cf (s\<lparr>cs_sched := (cs_sched s)(n := d), cs_log := (cs_log s)(n := cs_log s n @ (case r of None \<Rightarrow> [] | Some q \<Rightarrow> [q]))\<rparr>)" (is "calvin_inv cf ?s")
  unfolding calvin_inv_def
proof (intro allI impI conjI)
  fix m assume m: "m < unat (cv_node_cnt cf)"
  have si: "seq_inv cf s m" and ni: "\<exists>k p. node_inv cf s m k p" using inv m by (auto simp: calvin_inv_def)
  show "seq_inv cf ?s m" using si by (simp add: seq_inv_def)
  show "\<exists>k p. node_inv cf ?s m k p"
  proof (cases "m = n")
    case True
    obtain k p where kp: "node_inv cf s n k p" using ni True by blast
    show ?thesis using lock_step [OF inv n kp] dq True by auto
  next
    case False
    obtain k p where kp: "node_inv cf s m k p" using ni by blast
    have "node_inv cf ?s m k p" by (rule node_inv_cong [OF kp]) (use False in auto)
    then show ?thesis by blast
  qed
qed

lemma calvin_init_inv: "calvin_inv cf calvin_init"
proof -
  have "node_inv cf calvin_init n 0 0" if "n < unat (cv_node_cnt cf)" for n
    using that by (auto simp: node_inv_def calvin_init_def scheduler_init_def rest_def done_cnt_def batch_at_def common_order_def)
  then show ?thesis by (auto simp: calvin_inv_def seq_inv_def calvin_init_def sequencer_init_def)
qed

lemma calvin_step_inv: "calvin_step cf s s' \<Longrightarrow> calvin_inv cf s \<Longrightarrow> calvin_inv cf s'"
  by (induction rule: calvin_step.induct) (blast intro: client_inv batch_inv receive_inv lock_inv ack_inv)+

lemma calvin_reach_inv: "calvin_reach cf s \<Longrightarrow> calvin_inv cf s"
  by (induction rule: calvin_reach.induct) (auto intro: calvin_init_inv calvin_step_inv)

definition both :: "calvin_cfg \<Rightarrow> nat \<Rightarrow> nat \<Rightarrow> cl_query list \<Rightarrow> cl_query list" where
  "both cf n m = filter (\<lambda>q. n \<in> set (participants cf q) \<and> m \<in> set (participants cf q))"

lemma both_mine: "both cf n m (mine cf n qs) = both cf n m qs" "both cf n m (mine cf m qs) = both cf n m qs"
  by (auto simp: both_def mine_def intro: filter_cong)

lemma prefix_both: "prefix xs ys \<Longrightarrow> prefix (both cf n m xs) (both cf n m ys)"
  by (auto simp: prefix_def both_def)

lemma both_append: "both cf n m (xs @ ys) = both cf n m xs @ both cf n m ys"
  by (simp add: both_def)

lemma logs_comparable:
  assumes i: "log_i = mine cf i (common_order N H k) @ take p (mine cf i (batch_at N H k))"
    and j: "log_j = mine cf j (common_order N H k') @ take p' (mine cf j (batch_at N H k'))"
    and own: "i = n \<or> i = m" "j = n \<or> j = m" and le: "k \<le> k'"
  shows "prefix (both cf n m log_i) (both cf n m log_j) \<or> prefix (both cf n m log_j) (both cf n m log_i)"
proof -
  have bi: "both cf n m log_i = both cf n m (common_order N H k) @ both cf n m (take p (mine cf i (batch_at N H k)))"
    using own(1) both_mine by (auto simp: i both_append)
  have bj: "both cf n m log_j = both cf n m (common_order N H k') @ both cf n m (take p' (mine cf j (batch_at N H k')))"
    using own(2) both_mine by (auto simp: j both_append)
  have pi: "prefix (both cf n m (take p (mine cf i (batch_at N H k)))) (both cf n m (batch_at N H k))"
    using prefix_both [OF take_is_prefix, of cf n m p "mine cf i (batch_at N H k)"] own(1) by (auto simp: both_mine)
  have pj: "prefix (both cf n m (take p' (mine cf j (batch_at N H k')))) (both cf n m (batch_at N H k'))"
    using prefix_both [OF take_is_prefix, of cf n m p' "mine cf j (batch_at N H k')"] own(2) by (auto simp: both_mine)
  show ?thesis
  proof (cases "k = k'")
    case True
    then show ?thesis using prefix_same_cases [OF pi] pj by (auto simp: bi bj)
  next
    case False
    then have "prefix (common_order N H (Suc k)) (common_order N H k')" using le by (intro order_mono) simp
    then have "prefix (both cf n m (common_order N H k) @ both cf n m (batch_at N H k)) (both cf n m (common_order N H k'))"
      using prefix_both by (metis both_append common_order_Suc)
    moreover have "prefix (both cf n m log_i) (both cf n m (common_order N H k) @ both cf n m (batch_at N H k))" using pi by (simp add: bi)
    ultimately show ?thesis by (auto simp: bj intro: prefix_order.trans prefix_prefix)
  qed
qed

text \<open>C38: Calvin is deterministic: whatever clients send where, however the epochs of the nodes and the messages between them interleave, the lock threads of any two nodes get the transactions that concern both of them in the same order, and no assertion of the scheduler ever fails.\<close>

theorem calvin_same_order:
  assumes "calvin_reach cf s" "n < unat (cv_node_cnt cf)" "m < unat (cv_node_cnt cf)"
  shows "(prefix (both cf n m (cs_log s n)) (both cf n m (cs_log s m)) \<or> prefix (both cf n m (cs_log s m)) (both cf n m (cs_log s n))) \<and>
    sched_dequeue cf (cs_sched s n) \<noteq> None"
proof -
  have inv: "calvin_inv cf s" by (rule calvin_reach_inv [OF assms(1)])
  obtain k p where kp: "node_inv cf s n k p" using inv assms(2) by (auto simp: calvin_inv_def)
  obtain k' p' where kp': "node_inv cf s m k' p'" using inv assms(3) by (auto simp: calvin_inv_def)
  let ?N = "unat (cv_node_cnt cf)" and ?H = "cs_hist s"
  have ln: "cs_log s n = mine cf n (common_order ?N ?H k) @ take p (mine cf n (batch_at ?N ?H k))"
    and lm: "cs_log s m = mine cf m (common_order ?N ?H k') @ take p' (mine cf m (batch_at ?N ?H k'))"
    using kp kp' by (simp_all add: node_inv_def Let_def)
  have "prefix (both cf n m (cs_log s n)) (both cf n m (cs_log s m)) \<or> prefix (both cf n m (cs_log s m)) (both cf n m (cs_log s n))"
    using logs_comparable [OF ln lm, of n m] logs_comparable [OF lm ln, of n m] by (cases "k \<le> k'") auto
  moreover have "sched_dequeue cf (cs_sched s n) \<noteq> None" using lock_step [OF inv assms(2) kp] by auto
  ultimately show ?thesis by blast
qed

definition demo_cv :: calvin_cfg where
  "demo_cv = \<lparr>cv_node_cnt = 2, cv_client_cnt = 1, cv_part_cnt = 2, cv_inflight_max = 100\<rparr>"

definition demo_query :: cl_query where
  "demo_query = \<lparr>cq_keys = [4, 7], cq_return = 2, cq_startts = 5, cq_txn_id = 0, cq_batch_id = 0\<rparr>"

theorem calvin_same_order_witness:
  "\<exists>s. calvin_reach demo_cv s \<and> cs_log s 0 \<noteq> [] \<and>
     (prefix (both demo_cv 0 1 (cs_log s 0)) (both demo_cv 0 1 (cs_log s 1)) \<or> prefix (both demo_cv 0 1 (cs_log s 1)) (both demo_cv 0 1 (cs_log s 0)))"
proof -
  have parts: "participants demo_cv demo_query = [0, 1]" by code_simp
  have "process_txn demo_cv demo_query (cs_seq calvin_init 0) \<noteq> None"
    by (simp add: process_txn_def Let_def wait_list_def new_wait_list_def calvin_init_def sequencer_init_def participants_def key_to_part_def is_client_def demo_query_def demo_cv_def)
  then obtain q sq where q: "process_txn demo_cv demo_query (cs_seq calvin_init 0) = Some (q, sq)" by auto
  have "cq_keys q = cq_keys demo_query" using q by (auto simp: process_txn_def Let_def split: bind_splits prod.splits)
  then have "participants demo_cv q = [0, 1]" using parts by (simp add: participants_def)
  then have sq: "sq_fill sq 0 = [q]" "sq_epoch sq = 0" "cq_batch_id q = 1"
    using process_txn_inv [OF q] by (simp_all add: calvin_init_def sequencer_init_def)
  obtain s1 where s1: "calvin_reach demo_cv s1" "cs_seq s1 0 = sq" "cs_sched s1 0 = scheduler_init" "cs_log s1 0 = []"
    using calvin_reach.step [OF calvin_reach.init calvin_step.client [OF _ q]] by (fastforce simp: demo_cv_def calvin_init_def)
  obtain out sq' where b: "send_next_batch demo_cv (advance_seq_epoch (cs_seq s1 0)) = (out, sq')" by (cases "send_next_batch demo_cv (advance_seq_epoch (cs_seq s1 0))")
  have out: "out 0 = [SchedQuery q, SchedDone 1]" using b by (auto simp: send_next_batch_def advance_seq_epoch_def s1(2) sq demo_cv_def)
  obtain d where d: "enqueue_all demo_cv 0 (out 0) (cs_sched s1 0) = Some d" "sd_queue d 0 = [SchedQuery q, SchedDone 1]" "sd_ptr d = 0" "sd_worker_epoch d = 1"
    using enqueue_all_Some [of 0 demo_cv "out 0" "cs_sched s1 0"] by (auto simp: demo_cv_def s1(3) scheduler_init_def out)
  obtain s2 where s2: "calvin_reach demo_cv s2" "cs_sched s2 0 = d" "cs_log s2 0 = []"
    using calvin_reach.step [OF s1(1) calvin_step.batch [OF _ b d(1)]] by (fastforce simp: demo_cv_def s1(4))
  obtain d' where dq: "sched_dequeue demo_cv (cs_sched s2 0) = Some (Some q, d')" by (simp add: sched_dequeue_def s2(2) d sq(3))
  obtain s3 where "calvin_reach demo_cv s3" "cs_log s3 0 = [q]"
    using calvin_reach.step [OF s2(1) calvin_step.lock [OF _ dq]] by (fastforce simp: demo_cv_def s2(3))
  with calvin_same_order [OF this(1), of 0 1] show ?thesis by (auto simp: demo_cv_def)
qed

end
