(* ===== verification/Spec2Isabelle.thy ===== *)
theory Spec2Isabelle
  imports Lock_System Maat Row_Mvcc Row_Ts Occ Msg_Thread Atomic_Commit Txn_Table Abort_Queue Hash_Index Rollback Framework_Locks Calvin
begin

text \<open>
  A verification development for Deneva, a distributed in-memory database testbed written in C++.
  Files are named relative to \<^verbatim>\<open>src/\<close>.

  \<^bold>\<open>The program.\<close> A client sends a query to the node of its first partition, the home node of the
  transaction. A worker thread there runs it, sends the parts that concern other partitions to
  their nodes, and decides its end by two-phase commit. Every access to a row goes through the row
  manager of the configured concurrency control algorithm, which grants it, makes the transaction
  wait or aborts it. Aborted transactions wait out a penalty and start again. Under CALVIN the
  nodes instead agree on batches of transactions and lock in a common order. Messages between nodes
  are serialised and sent in batches. The replication framework is a second, self-contained store
  that is called along with the transactions.

  \<^bold>\<open>The theories.\<close>
  \<^item> \<open>Deneva_Base\<close>: integer widths, the enumerations of \<^verbatim>\<open>system/global.h\<close> and \<^verbatim>\<open>config.h\<close>,
    assertions, the fields of a transaction manager that the row managers use, and shared lemmas on
    words and lists. \<open>List_Macros\<close>: the pointer macros of \<^verbatim>\<open>system/helper.h\<close> on a store of links;
    they implement lists. \<open>Bucket_Table\<close>: arrays of chains, the interface \<open>keyed_table\<close> and
    sequences of operations with their refinement lemmas. \<open>Request_List\<close>: the request buffers that
    the timestamp based row managers share.
  \<^item> \<open>Row_Lock\<close> (\<^verbatim>\<open>concurrency_control/row_lock.cpp\<close>): locks of a row for NO_WAIT, WAIT_DIE and
    CALVIN. \<open>Lock_System\<close>: many transactions locking many rows, with \<^verbatim>\<open>acquire_locks\<close> of the
    benchmarks: no assertion fails, owners exclude each other, WAIT_DIE does not deadlock, and a
    transaction is started exactly when it has its locks.
  \<^item> \<open>Maat\<close> (\<^verbatim>\<open>maat.cpp\<close>, \<^verbatim>\<open>row_maat.cpp\<close>): validation orders conflicting transactions by their
    timestamp intervals; its assertion; an update that overlapping commits lose.
  \<^item> \<open>Row_Mvcc\<close> (\<^verbatim>\<open>row_mvcc.cpp\<close>): requests complete, a read returns the newest version before it and
    keeps being right, recycling keeps what is above the mark. \<open>Row_Ts\<close> (\<^verbatim>\<open>row_ts.cpp\<close>): accesses
    to a row are serialisable in timestamp order and writers do not block.
  \<^item> \<open>Occ\<close> (\<^verbatim>\<open>occ.cpp\<close>, \<^verbatim>\<open>row_occ.cpp\<close>): validation against a specification, and interleaved
    validations.
  \<^item> \<open>Wire\<close>, \<open>Message\<close>, \<open>Msg_Thread\<close> (\<^verbatim>\<open>transport/message.cpp\<close>, \<^verbatim>\<open>transport/msg_thread.cpp\<close>): bytes,
    the classes of messages, and the batches of the sending thread; what is sent is what is received.
  \<^item> \<open>Commit_Protocol\<close> (the protocol part of \<^verbatim>\<open>system/txn.cpp\<close> and \<^verbatim>\<open>system/worker_thread.cpp\<close>) and
    \<open>Atomic_Commit\<close>, its proofs for any interleaving of messages: agreement, truth of the response,
    no failed assertion, no stuck state, termination of the commit phase, one release per attempt.
  \<^item> \<open>Timestamps\<close> (\<^verbatim>\<open>system/manager.cpp\<close>, \<^verbatim>\<open>worker_thread.cpp\<close>): numbers of transactions and
    timestamps. \<open>Txn_Table\<close> (\<^verbatim>\<open>system/txn_table.cpp\<close>): a map of transactions, and the low-water mark
    that threads compute without a lock. \<open>Abort_Queue\<close> (\<^verbatim>\<open>system/abort_queue.cpp\<close>): when aborted
    transactions restart.
  \<^item> \<open>Storage\<close> (\<^verbatim>\<open>storage/catalog.cpp\<close>, \<^verbatim>\<open>storage/row.cpp\<close>): layout of tuples. \<open>Hash_Index\<close>
    (\<^verbatim>\<open>storage/index_hash.cpp\<close>): a map from keys to rows. \<open>Rollback\<close> (\<^verbatim>\<open>system/txn.cpp\<close>): accesses,
    before images and cleanup under locking.
  \<^item> \<open>Framework_Locks\<close> (\<^verbatim>\<open>framework/\<close>, the variant with locks): without waiting it is a transactional
    key-value store. \<open>Calvin\<close> (\<^verbatim>\<open>system/sequencer.cpp\<close>, \<^verbatim>\<open>calvin_thread.cpp\<close>, \<^verbatim>\<open>work_queue.cpp\<close>):
    all nodes get the transactions in one order.
  \<^item> This theory joins \<open>Row_Mvcc\<close> and \<open>Txn_Table\<close>.

  \<^bold>\<open>Conventions.\<close> An integer of the program is a word of its width; time is an argument. A failed
  assertion, undefined behaviour and a call that never returns are \<open>None\<close>, and theorems that an
  operation completes say that the result is \<open>Some\<close>. There is no fuel: every recursion is over a list
  or a number that decreases, and loops over the whole system are step relations. Code under a
  latch, mutex or semaphore is one step; where the code holds none the model goes access by access
  (\<open>mark_access\<close> in \<open>Txn_Table\<close>, \<open>forward_access\<close> in \<open>Maat\<close>, the two halves of a validation in \<open>Occ\<close>).
  \<open>validate\<close> and \<open>maat_commit\<close> of \<open>Maat\<close> are whole calls, and their properties hold for runs in which no
  other thread changes the time table meanwhile. Bounds appear as hypotheses where the code relies
  on them: fewer than \<open>2 ^ 32\<close> transactions and rows in \<open>Lock_System\<close> (the counters have 32 bits), counters
  that do not wrap around in \<open>Timestamps\<close>, tuples below \<open>2 ^ 31\<close> bytes in \<open>Storage\<close> (sizes are \<^verbatim>\<open>int\<close>).

  \<^bold>\<open>Interfaces.\<close> \<open>keyed_table\<close> (interpreted for the time table, and through its lemmas for other
  tables), the queues of \<open>List_Macros\<close> and the codecs of \<open>Wire\<close> are locales, interpreted on the model's
  own definitions where these are defined.

  \<^bold>\<open>Not modelled.\<close> Sockets and the receiving I/O threads; statistics and timing; the logger (file
  output, switched off); process start-up, parsing and allocation; the stored procedures, loaders and
  query generators of the benchmarks; the B-tree index (not configured); the lock-free queue (unused);
  object pools; the optimistic variant, the membership and the communication of the framework; the
  phases of a Calvin transaction after its locks are granted.
\<close>

section \<open>Recycling of versions under MVCC\<close>

text \<open>C31: Recycling keeps the versions that are needed: with the mark that a thread has got from the transaction table, in any state of the table and with any other threads computing the mark, recycling a row completes and every transaction of the table still reads the version it would have read before, except one that has not published its timestamp yet and one that published it too late, when a mark or the minimum of a scan that had passed its pool was above it.\<close>

theorem mvcc_recycling_keeps_versions:
  assumes "lw_reach intvl n s" "(scast (n + 1 :: 32 word) :: u64) \<noteq> 0" "lw_pc s th = Holding t_th"
    and "live s txn = Some e" "txn \<notin> lw_pend s" "txn \<notin> lw_late s" "mv_inv r"
  shows "\<exists>r'. recycle len t_th r = Some r' \<and> mv_lookup r' (tn_timestamp e) = mv_lookup r (tn_timestamp e)"
proof -
  have "\<not> passed s txn (tn_timestamp e)" using lw_invD(3) [OF lw_reach_inv [OF assms(1,2)] assms(4-6)] .
  then have "t_th \<le> tn_timestamp e" using assms(3) unfolding passed_def by (metis not_less passes.simps(4))
  then show ?thesis using recycle_keeps [OF assms(7), of len t_th] by blast
qed

theorem mvcc_recycling_keeps_versions_witness:
  "\<exists>r'. recycle 10 10 demo_versions = Some r' \<and> mv_lookup r' 10 = mv_lookup demo_versions 10"
proof -
  have "tb_find MVCC demo_tb2 (1, 0) = Some \<lparr>tn_txn_id = 1, tn_batch_id = 0, tn_timestamp = 10\<rparr>" by code_simp
  then have e: "live (demo_lw demo_tb2 {2}) 1 = Some \<lparr>tn_txn_id = 1, tn_batch_id = 0, tn_timestamp = 10\<rparr>" by (simp add: demo_lw_def)
  have "lw_pc (demo_lw demo_tb2 {2}) 0 = Holding 10" by (simp add: demo_lw_def)
  from mvcc_recycling_keeps_versions [OF demo_lw2_reach _ this e _ _ demo_versions_inv, of 10] show ?thesis by (simp add: demo_lw_def)
qed

end
